(* ===== verification/Prelude.thy ===== *)
theory Prelude
  imports Main "HOL-Library.Word" "HOL-Library.Sublist"
begin

text \<open>
  Shared vocabulary of the development: the C results and error values, the C library
  functions on strings that the SDK uses, the narrowing of a C \<open>int\<close>, and the
  interface every comparison callback of the SDK has to satisfy
  (\<^verbatim>\<open>avl_key_cmp_f\<close>), with the sorted-list lemmas that the search trees,
  the registries and the cache share.
\<close>

named_theorems c_simps \<open>unfolding rules of the small C helpers\<close>
named_theorems res_simps \<open>rules of the error-result monad\<close>

section \<open>Results and errors\<close>

text \<open>
  What the C code does when it runs into undefined behaviour is a value of the model: a
  dereferenced \<^verbatim>\<open>NULL\<close>, a failed \<^verbatim>\<open>assert\<close>, a use of a freed object, the
  release of a pointer that is not on the heap, a read of memory that was never set, a write
  after the end of an array, a call that the called library forbids.
\<close>

datatype c_error = NullDeref | AssertFail | UseAfterFree | InvalidFree | Uninitialised | Overflow | ApiMisuse

type_synonym 'a res = "c_error + 'a"

definition rbind :: "'a res \<Rightarrow> ('a \<Rightarrow> 'b res) \<Rightarrow> 'b res" where
  "rbind m f = (case m of Inl e \<Rightarrow> Inl e | Inr x \<Rightarrow> f x)"

lemma rbind_Inl [simp, res_simps]: "rbind (Inl e) f = Inl e"
  by (simp add: rbind_def)

lemma rbind_Inr [simp, res_simps]: "rbind (Inr x) f = f x"
  by (simp add: rbind_def)

lemma rbind_eq_Inr_iff [res_simps]: "rbind m f = Inr y \<longleftrightarrow> (\<exists>x. m = Inr x \<and> f x = Inr y)"
  by (cases m) auto

lemma rbind_cong [fundef_cong]:
  "m = m' \<Longrightarrow> (\<And>x. m' = Inr x \<Longrightarrow> f x = g x) \<Longrightarrow> rbind m f = rbind m' g"
  by (cases m') auto

section \<open>C integers and strings\<close>

text \<open>The value a C \<^verbatim>\<open>int\<close> (32 bits, two's complement) holds after a conversion.\<close>

definition c_int :: "int \<Rightarrow> int" where
  "c_int x = signed_take_bit 31 x"

lemma c_int_small [simp, c_simps]: "- (2 ^ 31) \<le> x \<Longrightarrow> x < 2 ^ 31 \<Longrightarrow> c_int x = x"
  by (simp add: c_int_def signed_take_bit_int_eq_self)

lemma c_int_range: "- (2 ^ 31) \<le> c_int x" "c_int x < 2 ^ 31"
  unfolding c_int_def
  by (rule signed_take_bit_int_greater_eq_minus_exp, rule signed_take_bit_int_less_exp)

text \<open>
  A C string is the list of its bytes up to, and without, the terminating zero. A buffer
  is a list of bytes in which a zero may stand anywhere; \<open>c_str\<close> reads the string that
  starts at an offset of a buffer.
\<close>

abbreviation NUL :: char where "NUL \<equiv> CHR 0x00"

definition c_str :: "string \<Rightarrow> nat \<Rightarrow> string" where
  "c_str buf off = takeWhile (\<lambda>c. c \<noteq> NUL) (drop off buf)"

definition ord_char :: "char \<Rightarrow> int" where
  "ord_char c = of_char c"

lemma ord_char_inj [simp]: "ord_char c = ord_char d \<longleftrightarrow> c = d"
  by (simp add: ord_char_def)

lemma ord_char_mod: "ord_char c = ord_char c mod 256"
  by (simp add: ord_char_def)

lemma ord_char_nonneg [simp]: "0 \<le> ord_char c"
  by (subst ord_char_mod) simp

lemma ord_char_less: "ord_char c < 256"
  by (subst ord_char_mod) simp

lemma ord_char_pos: "c \<noteq> NUL \<Longrightarrow> 0 < ord_char c"
proof -
  assume "c \<noteq> NUL"
  then have "ord_char c \<noteq> ord_char NUL" by simp
  then show ?thesis using ord_char_nonneg [of c] by (simp add: ord_char_def)
qed

text \<open>
  \<^verbatim>\<open>strcmp\<close>: the difference of the first two bytes that differ, as unsigned chars;
  the end of the string counts as the byte 0.
\<close>

fun strcmp :: "string \<Rightarrow> string \<Rightarrow> int" where
  "strcmp [] [] = 0"
| "strcmp [] (y # ys) = - ord_char y"
| "strcmp (x # xs) [] = ord_char x"
| "strcmp (x # xs) (y # ys) = (if x = y then strcmp xs ys else ord_char x - ord_char y)"

definition no_nul :: "string \<Rightarrow> bool" where
  "no_nul s \<longleftrightarrow> NUL \<notin> set s"

lemma no_nul_simps [simp]:
  "no_nul []"
  "no_nul (c # s) \<longleftrightarrow> c \<noteq> NUL \<and> no_nul s"
  "no_nul (s @ t) \<longleftrightarrow> no_nul s \<and> no_nul t"
  by (auto simp: no_nul_def)

lemma strcmp_self [simp]: "strcmp s s = 0"
  by (induction s) auto

lemma strcmp_eq_0: "no_nul s \<Longrightarrow> no_nul t \<Longrightarrow> strcmp s t = 0 \<longleftrightarrow> s = t"
proof (induction s t rule: strcmp.induct)
  case (2 y ys)
  then show ?case using ord_char_pos [of y] by simp
next
  case (3 x xs)
  then show ?case using ord_char_pos [of x] by simp
qed auto

lemma strcmp_swap: "strcmp t s = - strcmp s t"
  by (induction s t rule: strcmp.induct) auto

lemma strcmp_bound: "\<bar>strcmp s t\<bar> < 256"
proof (induction s t rule: strcmp.induct)
  case (4 x xs y ys)
  have "\<bar>ord_char x - ord_char y\<bar> < 256"
    using ord_char_less [of x] ord_char_less [of y] ord_char_nonneg [of x] ord_char_nonneg [of y]
    by linarith
  with 4 show ?case by simp
qed (use ord_char_less in auto)

lemma strcmp_trans:
  "strcmp a b \<le> 0 \<Longrightarrow> strcmp b c \<le> 0 \<Longrightarrow> no_nul a \<Longrightarrow> no_nul b \<Longrightarrow> no_nul c \<Longrightarrow> strcmp a c \<le> 0"
proof (induction a b arbitrary: c rule: strcmp.induct)
  case 1
  then show ?case by simp
next
  case (2 y ys)
  then show ?case by (cases c) auto
next
  case (3 x xs)
  then show ?case using ord_char_pos [of x] by simp
next
  case (4 x xs y ys)
  then show ?case
    using ord_char_pos [of y] by (cases c) (auto split: if_splits)
qed

section \<open>Decimal numbers\<close>

text \<open>What \<^verbatim>\<open>printf\<close> writes for \<^verbatim>\<open>%u\<close> and \<^verbatim>\<open>%d\<close> (and their 64-bit variants).\<close>

definition digit_char :: "nat \<Rightarrow> char" where
  "digit_char d = char_of (48 + d)"

fun dec_nat :: "nat \<Rightarrow> string" where
  "dec_nat n = (if n < 10 then [digit_char n] else dec_nat (n div 10) @ [digit_char (n mod 10)])"

declare dec_nat.simps [simp del]

definition dec_int :: "int \<Rightarrow> string" where
  "dec_int v = (if v < 0 then CHR ''-'' # dec_nat (nat (- v)) else dec_nat (nat v))"

text \<open>Evaluation of \<open>dec_int\<close> on integers.\<close>

lemma dec_int_code [code]:
  "dec_int v =
     (if v < 0 then CHR ''-'' # dec_int (- v)
      else if v < 10 then [digit_char (nat v)]
      else dec_int (v div 10) @ [digit_char (nat (v mod 10))])"
proof (cases "v < 10")
  case True
  then show ?thesis by (auto simp: dec_int_def dec_nat.simps [of "nat v"])
next
  case False
  then have "nat v div 10 = nat (v div 10)" "nat v mod 10 = nat (v mod 10)"
    by (simp_all add: nat_div_distrib nat_mod_distrib)
  moreover from False have "\<not> v < 0" "\<not> nat v < 10" "\<not> v div 10 < 0" by simp_all
  ultimately show ?thesis
    using False by (simp only: dec_int_def dec_nat.simps [of "nat v"] if_False)
qed

lemma ord_digit_char: "d < 10 \<Longrightarrow> ord_char (digit_char d) = 48 + int d"
proof -
  assume "d < 10"
  then have "(48 + int d) mod 256 = 48 + int d" by simp
  moreover have "ord_char (digit_char d) = int (of_char (char_of (48 + d) :: char))"
    by (simp only: ord_char_def digit_char_def of_nat_of_char)
  ultimately show ?thesis using \<open>d < 10\<close> by (simp add: of_char_of)
qed

lemma dec_nat_not_Nil [simp]: "dec_nat n \<noteq> []"
  by (subst dec_nat.simps) simp

lemma set_dec_nat: "c \<in> set (dec_nat n) \<Longrightarrow> 48 \<le> ord_char c \<and> ord_char c \<le> 57"
proof (induction n rule: dec_nat.induct)
  case (1 n)
  then show ?case by (subst (asm) (2) dec_nat.simps) (auto simp: ord_digit_char split: if_splits)
qed

lemma hd_dec_nat: "0 < n \<Longrightarrow> 49 \<le> ord_char (hd (dec_nat n))"
proof (induction n rule: dec_nat.induct)
  case (1 n)
  then show ?case by (subst dec_nat.simps) (auto simp: ord_digit_char)
qed

lemma length_dec_nat: "n < 10 ^ k \<Longrightarrow> 0 < k \<Longrightarrow> length (dec_nat n) \<le> k"
proof (induction n arbitrary: k rule: dec_nat.induct)
  case (1 n)
  show ?case
  proof (cases "n < 10")
    case True
    then show ?thesis using "1.prems" by (subst dec_nat.simps) simp
  next
    case False
    then obtain j where j: "k = Suc j" "0 < j"
      using "1.prems" by (cases k; cases "k - 1") auto
    have "length (dec_nat (n div 10)) \<le> j"
      using "1.prems" j False by (intro "1.IH") auto
    then show ?thesis using False j by (subst dec_nat.simps) simp
  qed
qed

section \<open>Comparison callbacks\<close>

text \<open>
  The C code hands a comparison function to every search tree. What the trees rely on is
  that it is a total preorder on the keys that are stored: \<open>K\<close> is the set of keys for
  which the client promises it, and \<open>kc\<close> the callback.
\<close>

locale key_order =
  fixes kc :: "'k \<Rightarrow> 'k \<Rightarrow> int" and K :: "'k set"
  assumes kc_swap: "a \<in> K \<Longrightarrow> b \<in> K \<Longrightarrow> kc a b < 0 \<longleftrightarrow> 0 < kc b a"
    and kc_trans: "a \<in> K \<Longrightarrow> b \<in> K \<Longrightarrow> c \<in> K \<Longrightarrow> kc a b \<le> 0 \<Longrightarrow> kc b c \<le> 0 \<Longrightarrow> kc a c \<le> 0"
begin

lemma kc_refl [simp]: "a \<in> K \<Longrightarrow> kc a a = 0"
  using kc_swap [of a a] by linarith

lemma kc_eq_swap: "a \<in> K \<Longrightarrow> b \<in> K \<Longrightarrow> kc a b = 0 \<longleftrightarrow> kc b a = 0"
  using kc_swap [of a b] kc_swap [of b a] by linarith

lemma kc_le_swap: "a \<in> K \<Longrightarrow> b \<in> K \<Longrightarrow> kc a b \<le> 0 \<longleftrightarrow> 0 \<le> kc b a"
  using kc_swap [of b a] by linarith

lemma kc_less_iff: "a \<in> K \<Longrightarrow> b \<in> K \<Longrightarrow> kc a b < 0 \<longleftrightarrow> \<not> kc b a \<le> 0"
  using kc_swap [of a b] by linarith

lemma kc_less_le_trans:
  "a \<in> K \<Longrightarrow> b \<in> K \<Longrightarrow> c \<in> K \<Longrightarrow> kc a b < 0 \<Longrightarrow> kc b c \<le> 0 \<Longrightarrow> kc a c < 0"
  using kc_trans [of b c a] by (auto simp: kc_less_iff)

lemma kc_le_less_trans:
  "a \<in> K \<Longrightarrow> b \<in> K \<Longrightarrow> c \<in> K \<Longrightarrow> kc a b \<le> 0 \<Longrightarrow> kc b c < 0 \<Longrightarrow> kc a c < 0"
  using kc_trans [of c a b] by (auto simp: kc_less_iff)

lemma kc_less_trans:
  "a \<in> K \<Longrightarrow> b \<in> K \<Longrightarrow> c \<in> K \<Longrightarrow> kc a b < 0 \<Longrightarrow> kc b c < 0 \<Longrightarrow> kc a c < 0"
  using kc_less_le_trans [of a b c] by simp

lemma kc_eq_iff: "a \<in> K \<Longrightarrow> b \<in> K \<Longrightarrow> kc a b = 0 \<longleftrightarrow> kc a b \<le> 0 \<and> kc b a \<le> 0"
  using kc_le_swap [of b a] by auto

lemma kc_eq_trans:
  "a \<in> K \<Longrightarrow> b \<in> K \<Longrightarrow> c \<in> K \<Longrightarrow> kc a b = 0 \<Longrightarrow> kc b c = 0 \<Longrightarrow> kc a c = 0"
  using kc_trans [of a b c] kc_trans [of c b a] by (simp add: kc_eq_iff)

lemma kc_eq_less_cong:
  assumes "a \<in> K" "b \<in> K" "c \<in> K" "kc a b = 0"
  shows "kc a c < 0 \<longleftrightarrow> kc b c < 0"
proof -
  have "kc a b \<le> 0" "kc b a \<le> 0"
    using assms kc_eq_iff [of a b] by simp_all
  with assms kc_le_less_trans [of a b c] kc_le_less_trans [of b a c] show ?thesis
    by metis
qed

lemma kc_eq_eq_cong:
  assumes "a \<in> K" "b \<in> K" "c \<in> K" "kc a b = 0"
  shows "kc a c = 0 \<longleftrightarrow> kc b c = 0"
  using assms kc_eq_trans [of a b c] kc_eq_trans [of b a c] kc_eq_swap [of a b] by metis

end

section \<open>Keyed stores\<close>

text \<open>
  What the clients of the search tree (the children of a tree node, the listen registry,
  the subscription registry) rely on: \<open>get\<close> finds the element with an equivalent key,
  \<open>ins\<close> adds the copy \<open>cp d\<close> unless the key is present, \<open>del\<close> removes
  a key, \<open>upd\<close> writes through the pointer that \<open>get\<close> returns, and all of them
  keep \<open>inv\<close>.
\<close>

locale keyed_store = key_order kc K for kc :: "'k \<Rightarrow> 'k \<Rightarrow> int" and K +
  fixes get :: "'s \<Rightarrow> 'k \<Rightarrow> 'a option"
    and ins :: "'s \<Rightarrow> 'a \<Rightarrow> 'a option \<times> 's"
    and del :: "'s \<Rightarrow> 'k \<Rightarrow> 's"
    and upd :: "('a \<Rightarrow> 'a) \<Rightarrow> 's \<Rightarrow> 'k \<Rightarrow> 's"
    and inv :: "'s \<Rightarrow> bool"
    and key :: "'a \<Rightarrow> 'k"
    and cp :: "'a \<Rightarrow> 'a"
  assumes get_matches: "inv s \<Longrightarrow> k \<in> K \<Longrightarrow> get s k = Some x \<Longrightarrow> key x \<in> K \<and> kc k (key x) = 0"
    and ins_present: "get s (key d) \<noteq> None \<Longrightarrow> ins s d = (None, s)"
    and ins_absent: "get s (key d) = None \<Longrightarrow> fst (ins s d) = Some (cp d)"
    and get_ins: "inv s \<Longrightarrow> key d \<in> K \<Longrightarrow> k \<in> K \<Longrightarrow> get s (key d) = None \<Longrightarrow>
        get (snd (ins s d)) k = (if kc k (key d) = 0 then Some (cp d) else get s k)"
    and get_del: "inv s \<Longrightarrow> k' \<in> K \<Longrightarrow> k \<in> K \<Longrightarrow>
        get (del s k') k = (if kc k' k = 0 then None else get s k)"
    and get_upd: "inv s \<Longrightarrow> k' \<in> K \<Longrightarrow> k \<in> K \<Longrightarrow> (\<And>x. key (f x) = key x) \<Longrightarrow>
        get (upd f s k') k = (if kc k' k = 0 then map_option f (get s k) else get s k)"
    and inv_ins: "inv s \<Longrightarrow> key d \<in> K \<Longrightarrow> inv (snd (ins s d))"
    and inv_del: "inv s \<Longrightarrow> k \<in> K \<Longrightarrow> inv (del s k)"
    and inv_upd: "inv s \<Longrightarrow> k \<in> K \<Longrightarrow> (\<And>x. key (f x) = key x) \<Longrightarrow> inv (upd f s k)"
begin

text \<open>Removing a key and adding it again, the way the cache replaces a child.\<close>

lemma replace_returns:
  "inv s \<Longrightarrow> key d \<in> K \<Longrightarrow> fst (ins (del s (key d)) d) = Some (cp d)"
  by (rule ins_absent) (simp add: get_del)

lemma get_replace:
  "inv s \<Longrightarrow> key d \<in> K \<Longrightarrow> k \<in> K \<Longrightarrow>
   get (snd (ins (del s (key d)) d)) k = (if kc k (key d) = 0 then Some (cp d) else get s k)"
  using kc_eq_swap [of k "key d"] by (simp add: get_ins inv_del get_del)

lemma inv_replace: "inv s \<Longrightarrow> key d \<in> K \<Longrightarrow> inv (snd (ins (del s (key d)) d))"
  by (simp add: inv_ins inv_del)

end

end
