(* ===== verification/Avl.thy ===== *)
theory Avl
  imports Prelude
begin

text \<open>
  The search tree of \<^verbatim>\<open>lib/collection/avl.c\<close>: nodes with a stored height,
  rotations and balancing, recursive insertion and removal, the in-order iterator with
  its explicit stack, and the walkers. A tree compares with a callback \<open>kc\<close> on the key
  part (\<open>key\<close>) of the stored elements; a pointer into a tree is the subtree it points to.

  The lemmas show that the operations implement the operations on the sorted list of the
  elements for every callback that satisfies \<open>key_order\<close>, that insertion keeps the
  height balance and bounds the height, and that the iterator enumerates the elements in
  order within its stack.
\<close>

section \<open>Nodes, heights and rotations\<close>

datatype 'a avl_node = NIL | Node "'a avl_node" 'a nat "'a avl_node"

datatype 'a avl = AVL (avl_root: "'a avl_node") (avl_cnt: "32 word")

definition avl_new :: "'a avl" where
  "avl_new = AVL NIL 0"

definition avl_count :: "'a avl \<Rightarrow> 32 word" where
  "avl_count t = avl_cnt t"

text \<open>\<open>n ? n->height : 0\<close>\<close>

fun avl_height :: "'a avl_node \<Rightarrow> nat" where
  "avl_height NIL = 0"
| "avl_height (Node l d h r) = h"

fun avl_update_height :: "'a avl_node \<Rightarrow> 'a avl_node" where
  "avl_update_height NIL = NIL"
| "avl_update_height (Node l d h r) =
     (let h0 = 0;
          h1 = (if l \<noteq> NIL \<and> avl_height l > h0 then avl_height l else h0);
          h2 = (if r \<noteq> NIL \<and> avl_height r > h1 then avl_height r else h1)
      in Node l d (h2 + 1) r)"

fun avl_delta :: "'a avl_node \<Rightarrow> int" where
  "avl_delta NIL = 0"
| "avl_delta (Node l d h r) = int (avl_height l) - int (avl_height r)"

text \<open>
  The rotations dereference the child they lift. \<open>avl_balance\<close> calls them only where
  the child exists (\<open>avl_balance_rotates_nodes\<close> below), so the remaining equations are
  never used by it.
\<close>

fun avl_rotl :: "'a avl_node \<Rightarrow> 'a avl_node" where
  "avl_rotl (Node l d h (Node rl rd rh rr)) =
     avl_update_height (Node (avl_update_height (Node l d h rl)) rd rh rr)"
| "avl_rotl n = n"

fun avl_rotr :: "'a avl_node \<Rightarrow> 'a avl_node" where
  "avl_rotr (Node (Node ll ld lh lr) d h r) =
     avl_update_height (Node ll ld lh (avl_update_height (Node lr d h r)))"
| "avl_rotr n = n"

fun avl_balance :: "'a avl_node \<Rightarrow> 'a avl_node" where
  "avl_balance NIL = NIL"
| "avl_balance (Node l d h r) =
     (let dt = avl_delta (Node l d h r)
      in if dt < -1
         then avl_rotl (Node l d h (if avl_delta r > 0 then avl_rotr r else r))
         else if dt > 1
         then avl_rotr (Node (if avl_delta l < 0 then avl_rotl l else l) d h r)
         else avl_update_height (Node l d h r))"

section \<open>Insertion, lookup and removal\<close>

text \<open>The boolean is the flag \<^verbatim>\<open>*ins\<close>.\<close>

fun avl_insert_rec ::
    "('k \<Rightarrow> 'k \<Rightarrow> int) \<Rightarrow> ('a \<Rightarrow> 'k) \<Rightarrow> 'a avl_node \<Rightarrow> 'a \<Rightarrow> 'a avl_node \<times> bool" where
  "avl_insert_rec kc key NIL e = (Node NIL e 1 NIL, True)"
| "avl_insert_rec kc key (Node l d h r) e =
     (if kc (key e) (key d) < 0
      then let (l', ins) = avl_insert_rec kc key l e
           in (if ins then avl_balance (Node l' d h r) else Node l' d h r, ins)
      else let (r', ins) = avl_insert_rec kc key r e
           in (if ins then avl_balance (Node l d h r') else Node l d h r', ins))"

fun avl_get_node :: "('k \<Rightarrow> 'k \<Rightarrow> int) \<Rightarrow> ('a \<Rightarrow> 'k) \<Rightarrow> 'a avl_node \<Rightarrow> 'k \<Rightarrow> 'a option" where
  "avl_get_node kc key NIL k = None"
| "avl_get_node kc key (Node l d h r) k =
     (let c = kc k (key d)
      in if c < 0 then avl_get_node kc key l k
         else if c > 0 then avl_get_node kc key r k
         else Some d)"

definition avl_get :: "('k \<Rightarrow> 'k \<Rightarrow> int) \<Rightarrow> ('a \<Rightarrow> 'k) \<Rightarrow> 'a avl \<Rightarrow> 'k \<Rightarrow> 'a option" where
  "avl_get kc key t k = avl_get_node kc key (avl_root t) k"

text \<open>
  \<open>cp\<close> is the \<^verbatim>\<open>data_copy\<close> callback: the stored element is the copy. The first
  component is the returned pointer, \<open>None\<close> for \<^verbatim>\<open>NULL\<close>.
\<close>

definition avl_insert ::
    "('k \<Rightarrow> 'k \<Rightarrow> int) \<Rightarrow> ('a \<Rightarrow> 'k) \<Rightarrow> ('a \<Rightarrow> 'a) \<Rightarrow> 'a avl \<Rightarrow> 'a \<Rightarrow> 'a option \<times> 'a avl" where
  "avl_insert kc key cp t d =
     (if avl_get kc key t (key d) \<noteq> None then (None, t)
      else let e = cp d
           in (Some e, AVL (fst (avl_insert_rec kc key (avl_root t) e)) (avl_cnt t + 1)))"

fun avl_movr :: "'a avl_node \<Rightarrow> 'a avl_node \<Rightarrow> 'a avl_node" where
  "avl_movr NIL r = r"
| "avl_movr (Node nl d h nr) r = avl_balance (Node nl d h (avl_movr nr r))"

text \<open>
  The boolean is whether the returned \<^verbatim>\<open>parent\<close> pointer is not \<^verbatim>\<open>NULL\<close>, which
  is whether the key was found (and then the counter was decremented).
\<close>

fun avl_remove_rec ::
    "('k \<Rightarrow> 'k \<Rightarrow> int) \<Rightarrow> ('a \<Rightarrow> 'k) \<Rightarrow> 'a avl_node \<Rightarrow> 'k \<Rightarrow> 'a avl_node \<times> bool" where
  "avl_remove_rec kc key NIL k = (NIL, False)"
| "avl_remove_rec kc key (Node l d h r) k =
     (let c = kc k (key d)
      in if c = 0 then (avl_movr l r, True)
         else if c < 0
         then let (l', parent) = avl_remove_rec kc key l k
              in (if parent then avl_balance (Node l' d h r) else Node l' d h r, parent)
         else let (r', parent) = avl_remove_rec kc key r k
              in (if parent then avl_balance (Node l d h r') else Node l d h r', parent))"

definition avl_remove :: "('k \<Rightarrow> 'k \<Rightarrow> int) \<Rightarrow> ('a \<Rightarrow> 'k) \<Rightarrow> 'a avl \<Rightarrow> 'k \<Rightarrow> 'a avl" where
  "avl_remove kc key t k =
     (let (n, found) = avl_remove_rec kc key (avl_root t) k
      in AVL n (if found then avl_cnt t - 1 else avl_cnt t))"

text \<open>
  A write through the pointer \<^verbatim>\<open>avl_get\<close> returned: the element found is replaced by
  \<open>f\<close> of it, in place.
\<close>

fun avl_modify_node ::
    "('k \<Rightarrow> 'k \<Rightarrow> int) \<Rightarrow> ('a \<Rightarrow> 'k) \<Rightarrow> ('a \<Rightarrow> 'a) \<Rightarrow> 'a avl_node \<Rightarrow> 'k \<Rightarrow> 'a avl_node" where
  "avl_modify_node kc key f NIL k = NIL"
| "avl_modify_node kc key f (Node l d h r) k =
     (let c = kc k (key d)
      in if c < 0 then Node (avl_modify_node kc key f l k) d h r
         else if c > 0 then Node l d h (avl_modify_node kc key f r k)
         else Node l (f d) h r)"

definition avl_modify ::
    "('k \<Rightarrow> 'k \<Rightarrow> int) \<Rightarrow> ('a \<Rightarrow> 'k) \<Rightarrow> ('a \<Rightarrow> 'a) \<Rightarrow> 'a avl \<Rightarrow> 'k \<Rightarrow> 'a avl" where
  "avl_modify kc key f t k = AVL (avl_modify_node kc key f (avl_root t) k) (avl_cnt t)"

section \<open>Iterators\<close>

text \<open>
  \<^verbatim>\<open>struct avl_it\<close>: the stack (top first), the two right-turn pointers \<^verbatim>\<open>_rt\<close> and
  \<^verbatim>\<open>__rt\<close>, and the current node. The C stack has room for 32 pointers;
  the lemmas bound the length of \<open>it_stack\<close>.
\<close>

record 'a avl_it =
  it_stack :: "'a avl_node list"
  it_rt :: "'a avl_node option"
  it_rt2 :: "'a avl_node option"
  it_c :: "'a avl_node option"

definition avl_it_init :: "'a avl_it" where
  "avl_it_init = \<lparr>it_stack = [], it_rt = None, it_rt2 = None, it_c = None\<rparr>"

text \<open>\<open>while (cur != NULL) { push(cur); cur = cur->l; }\<close>\<close>

fun push_left :: "'a avl_node \<Rightarrow> 'a avl_node list \<Rightarrow> 'a avl_node list" where
  "push_left NIL s = s"
| "push_left (Node l d h r) s = push_left l (Node l d h r # s)"

definition avl_it_start :: "'a avl option \<Rightarrow> 'a avl_it" where
  "avl_it_start t = (case t of
      None \<Rightarrow> avl_it_init
    | Some a \<Rightarrow> avl_it_init\<lparr>it_stack := push_left (avl_root a) []\<rparr>)"

fun avl_it_start_at_loop ::
    "('k \<Rightarrow> 'k \<Rightarrow> int) \<Rightarrow> ('a \<Rightarrow> 'k) \<Rightarrow> 'k \<Rightarrow> 'a avl_node \<Rightarrow> 'a avl_it \<Rightarrow> 'a avl_it" where
  "avl_it_start_at_loop kc key k NIL it = it"
| "avl_it_start_at_loop kc key k (Node l d h r) it =
     (let cur = Node l d h r;
          it = it\<lparr>it_c := Some cur, it_rt := it_rt2 it\<rparr>;
          c = kc k (key d)
      in if c < 0
         then avl_it_start_at_loop kc key k l (it\<lparr>it_stack := cur # it_stack it\<rparr>)
         else if c > 0
         then avl_it_start_at_loop kc key k r (it\<lparr>it_rt2 := Some cur\<rparr>)
         else it\<lparr>it_stack := cur # it_stack it\<rparr>)"

definition avl_it_start_at :: "('k \<Rightarrow> 'k \<Rightarrow> int) \<Rightarrow> ('a \<Rightarrow> 'k) \<Rightarrow> 'a avl \<Rightarrow> 'k \<Rightarrow> 'a avl_it" where
  "avl_it_start_at kc key t k = avl_it_start_at_loop kc key k (avl_root t) avl_it_init"

text \<open>The \<^verbatim>\<open>NULL\<close> pointer is never pushed.\<close>

definition avl_it_next :: "'a avl_it \<Rightarrow> 'a option \<times> 'a avl_it" where
  "avl_it_next it = (case it_stack it of
      [] \<Rightarrow> (None, it)
    | NIL # s \<Rightarrow> (None, it)
    | Node l d h r # s \<Rightarrow>
        (let top = Node l d h r;
             it = it\<lparr>it_stack := s, it_rt := it_rt2 it\<rparr>;
             it = (if r \<noteq> NIL
                   then it\<lparr>it_rt2 := Some top, it_stack := push_left r (it_stack it)\<rparr> else it)
         in (Some d, it\<lparr>it_c := Some top\<rparr>)))"

fun node_data :: "'a avl_node \<Rightarrow> 'a option" where
  "node_data NIL = None"
| "node_data (Node l d h r) = Some d"

definition avl_it_peek :: "'a avl_it \<Rightarrow> 'a option" where
  "avl_it_peek it = (case it_c it of None \<Rightarrow> None | Some n \<Rightarrow> node_data n)"

definition avl_it_has_next :: "'a avl_it \<Rightarrow> bool" where
  "avl_it_has_next it \<longleftrightarrow> it_stack it \<noteq> []"

definition avl_it_peek_next :: "'a avl_it \<Rightarrow> 'a option" where
  "avl_it_peek_next it = (if avl_it_has_next it then node_data (hd (it_stack it)) else None)"

text \<open>\<open>while (cur->r != NULL) cur = cur->r; return cur->data\<close>\<close>

fun rightmost :: "'a avl_node \<Rightarrow> 'a option" where
  "rightmost NIL = None"
| "rightmost (Node l d h r) = (if r \<noteq> NIL then rightmost r else Some d)"

definition avl_it_peek_prev :: "'a avl_it \<Rightarrow> 'a option" where
  "avl_it_peek_prev it = (case it_c it of
      None \<Rightarrow> None
    | Some NIL \<Rightarrow> None
    | Some (Node l d h r) \<Rightarrow>
        if l \<noteq> NIL then rightmost l
        else case it_rt it of None \<Rightarrow> None | Some n \<Rightarrow> node_data n)"

section \<open>Walks and destruction\<close>

datatype avl_order = AVL_PREORDER | AVL_INORDER | AVL_POSTORDER

text \<open>The walker's effect on its parameter is a function on a state.\<close>

fun avl_walk_rec :: "avl_order \<Rightarrow> 'a avl_node \<Rightarrow> ('a \<Rightarrow> 's \<Rightarrow> 's) \<Rightarrow> 's \<Rightarrow> 's" where
  "avl_walk_rec ord NIL walker s = s"
| "avl_walk_rec ord (Node l d h r) walker s =
     (let s = (if ord = AVL_PREORDER then walker d s else s);
          s = avl_walk_rec ord l walker s;
          s = (if ord = AVL_INORDER then walker d s else s);
          s = avl_walk_rec ord r walker s
      in if ord = AVL_POSTORDER then walker d s else s)"

definition avl_walk :: "'a avl \<Rightarrow> avl_order \<Rightarrow> ('a \<Rightarrow> 's \<Rightarrow> 's) \<Rightarrow> 's \<Rightarrow> 's" where
  "avl_walk t ord walker s = avl_walk_rec ord (avl_root t) walker s"

text \<open>\<open>cleanup\<close> is what \<^verbatim>\<open>avl_destroyer_walker\<close> does with one element.\<close>

definition avl_remove_all :: "('a \<Rightarrow> 's \<Rightarrow> 's) \<Rightarrow> 'a avl \<Rightarrow> 's \<Rightarrow> 's \<times> 'a avl" where
  "avl_remove_all cleanup t s = (avl_walk t AVL_POSTORDER cleanup s, AVL NIL 0)"

section \<open>The elements in order\<close>

fun avl_inorder :: "'a avl_node \<Rightarrow> 'a list" where
  "avl_inorder NIL = []"
| "avl_inorder (Node l d h r) = avl_inorder l @ d # avl_inorder r"

definition avl_elems :: "'a avl \<Rightarrow> 'a list" where
  "avl_elems t = avl_inorder (avl_root t)"

lemma update_height_eq [simp]:
  "avl_update_height (Node l d h r) = Node l d (1 + max (avl_height l) (avl_height r)) r"
  by (cases l; cases r) (auto simp: Let_def max_def)

declare avl_update_height.simps(2) [simp del]

lemma inorder_rotl [simp]: "avl_inorder (avl_rotl t) = avl_inorder t"
  by (cases t rule: avl_rotl.cases) auto

lemma inorder_rotr [simp]: "avl_inorder (avl_rotr t) = avl_inorder t"
  by (cases t rule: avl_rotr.cases) auto

lemma inorder_balance [simp]: "avl_inorder (avl_balance t) = avl_inorder t"
  by (cases t) (auto simp: Let_def)

declare avl_balance.simps(2) [simp del]

lemma inorder_movr [simp]: "avl_inorder (avl_movr l r) = avl_inorder l @ avl_inorder r"
  by (induction l) auto

lemma insert_rec_ins [simp]: "snd (avl_insert_rec kc key t e) = True"
  by (induction t) (auto split: prod.splits)

lemma insert_rec_Node:
  "fst (avl_insert_rec kc key (Node l d h r) e) =
     (if kc (key e) (key d) < 0
      then avl_balance (Node (fst (avl_insert_rec kc key l e)) d h r)
      else avl_balance (Node l d h (fst (avl_insert_rec kc key r e))))"
  by (simp add: case_prod_beta)

lemma set_inorder_insert_rec [simp]:
  "set (avl_inorder (fst (avl_insert_rec kc key t e))) = insert e (set (avl_inorder t))"
  by (induction t) (auto simp: insert_rec_Node simp del: avl_insert_rec.simps(2))

text \<open>The rotations inside \<open>avl_balance\<close> find the nodes they lift.\<close>

lemma avl_height_pos: "avl_height t > 0 \<Longrightarrow> t \<noteq> NIL"
  by auto

lemma avl_balance_rotates_nodes:
  "avl_delta (Node l d h r) < -1 \<Longrightarrow>
     \<exists>rl rd rh rr. r = Node rl rd rh rr \<and> (avl_delta r > 0 \<longrightarrow> rl \<noteq> NIL)"
  "avl_delta (Node l d h r) > 1 \<Longrightarrow>
     \<exists>ll ld lh lr. l = Node ll ld lh lr \<and> (avl_delta l < 0 \<longrightarrow> lr \<noteq> NIL)"
  by (cases r; force) (cases l; force)

section \<open>Search-tree order\<close>

definition avl_ordered :: "('k \<Rightarrow> 'k \<Rightarrow> int) \<Rightarrow> 'k set \<Rightarrow> ('a \<Rightarrow> 'k) \<Rightarrow> 'a avl_node \<Rightarrow> bool" where
  "avl_ordered kc K key t \<longleftrightarrow>
     key ` set (avl_inorder t) \<subseteq> K \<and> sorted_wrt (\<lambda>a b. kc (key a) (key b) < 0) (avl_inorder t)"

lemma avl_ordered_NIL [simp]: "avl_ordered kc K key NIL"
  by (simp add: avl_ordered_def)

lemma avl_ordered_Node:
  "avl_ordered kc K key (Node l d h r) \<longleftrightarrow>
     key d \<in> K \<and> avl_ordered kc K key l \<and> avl_ordered kc K key r \<and>
     (\<forall>x \<in> set (avl_inorder l). kc (key x) (key d) < 0) \<and>
     (\<forall>x \<in> set (avl_inorder r). kc (key d) (key x) < 0) \<and>
     (\<forall>x \<in> set (avl_inorder l). \<forall>y \<in> set (avl_inorder r). kc (key x) (key y) < 0)"
  by (auto simp: avl_ordered_def sorted_wrt_append)

lemma avl_ordered_cong:
  "avl_inorder t = avl_inorder t' \<Longrightarrow> avl_ordered kc K key t = avl_ordered kc K key t'"
  by (simp add: avl_ordered_def)

text \<open>The reference operation of insertion on the sorted list of elements.\<close>

fun ins_sorted :: "('k \<Rightarrow> 'k \<Rightarrow> int) \<Rightarrow> ('a \<Rightarrow> 'k) \<Rightarrow> 'a \<Rightarrow> 'a list \<Rightarrow> 'a list" where
  "ins_sorted kc key x [] = [x]"
| "ins_sorted kc key x (y # ys) =
     (if kc (key x) (key y) < 0 then x # y # ys else y # ins_sorted kc key x ys)"

lemma set_ins_sorted [simp]: "set (ins_sorted kc key x ys) = insert x (set ys)"
  by (induction ys) auto

lemma ins_sorted_append_less:
  "kc (key x) (key y) < 0 \<Longrightarrow> ins_sorted kc key x (xs @ y # ys) = ins_sorted kc key x xs @ y # ys"
  by (induction xs) auto

lemma ins_sorted_append_ge:
  "\<forall>z \<in> set xs. \<not> kc (key x) (key z) < 0 \<Longrightarrow>
   ins_sorted kc key x (xs @ ys) = xs @ ins_sorted kc key x ys"
  by (induction xs) auto

text \<open>What a client of the tree fixes: the callback and the key of an element.\<close>

locale avl_client = key_order kc K for kc :: "'k \<Rightarrow> 'k \<Rightarrow> int" and K +
  fixes key :: "'a \<Rightarrow> 'k"
begin

lemma ordered_inK: "avl_ordered kc K key t \<Longrightarrow> x \<in> set (avl_inorder t) \<Longrightarrow> key x \<in> K"
  by (auto simp: avl_ordered_def)

text \<open>On which side of a node an element with an equivalent key lies.\<close>

lemma match_left:
  assumes "avl_ordered kc K key (Node l d h r)" "k \<in> K" "kc k (key y) = 0" "y \<in> set (avl_inorder l)"
  shows "kc k (key d) < 0"
  using assms kc_le_less_trans [of k "key y" "key d"] ordered_inK [of l y]
  by (simp add: avl_ordered_Node)

lemma match_right:
  assumes "avl_ordered kc K key (Node l d h r)" "k \<in> K" "kc k (key y) = 0" "y \<in> set (avl_inorder r)"
  shows "0 < kc k (key d)"
  using assms kc_less_le_trans [of "key d" "key y" k] ordered_inK [of r y]
    kc_eq_swap [of k "key y"] kc_swap [of "key d" k]
  by (simp add: avl_ordered_Node)

lemma get_node_iff:
  "avl_ordered kc K key t \<Longrightarrow> k \<in> K \<Longrightarrow>
   avl_get_node kc key t k = Some x \<longleftrightarrow> x \<in> set (avl_inorder t) \<and> kc k (key x) = 0"
proof (induction t)
  case NIL
  then show ?case by simp
next
  case (Node l d h r)
  note ord = Node.prems(1) [unfolded avl_ordered_Node]
  note left = match_left [OF Node.prems]
  note right = match_right [OF Node.prems]
  consider "kc k (key d) < 0" | "0 < kc k (key d)" | "kc k (key d) = 0" by linarith
  then show ?case
  proof cases
    case 1
    with Node.IH(1) ord Node.prems(2) right [of x] show ?thesis by (auto simp: Let_def)
  next
    case 2
    with Node.IH(2) ord Node.prems(2) left [of x] show ?thesis by (auto simp: Let_def)
  next
    case 3
    with left [of x] right [of x] show ?thesis by (auto simp: Let_def)
  qed
qed

lemma get_node_None_iff:
  "avl_ordered kc K key t \<Longrightarrow> k \<in> K \<Longrightarrow>
   avl_get_node kc key t k = None \<longleftrightarrow> (\<forall>x \<in> set (avl_inorder t). kc k (key x) \<noteq> 0)"
  using get_node_iff [of t k] by (metis not_None_eq)

lemma inorder_insert_rec:
  "avl_ordered kc K key t \<Longrightarrow> key e \<in> K \<Longrightarrow>
   avl_inorder (fst (avl_insert_rec kc key t e)) = ins_sorted kc key e (avl_inorder t)"
proof (induction t)
  case NIL
  then show ?case by simp
next
  case (Node l d h r)
  note ord = Node.prems(1) [unfolded avl_ordered_Node]
  show ?case
  proof (cases "kc (key e) (key d) < 0")
    case True
    with Node.IH(1) ord Node.prems(2) show ?thesis
      by (simp add: insert_rec_Node ins_sorted_append_less del: avl_insert_rec.simps)
  next
    case False
    have "\<not> kc (key e) (key z) < 0" if "z \<in> set (avl_inorder l)" for z
      using that ord False Node.prems(2) ordered_inK [of l z]
        kc_less_trans [of "key e" "key z" "key d"] by auto
    then have "ins_sorted kc key e (avl_inorder l @ d # avl_inorder r)
        = avl_inorder l @ d # ins_sorted kc key e (avl_inorder r)"
      using False ins_sorted_append_ge [of "avl_inorder l" kc key e "d # avl_inorder r"] by simp
    with False Node.IH(2) ord Node.prems(2) show ?thesis
      by (simp add: insert_rec_Node del: avl_insert_rec.simps)
  qed
qed

lemma sorted_ins_sorted:
  assumes "sorted_wrt (\<lambda>a b. kc (key a) (key b) < 0) xs" "key ` set xs \<subseteq> K" "key x \<in> K"
    and "\<forall>y \<in> set xs. kc (key x) (key y) \<noteq> 0"
  shows "sorted_wrt (\<lambda>a b. kc (key a) (key b) < 0) (ins_sorted kc key x xs)"
  using assms
proof (induction xs)
  case Nil
  then show ?case by simp
next
  case (Cons y ys)
  show ?case
  proof (cases "kc (key x) (key y) < 0")
    case True
    have "kc (key x) (key z) < 0" if "z \<in> set ys" for z
      using that True Cons.prems kc_less_trans [of "key x" "key y" "key z"] by auto
    with True Cons.prems show ?thesis by auto
  next
    case False
    with Cons.prems have "kc (key y) (key x) < 0"
      using kc_swap [of "key y" "key x"] by force
    with False Cons show ?thesis by auto
  qed
qed

lemma ordered_insert_rec:
  assumes "avl_ordered kc K key t" "key e \<in> K" "avl_get_node kc key t (key e) = None"
  shows "avl_ordered kc K key (fst (avl_insert_rec kc key t e))"
  using assms sorted_ins_sorted [of "avl_inorder t" e]
  by (simp add: get_node_None_iff inorder_insert_rec avl_ordered_def)

lemma remove_rec_correct:
  "avl_ordered kc K key t \<Longrightarrow> k \<in> K \<Longrightarrow>
   avl_inorder (fst (avl_remove_rec kc key t k)) = filter (\<lambda>x. kc k (key x) \<noteq> 0) (avl_inorder t) \<and>
   (snd (avl_remove_rec kc key t k) \<longleftrightarrow> avl_get_node kc key t k \<noteq> None)"
proof (induction t)
  case NIL
  then show ?case by simp
next
  case (Node l d h r)
  note ord = Node.prems(1) [unfolded avl_ordered_Node]
  note left = match_left [OF Node.prems]
  note right = match_right [OF Node.prems]
  have keep: "filter (\<lambda>x. kc k (key x) \<noteq> 0) (avl_inorder t) = avl_inorder t"
    if "\<And>y. y \<in> set (avl_inorder t) \<Longrightarrow> kc k (key y) \<noteq> 0" for t
    using that by (simp add: filter_id_conv)
  consider "kc k (key d) < 0" | "0 < kc k (key d)" | "kc k (key d) = 0" by linarith
  then show ?case
  proof cases
    case 1
    then have "filter (\<lambda>x. kc k (key x) \<noteq> 0) (avl_inorder r) = avl_inorder r"
      by (intro keep) (use right in force)
    with 1 Node.IH(1) ord Node.prems(2) show ?thesis by (simp add: Let_def case_prod_beta)
  next
    case 2
    then have "filter (\<lambda>x. kc k (key x) \<noteq> 0) (avl_inorder l) = avl_inorder l"
      by (intro keep) (use left in force)
    with 2 Node.IH(2) ord Node.prems(2) show ?thesis by (simp add: Let_def case_prod_beta)
  next
    case 3
    then have "filter (\<lambda>x. kc k (key x) \<noteq> 0) (avl_inorder l) = avl_inorder l"
        "filter (\<lambda>x. kc k (key x) \<noteq> 0) (avl_inorder r) = avl_inorder r"
      by (intro keep; use left right in force)+
    with 3 show ?thesis by simp
  qed
qed

lemma ordered_remove_rec:
  assumes "avl_ordered kc K key t" "k \<in> K"
  shows "avl_ordered kc K key (fst (avl_remove_rec kc key t k))"
  using assms remove_rec_correct [OF assms]
  by (auto simp: avl_ordered_def intro: sorted_wrt_filter)

lemma inorder_modify_node:
  "avl_ordered kc K key t \<Longrightarrow> k \<in> K \<Longrightarrow>
    avl_inorder (avl_modify_node kc key f t k) =
      map (\<lambda>x. if kc k (key x) = 0 then f x else x) (avl_inorder t)"
proof (induction t)
  case NIL
  then show ?case by simp
next
  case (Node l d h r)
  note ord = Node.prems(1) [unfolded avl_ordered_Node]
  note left = match_left [OF Node.prems]
  note right = match_right [OF Node.prems]
  let ?g = "\<lambda>x. if kc k (key x) = 0 then f x else x"
  have keep_l: "map ?g (avl_inorder l) = avl_inorder l" if "\<not> kc k (key d) < 0"
    using that left by (intro map_idI) auto
  have keep_r: "map ?g (avl_inorder r) = avl_inorder r" if "\<not> 0 < kc k (key d)"
    using that right by (intro map_idI) auto
  consider "kc k (key d) < 0" | "0 < kc k (key d)" | "kc k (key d) = 0" by linarith
  then show ?case
  proof cases
    case 1
    with Node.IH(1) ord Node.prems(2) keep_r show ?thesis by (simp add: Let_def)
  next
    case 2
    with Node.IH(2) ord Node.prems(2) keep_l show ?thesis by (simp add: Let_def)
  next
    case 3
    with keep_l keep_r show ?thesis by (simp add: Let_def)
  qed
qed

lemma ordered_modify_node:
  assumes "avl_ordered kc K key t" "k \<in> K" "\<And>x. key (f x) = key x"
  shows "avl_ordered kc K key (avl_modify_node kc key f t k)"
proof -
  have key: "key (if b then f x else x) = key x" for b x
    by (simp add: assms(3))
  show ?thesis
    using assms(1,2)
    by (auto simp: avl_ordered_def inorder_modify_node [OF assms(1,2)] sorted_wrt_map key assms(3))
qed

end

definition avl_wf :: "('k \<Rightarrow> 'k \<Rightarrow> int) \<Rightarrow> 'k set \<Rightarrow> ('a \<Rightarrow> 'k) \<Rightarrow> 'a avl \<Rightarrow> bool" where
  "avl_wf kc K key t \<longleftrightarrow>
     avl_ordered kc K key (avl_root t) \<and> avl_cnt t = of_nat (length (avl_elems t))"

lemma avl_wf_new [simp]: "avl_wf kc K key avl_new"
  by (simp add: avl_wf_def avl_new_def avl_elems_def)

lemma avl_elems_new [simp]: "avl_elems avl_new = []"
  by (simp add: avl_elems_def avl_new_def)

lemma length_inorder_insert_rec [simp]:
  "length (avl_inorder (fst (avl_insert_rec kc key t e))) = Suc (length (avl_inorder t))"
  by (induction t) (auto simp: insert_rec_Node simp del: avl_insert_rec.simps(2))

lemma length_filter_unique:
  assumes "distinct xs" "x \<in> set xs" "\<And>y. y \<in> set xs \<Longrightarrow> P y \<longleftrightarrow> y \<noteq> x"
  shows "Suc (length (filter P xs)) = length xs"
proof -
  have "filter P xs = filter ((\<noteq>) x) xs"
    using assms(3) by (intro filter_cong) auto
  then have "filter P xs = remove1 x xs"
    using assms(1) by (simp add: distinct_remove1_removeAll removeAll_filter_not_eq)
  with assms(2) length_pos_if_in_set [OF assms(2)] show ?thesis
    by (simp add: length_remove1)
qed

lemma sorted_wrt_distinct: "(\<And>x. x \<in> set xs \<Longrightarrow> \<not> P x x) \<Longrightarrow> sorted_wrt P xs \<Longrightarrow> distinct xs"
  by (induction xs) auto

locale avl_store = avl_client kc K key
  for kc :: "'k \<Rightarrow> 'k \<Rightarrow> int" and K and key :: "'a \<Rightarrow> 'k" +
  fixes cp :: "'a \<Rightarrow> 'a"
  assumes cp_key: "key (cp d) = key d"
begin

lemma distinct_inorder: "avl_ordered kc K key t \<Longrightarrow> distinct (avl_inorder t)"
  unfolding avl_ordered_def by (rule sorted_wrt_distinct [rotated]) auto

lemma match_unique:
  assumes "avl_ordered kc K key t" "k \<in> K"
    and "x \<in> set (avl_inorder t)" "y \<in> set (avl_inorder t)" "kc k (key x) = 0" "kc k (key y) = 0"
  shows "x = y"
  using get_node_iff [OF assms(1,2), of x] get_node_iff [OF assms(1,2), of y] assms(3-) by simp

lemma wf_insert:
  assumes "avl_wf kc K key t" "key d \<in> K"
  shows "avl_wf kc K key (snd (avl_insert kc key cp t d))"
  using assms ordered_insert_rec [of "avl_root t" "cp d"]
  by (auto simp: avl_wf_def avl_insert_def avl_get_def avl_elems_def cp_key Let_def)

lemma wf_remove:
  assumes "avl_wf kc K key t" "k \<in> K"
  shows "avl_wf kc K key (avl_remove kc key t k)"
proof -
  have ord: "avl_ordered kc K key (avl_root t)" and cnt: "avl_cnt t = of_nat (length (avl_elems t))"
    using assms(1) by (simp_all add: avl_wf_def)
  note correct = remove_rec_correct [OF ord assms(2)]
  have "of_nat (length (avl_inorder (fst (avl_remove_rec kc key (avl_root t) k)))) =
      (if snd (avl_remove_rec kc key (avl_root t) k) then avl_cnt t - 1 else avl_cnt t)"
  proof (cases "avl_get_node kc key (avl_root t) k")
    case None
    then show ?thesis
      using correct cnt get_node_None_iff [OF ord assms(2)]
      by (simp add: avl_elems_def filter_id_conv)
  next
    case (Some x)
    then have x: "x \<in> set (avl_inorder (avl_root t))" "kc k (key x) = 0"
      using get_node_iff [OF ord assms(2)] by auto
    have "kc k (key y) \<noteq> 0 \<longleftrightarrow> y \<noteq> x" if "y \<in> set (avl_inorder (avl_root t))" for y
      using that x match_unique [OF ord assms(2), of y x] by metis
    from length_filter_unique [OF distinct_inorder [OF ord] x(1) this]
    have "Suc (length (filter (\<lambda>x. kc k (key x) \<noteq> 0) (avl_inorder (avl_root t))))
        = length (avl_inorder (avl_root t))" by simp
    from arg_cong [OF this, of "of_nat :: nat \<Rightarrow> 32 word"] show ?thesis
      using correct cnt Some by (simp add: avl_elems_def algebra_simps)
  qed
  then show ?thesis
    using ordered_remove_rec [OF ord assms(2)]
    by (simp add: avl_wf_def avl_remove_def avl_elems_def case_prod_beta)
qed

lemma wf_modify:
  assumes "avl_wf kc K key t" "k \<in> K" "\<And>x. key (f x) = key x"
  shows "avl_wf kc K key (avl_modify kc key f t k)"
  using assms ordered_modify_node [of "avl_root t" k f] inorder_modify_node [of "avl_root t" k f]
  by (simp add: avl_wf_def avl_modify_def avl_elems_def)

lemma get_insert:
  assumes "avl_wf kc K key t" "key d \<in> K" "k \<in> K" "avl_get kc key t (key d) = None"
  shows "avl_get kc key (snd (avl_insert kc key cp t d)) k =
    (if kc k (key d) = 0 then Some (cp d) else avl_get kc key t k)"
proof -
  have ord: "avl_ordered kc K key (avl_root t)"
    using assms(1) by (simp add: avl_wf_def)
  have none: "avl_get_node kc key (avl_root t) (key d) = None"
    using assms(4) by (simp add: avl_get_def)
  have ord': "avl_ordered kc K key (fst (avl_insert_rec kc key (avl_root t) (cp d)))"
    using ordered_insert_rec [OF ord, of "cp d"] assms(2) none by (simp add: cp_key)
  have "avl_get_node kc key (fst (avl_insert_rec kc key (avl_root t) (cp d))) k = Some x \<longleftrightarrow>
      (if kc k (key d) = 0 then Some (cp d) else avl_get_node kc key (avl_root t) k) = Some x" for x
  proof (cases "kc k (key d) = 0")
    case True
    have "kc k (key y) \<noteq> 0" if "y \<in> set (avl_inorder (avl_root t))" for y
      using that none get_node_None_iff [OF ord assms(2)] True
        kc_eq_eq_cong [of k "key d" "key y"] assms(2,3) ordered_inK [OF ord] by auto
    with True show ?thesis
      by (auto simp: get_node_iff [OF ord' assms(3)] cp_key)
  next
    case False
    then show ?thesis
      by (auto simp: get_node_iff [OF ord' assms(3)] get_node_iff [OF ord assms(3)] cp_key)
  qed
  then have "avl_get_node kc key (fst (avl_insert_rec kc key (avl_root t) (cp d))) k =
      (if kc k (key d) = 0 then Some (cp d) else avl_get_node kc key (avl_root t) k)"
    by (metis not_None_eq)
  then show ?thesis
    using assms(4) by (simp add: avl_insert_def avl_get_def Let_def)
qed

lemma get_remove:
  assumes "avl_wf kc K key t" "k' \<in> K" "k \<in> K"
  shows "avl_get kc key (avl_remove kc key t k') k =
    (if kc k' k = 0 then None else avl_get kc key t k)"
proof -
  have ord: "avl_ordered kc K key (avl_root t)"
    using assms(1) by (simp add: avl_wf_def)
  note ord' = ordered_remove_rec [OF ord assms(2)]
  have cong: "kc k' (key y) = 0 \<longleftrightarrow> kc k' k = 0"
    if "y \<in> set (avl_inorder (avl_root t))" "kc k (key y) = 0" for y
    using that assms(2,3) ordered_inK [OF ord that(1)]
      kc_eq_eq_cong [of k "key y" k'] kc_eq_swap [of k' k] kc_eq_swap [of k' "key y"] by simp
  have "avl_get_node kc key (fst (avl_remove_rec kc key (avl_root t) k')) k = Some x \<longleftrightarrow>
      (if kc k' k = 0 then None else avl_get_node kc key (avl_root t) k) = Some x" for x
    using cong [of x] remove_rec_correct [OF ord assms(2)]
    by (auto simp: get_node_iff [OF ord' assms(3)] get_node_iff [OF ord assms(3)])
  then have "avl_get_node kc key (fst (avl_remove_rec kc key (avl_root t) k')) k =
      (if kc k' k = 0 then None else avl_get_node kc key (avl_root t) k)"
    by (metis not_None_eq)
  then show ?thesis
    by (simp add: avl_remove_def avl_get_def case_prod_beta)
qed

lemma get_modify:
  assumes "avl_wf kc K key t" "k' \<in> K" "k \<in> K" and f: "\<And>x. key (f x) = key x"
  shows "avl_get kc key (avl_modify kc key f t k') k =
    (if kc k' k = 0 then map_option f (avl_get kc key t k) else avl_get kc key t k)"
proof -
  have ord: "avl_ordered kc K key (avl_root t)"
    using assms(1) by (simp add: avl_wf_def)
  note ord' = ordered_modify_node [where f = f, OF ord assms(2) f]
  have cong: "kc k' (key y) = 0 \<longleftrightarrow> kc k' k = 0"
    if "y \<in> set (avl_inorder (avl_root t))" "kc k (key y) = 0" for y
    using that assms(2,3) ordered_inK [OF ord that(1)]
      kc_eq_eq_cong [of k "key y" k'] kc_eq_swap [of k' k] kc_eq_swap [of k' "key y"] by simp
  show ?thesis
  proof (cases "avl_get_node kc key (avl_root t) k")
    case None
    then have "\<forall>x \<in> set (avl_inorder (avl_modify_node kc key f (avl_root t) k')). kc k (key x) \<noteq> 0"
      using get_node_None_iff [OF ord assms(3)]
      by (auto simp: inorder_modify_node [OF ord assms(2)] f)
    with None show ?thesis
      using get_node_None_iff [OF ord' assms(3)] by (simp add: avl_get_def avl_modify_def)
  next
    case (Some x)
    then have x: "x \<in> set (avl_inorder (avl_root t))" "kc k (key x) = 0"
      using get_node_iff [OF ord assms(3)] by auto
    let ?y = "if kc k' k = 0 then f x else x"
    have "?y \<in> set (avl_inorder (avl_modify_node kc key f (avl_root t) k'))"
      using x cong [OF x] by (auto simp: inorder_modify_node [OF ord assms(2)])
    moreover have "kc k (key ?y) = 0"
      using x by (simp add: f)
    ultimately have "avl_get_node kc key (avl_modify_node kc key f (avl_root t) k') k = Some ?y"
      using get_node_iff [OF ord' assms(3)] by blast
    with Some show ?thesis by (simp add: avl_get_def avl_modify_def)
  qed
qed

end

text \<open>Every tree over a proper callback is a keyed store.\<close>

sublocale avl_store \<subseteq> keyed_store kc K "avl_get kc key" "avl_insert kc key cp"
    "avl_remove kc key" "avl_modify kc key" "avl_wf kc K key" key cp
proof
  fix s k x d k' and f :: "'a \<Rightarrow> 'a"
  show "avl_wf kc K key s \<Longrightarrow> k \<in> K \<Longrightarrow> avl_get kc key s k = Some x \<Longrightarrow> key x \<in> K \<and> kc k (key x) = 0"
    using get_node_iff [of "avl_root s" k x] ordered_inK [of "avl_root s" x]
    by (auto simp: avl_wf_def avl_get_def)
  show "avl_get kc key s (key d) \<noteq> None \<Longrightarrow> avl_insert kc key cp s d = (None, s)"
    and "avl_get kc key s (key d) = None \<Longrightarrow> fst (avl_insert kc key cp s d) = Some (cp d)"
    by (simp_all add: avl_insert_def Let_def)
qed (fact get_insert get_remove get_modify wf_insert wf_remove wf_modify)+

section \<open>Height balance\<close>

fun avl_depth :: "'a avl_node \<Rightarrow> nat" where
  "avl_depth NIL = 0"
| "avl_depth (Node l d h r) = 1 + max (avl_depth l) (avl_depth r)"

fun avl_balanced :: "'a avl_node \<Rightarrow> bool" where
  "avl_balanced NIL = True"
| "avl_balanced (Node l d h r) \<longleftrightarrow>
     h = 1 + max (avl_height l) (avl_height r) \<and> \<bar>avl_delta (Node l d h r)\<bar> \<le> 1 \<and>
     avl_balanced l \<and> avl_balanced r"

lemma balanced_depth: "avl_balanced t \<Longrightarrow> avl_depth t = avl_height t"
  by (induction t) auto

text \<open>Balancing repairs one step of imbalance, whichever subtree caused it.\<close>

lemma balance_right_heavy:
  assumes "avl_balanced l" "avl_balanced r" "avl_height r = avl_height l + 2"
  shows "avl_balanced (avl_balance (Node l d h r))"
    and "avl_height (avl_balance (Node l d h r)) \<in> {avl_height r, avl_height r + 1}"
proof -
  obtain rl rd rh rr where r: "r = Node rl rd rh rr"
    using assms(3) by (cases r) auto
  have "avl_balanced (avl_balance (Node l d h r)) \<and>
      avl_height (avl_balance (Node l d h r)) \<in> {avl_height r, avl_height r + 1}"
  proof (cases "avl_height rl > avl_height rr")
    case True
    then obtain a b c e where rl: "rl = Node a b c e" by (cases rl) auto
    show ?thesis
      using assms True by (auto simp: r rl avl_balance.simps max_def split: if_splits)
  next
    case False
    then show ?thesis
      using assms by (auto simp: r avl_balance.simps max_def split: if_splits)
  qed
  then show "avl_balanced (avl_balance (Node l d h r))"
    and "avl_height (avl_balance (Node l d h r)) \<in> {avl_height r, avl_height r + 1}" by auto
qed

lemma balance_left_heavy:
  assumes "avl_balanced l" "avl_balanced r" "avl_height l = avl_height r + 2"
  shows "avl_balanced (avl_balance (Node l d h r))"
    and "avl_height (avl_balance (Node l d h r)) \<in> {avl_height l, avl_height l + 1}"
proof -
  obtain ll ld lh lr where l: "l = Node ll ld lh lr"
    using assms(3) by (cases l) auto
  have "avl_balanced (avl_balance (Node l d h r)) \<and>
      avl_height (avl_balance (Node l d h r)) \<in> {avl_height l, avl_height l + 1}"
  proof (cases "avl_height ll < avl_height lr")
    case True
    then obtain a b c e where lr: "lr = Node a b c e" by (cases lr) auto
    show ?thesis
      using assms True by (auto simp: l lr avl_balance.simps max_def split: if_splits)
  next
    case False
    then show ?thesis
      using assms by (auto simp: l avl_balance.simps max_def split: if_splits)
  qed
  then show "avl_balanced (avl_balance (Node l d h r))"
    and "avl_height (avl_balance (Node l d h r)) \<in> {avl_height l, avl_height l + 1}" by auto
qed

lemma balance_even:
  assumes "avl_balanced l" "avl_balanced r" "\<bar>avl_delta (Node l d h r)\<bar> \<le> 1"
  shows "avl_balance (Node l d h r) = Node l d (1 + max (avl_height l) (avl_height r)) r"
proof -
  have "\<not> avl_delta (Node l d h r) < -1" "\<not> avl_delta (Node l d h r) > 1"
    using assms(3) by linarith+
  then show ?thesis by (simp only: avl_balance.simps Let_def if_False update_height_eq)
qed

lemma insert_rec_balanced:
  "avl_balanced t \<Longrightarrow>
   avl_balanced (fst (avl_insert_rec kc key t e)) \<and>
   avl_height (fst (avl_insert_rec kc key t e)) \<in> {avl_height t, avl_height t + 1}"
proof (induction t)
  case NIL
  then show ?case by simp
next
  case (Node l d h r)
  let ?l = "fst (avl_insert_rec kc key l e)" and ?r = "fst (avl_insert_rec kc key r e)"
  have bal: "avl_balanced l" "avl_balanced r" "h = 1 + max (avl_height l) (avl_height r)"
      "\<bar>int (avl_height l) - int (avl_height r)\<bar> \<le> 1"
    using Node.prems by simp_all
  show ?case
  proof (cases "kc (key e) (key d) < 0")
    case True
    have IH: "avl_balanced ?l" "avl_height ?l = avl_height l \<or> avl_height ?l = avl_height l + 1"
      using Node.IH(1) bal(1) by auto
    show ?thesis
    proof (cases "avl_height ?l = avl_height r + 2")
      case heavy: True
      from balance_left_heavy [OF IH(1) bal(2) this, of d h] True IH bal(3,4) heavy show ?thesis
        by (auto simp: insert_rec_Node simp del: avl_insert_rec.simps)
    next
      case False
      with IH bal have "\<bar>avl_delta (Node ?l d h r)\<bar> \<le> 1" by auto
      with balance_even [OF IH(1) bal(2) this] True IH bal show ?thesis
        by (auto simp: insert_rec_Node simp del: avl_insert_rec.simps)
    qed
  next
    case False
    have IH: "avl_balanced ?r" "avl_height ?r = avl_height r \<or> avl_height ?r = avl_height r + 1"
      using Node.IH(2) bal(2) by auto
    show ?thesis
    proof (cases "avl_height ?r = avl_height l + 2")
      case heavy: True
      from balance_right_heavy [OF bal(1) IH(1) this, of d h] False IH bal(3,4) heavy show ?thesis
        by (auto simp: insert_rec_Node simp del: avl_insert_rec.simps)
    next
      case even: False
      with IH bal have "\<bar>avl_delta (Node l d h ?r)\<bar> \<le> 1" by auto
      with balance_even [OF bal(1) IH(1) this] False IH bal show ?thesis
        by (auto simp: insert_rec_Node simp del: avl_insert_rec.simps)
    qed
  qed
qed

text \<open>The number of nodes a balanced tree of a given height has at least.\<close>

fun avl_min_nodes :: "nat \<Rightarrow> nat" where
  "avl_min_nodes 0 = 0"
| "avl_min_nodes (Suc 0) = 1"
| "avl_min_nodes (Suc (Suc h)) = 1 + avl_min_nodes (Suc h) + avl_min_nodes h"

lemma avl_min_nodes_Suc_le: "avl_min_nodes h \<le> avl_min_nodes (Suc h)"
  by (cases h) auto

lemma avl_min_nodes_mono: "h \<le> h' \<Longrightarrow> avl_min_nodes h \<le> avl_min_nodes h'"
  by (rule lift_Suc_mono_le [of avl_min_nodes]) (simp_all add: avl_min_nodes_Suc_le)

lemma balanced_min_nodes:
  "avl_balanced t \<Longrightarrow> avl_min_nodes (avl_height t) \<le> length (avl_inorder t)"
proof (induction t)
  case NIL
  then show ?case by simp
next
  case (Node l d h r)
  have IH: "avl_min_nodes (avl_height l) \<le> length (avl_inorder l)"
      "avl_min_nodes (avl_height r) \<le> length (avl_inorder r)"
    using Node by simp_all
  have h: "h = 1 + max (avl_height l) (avl_height r)"
      "\<bar>int (avl_height l) - int (avl_height r)\<bar> \<le> 1"
    using Node.prems by simp_all
  show ?case
  proof (cases "max (avl_height l) (avl_height r)")
    case 0
    with h show ?thesis by simp
  next
    case (Suc n)
    then have "n \<le> min (avl_height l) (avl_height r)" using h(2) by linarith
    then have "avl_min_nodes n \<le> avl_min_nodes (min (avl_height l) (avl_height r))"
      by (rule avl_min_nodes_mono)
    then have "avl_min_nodes (Suc n) + avl_min_nodes n
        \<le> avl_min_nodes (avl_height l) + avl_min_nodes (avl_height r)"
      using Suc by (cases "avl_height l \<le> avl_height r") (simp_all add: max_def min_def)
    with IH h(1) Suc show ?thesis by simp
  qed
qed

section \<open>The iterator\<close>

text \<open>The elements an iterator still has to return, read off its stack.\<close>

fun stack_elems :: "'a avl_node list \<Rightarrow> 'a list" where
  "stack_elems [] = []"
| "stack_elems (NIL # s) = stack_elems s"
| "stack_elems (Node l d h r # s) = d # avl_inorder r @ stack_elems s"

lemma stack_elems_push_left [simp]: "stack_elems (push_left t s) = avl_inorder t @ stack_elems s"
  by (induction t s rule: push_left.induct) auto

lemma NIL_push_left [simp]: "NIL \<in> set (push_left t s) \<longleftrightarrow> NIL \<in> set s"
  by (induction t s rule: push_left.induct) auto

text \<open>\<open>while ((p = avl_it_next(&it)) != NULL)\<close>, at most \<open>n\<close> times.\<close>

fun avl_it_run :: "nat \<Rightarrow> 'a avl_it \<Rightarrow> 'a list \<times> 'a avl_it" where
  "avl_it_run 0 it = ([], it)"
| "avl_it_run (Suc n) it = (case avl_it_next it of
      (None, it') \<Rightarrow> ([], it')
    | (Some x, it') \<Rightarrow> let (xs, it'') = avl_it_run n it' in (x # xs, it''))"

lemma it_next_Nil: "it_stack it = [] \<Longrightarrow> avl_it_next it = (None, it)"
  by (simp add: avl_it_next_def)

lemma it_next_Cons:
  assumes "it_stack it = Node l d h r # s"
  shows "avl_it_next it = (Some d, it\<lparr>it_stack := push_left r s, it_rt := it_rt2 it,
    it_rt2 := (if r \<noteq> NIL then Some (Node l d h r) else it_rt2 it), it_c := Some (Node l d h r)\<rparr>)"
  using assms by (cases r) (simp_all add: avl_it_next_def Let_def)

lemma stack_cases:
  assumes "NIL \<notin> set s"
  obtains "s = []" | l d h r s' where "s = Node l d h r # s'"
proof (cases s)
  case (Cons n s')
  with assms show ?thesis by (cases n) (auto intro: that)
qed (use that in simp)

lemma it_run_elems:
  "NIL \<notin> set (it_stack it) \<Longrightarrow>
   fst (avl_it_run n it) = take n (stack_elems (it_stack it)) \<and>
   NIL \<notin> set (it_stack (snd (avl_it_run n it))) \<and>
   stack_elems (it_stack (snd (avl_it_run n it))) = drop n (stack_elems (it_stack it))"
proof (induction n arbitrary: it)
  case 0
  then show ?case by simp
next
  case (Suc n)
  from Suc.prems show ?case
  proof (cases rule: stack_cases)
    case 1
    then show ?thesis by (simp add: it_next_Nil)
  next
    case (2 l d h r s')
    note nxt = it_next_Cons [OF 2]
    have "NIL \<notin> set (it_stack (snd (avl_it_next it)))"
      using Suc.prems 2 by (simp add: nxt)
    note IH = Suc.IH [OF this]
    show ?thesis
      using IH by (simp add: nxt 2 case_prod_beta)
  qed
qed

lemma it_has_next_iff:
  "NIL \<notin> set (it_stack it) \<Longrightarrow> avl_it_has_next it \<longleftrightarrow> stack_elems (it_stack it) \<noteq> []"
  by (erule stack_cases) (auto simp: avl_it_has_next_def)

lemma it_peek_next_eq:
  "NIL \<notin> set (it_stack it) \<Longrightarrow> avl_it_peek_next it = fst (avl_it_next it)"
  by (erule stack_cases) (simp_all add: avl_it_peek_next_def avl_it_has_next_def it_next_Nil it_next_Cons)

lemma it_start_stack [simp]:
  "it_stack (avl_it_start (Some t)) = push_left (avl_root t) []"
  "it_stack (avl_it_start None) = []"
  by (simp_all add: avl_it_start_def avl_it_init_def)

context avl_client
begin

lemma start_at_loop_elems:
  "avl_ordered kc K key t \<Longrightarrow> k \<in> K \<Longrightarrow> NIL \<notin> set (it_stack it) \<Longrightarrow>
   stack_elems (it_stack (avl_it_start_at_loop kc key k t it)) =
     filter (\<lambda>x. kc k (key x) \<le> 0) (avl_inorder t) @ stack_elems (it_stack it) \<and>
   NIL \<notin> set (it_stack (avl_it_start_at_loop kc key k t it))"
proof (induction t arbitrary: it)
  case NIL
  then show ?case by simp
next
  case (Node l d h r)
  note ord = Node.prems(1) [unfolded avl_ordered_Node]
  have above: "kc k (key x) < 0" if "kc k (key d) \<le> 0" "x \<in> set (avl_inorder r)" for x
    using that ord Node.prems(2) ordered_inK [of r x] kc_le_less_trans [of k "key d" "key x"] by auto
  have below: "\<not> kc k (key x) \<le> 0" if "0 \<le> kc k (key d)" "x \<in> set (avl_inorder l)" for x
    using that ord Node.prems(2) ordered_inK [of l x] kc_le_less_trans [of k "key x" "key d"] by auto
  have keep_r: "filter (\<lambda>x. kc k (key x) \<le> 0) (avl_inorder r) = avl_inorder r" if "kc k (key d) \<le> 0"
    using above [OF that] by (force simp: filter_id_conv)
  have drop_l: "filter (\<lambda>x. kc k (key x) \<le> 0) (avl_inorder l) = []" if "0 \<le> kc k (key d)"
    using below [OF that] by (simp add: filter_empty_conv)
  consider "kc k (key d) < 0" | "0 < kc k (key d)" | "kc k (key d) = 0" by linarith
  then show ?case
  proof cases
    case 1
    with Node.IH(1) ord Node.prems(2,3) keep_r show ?thesis by (simp add: Let_def)
  next
    case 2
    with Node.IH(2) ord Node.prems(2,3) drop_l show ?thesis by (simp add: Let_def)
  next
    case 3
    with Node.prems(3) keep_r drop_l show ?thesis by (simp add: Let_def)
  qed
qed

lemma start_at_run:
  assumes "avl_wf kc K key t" "k \<in> K"
  shows "fst (avl_it_run n (avl_it_start_at kc key t k)) =
    take n (filter (\<lambda>x. kc k (key x) \<le> 0) (avl_elems t))"
  using start_at_loop_elems [of "avl_root t" k avl_it_init] assms
  by (simp add: avl_it_start_at_def it_run_elems avl_wf_def avl_elems_def avl_it_init_def)

end

subsection \<open>Room on the stack\<close>

text \<open>Every node on the stack leaves room for the deepest path below it.\<close>

fun stack_fits :: "nat \<Rightarrow> 'a avl_node list \<Rightarrow> bool" where
  "stack_fits m [] = True"
| "stack_fits m (n # s) \<longleftrightarrow> avl_depth n + length s \<le> m \<and> stack_fits m s"

lemma stack_fits_push_left:
  "stack_fits m s \<Longrightarrow> avl_depth t + length s \<le> m \<Longrightarrow> stack_fits m (push_left t s)"
  by (induction t s rule: push_left.induct) auto

lemma stack_fits_length: "stack_fits m s \<Longrightarrow> NIL \<notin> set s \<Longrightarrow> length s \<le> m"
  by (erule stack_cases) auto

lemma it_run_stack_fits:
  "NIL \<notin> set (it_stack it) \<Longrightarrow> stack_fits m (it_stack it) \<Longrightarrow>
   stack_fits m (it_stack (snd (avl_it_run n it)))"
proof (induction n arbitrary: it)
  case 0
  then show ?case by simp
next
  case (Suc n)
  from Suc.prems(1) show ?case
  proof (cases rule: stack_cases)
    case 1
    then show ?thesis by (simp add: it_next_Nil)
  next
    case (2 l d h r s')
    have "stack_fits m (it_stack (snd (avl_it_next it)))"
      using Suc.prems(2) 2 by (auto simp: it_next_Cons [OF 2] intro!: stack_fits_push_left)
    with Suc.IH [of "snd (avl_it_next it)"] Suc.prems(1) 2 show ?thesis
      by (simp add: it_next_Cons [OF 2] case_prod_beta)
  qed
qed

subsection \<open>The previous element\<close>

lemma inorder_eq_Nil [simp]: "avl_inorder t = [] \<longleftrightarrow> t = NIL"
  by (cases t) auto

lemma rightmost_last: "t \<noteq> NIL \<Longrightarrow> rightmost t = Some (last (avl_inorder t))"
  by (induction t) auto

text \<open>
  Below the top of the stack stand ancestors whose left subtree ends with the last
  element that the node above them yields.
\<close>

fun stack_chain :: "'a avl_node list \<Rightarrow> bool" where
  "stack_chain (Node l d h r # Node l2 d2 h2 r2 # s) \<longleftrightarrow>
     rightmost l2 = Some (last (d # avl_inorder r)) \<and> stack_chain (Node l2 d2 h2 r2 # s)"
| "stack_chain s = True"

lemma last_Cons_inorder: "last (d # avl_inorder r) = last (avl_inorder (Node NIL d h r))"
  by simp

lemma last_inorder_Node [simp]: "last (avl_inorder l @ d # avl_inorder r) = last (d # avl_inorder r)"
  by simp

lemma stack_chain_push_left:
  "stack_chain s \<Longrightarrow> NIL \<notin> set s \<Longrightarrow>
   (\<And>l d h r s'. s = Node l d h r # s' \<Longrightarrow> t \<noteq> NIL \<Longrightarrow> rightmost l = Some (last (avl_inorder t))) \<Longrightarrow>
   stack_chain (push_left t s)"
proof (induction t s rule: push_left.induct)
  case (1 s)
  then show ?case by simp
next
  case (2 l d h r s)
  have "stack_chain (Node l d h r # s)"
    using 2(3) 2(2) 2(4) by (rule_tac stack_cases [of s]) auto
  then show ?case
    using 2 by (simp add: rightmost_last)
qed

lemma push_left_top:
  "t \<noteq> NIL \<Longrightarrow> \<exists>d h r s'. push_left t s = Node NIL d h r # s'"
proof (induction t s rule: push_left.induct)
  case (2 l d h r s)
  then show ?case by (cases l) auto
qed simp

text \<open>\<open>prev\<close> is the element returned last, if any.\<close>

definition it_tracks :: "'a option \<Rightarrow> 'a avl_it \<Rightarrow> bool" where
  "it_tracks prev it \<longleftrightarrow> NIL \<notin> set (it_stack it) \<and> stack_chain (it_stack it) \<and>
     (case it_stack it of
        Node l d h r # s \<Rightarrow>
          (if l \<noteq> NIL then rightmost l else Option.bind (it_rt2 it) node_data) = prev
      | _ \<Rightarrow> True)"

lemma it_tracks_start: "it_tracks None (avl_it_start (Some t))"
proof (cases "avl_root t")
  case NIL
  then show ?thesis by (simp add: it_tracks_def)
next
  case (Node l d h r)
  obtain d' h' r' s' where "push_left (avl_root t) [] = Node NIL d' h' r' # s'"
    using push_left_top [of "avl_root t" "[]"] Node by auto
  moreover have "stack_chain (push_left (avl_root t) [])"
    by (rule stack_chain_push_left) auto
  moreover have "NIL \<notin> set (push_left (avl_root t) [])"
    by simp
  ultimately show ?thesis
    unfolding it_tracks_def by (simp add: avl_it_start_def avl_it_init_def)
qed

lemma it_tracks_next:
  assumes "it_tracks prev it" "avl_it_next it = (Some x, it')"
  shows "it_tracks (Some x) it' \<and> avl_it_peek_prev it' = prev"
proof -
  have nil: "NIL \<notin> set (it_stack it)" and chain: "stack_chain (it_stack it)"
    using assms(1) by (simp_all add: it_tracks_def)
  obtain l d h r s where st: "it_stack it = Node l d h r # s"
    using nil assms(2) by (cases rule: stack_cases) (auto simp: it_next_Nil)
  note nxt = it_next_Cons [OF st]
  have peek: "avl_it_peek_prev it' = prev"
    using assms nxt st
    by (auto simp: it_tracks_def avl_it_peek_prev_def split: option.splits if_splits)
  have tail: "stack_chain s" "NIL \<notin> set s"
    using chain nil st by (cases s rule: stack_chain.cases; auto)+
  have below: "rightmost l2 = Some (last (d # avl_inorder r))" if "s = Node l2 d2 h2 r2 # s2" for l2 d2 h2 r2 s2
    using chain st that by simp
  have "it_tracks (Some d) it'"
  proof (cases "r = NIL")
    case True
    then show ?thesis
      using nxt assms(2) tail below tail(2)
      by (rule_tac stack_cases [of s]) (auto simp: it_tracks_def)
  next
    case False
    obtain d' h' r' s' where top: "push_left r s = Node NIL d' h' r' # s'"
      using push_left_top [OF False, of s] by auto
    have "stack_chain (push_left r s)"
      using tail below False by (intro stack_chain_push_left) (cases r; force)+
    then show ?thesis
      using nxt assms(2) False top NIL_push_left [of r s] tail(2)
      by (auto simp: it_tracks_def simp del: NIL_push_left)
  qed
  with peek nxt assms(2) show ?thesis by simp
qed

fun avl_it_nexts :: "nat \<Rightarrow> 'a avl_it \<Rightarrow> 'a avl_it" where
  "avl_it_nexts 0 it = it"
| "avl_it_nexts (Suc n) it = snd (avl_it_next (avl_it_nexts n it))"

lemma it_nexts_tracks:
  "n \<le> length (avl_elems t) \<Longrightarrow>
   it_tracks (if n = 0 then None else Some (avl_elems t ! (n - 1))) (avl_it_nexts n (avl_it_start (Some t))) \<and>
   stack_elems (it_stack (avl_it_nexts n (avl_it_start (Some t)))) = drop n (avl_elems t)"
proof (induction n)
  case 0
  then show ?case by (simp add: it_tracks_start avl_elems_def)
next
  case (Suc n)
  let ?it = "avl_it_nexts n (avl_it_start (Some t))"
  have IH: "it_tracks (if n = 0 then None else Some (avl_elems t ! (n - 1))) ?it"
      "stack_elems (it_stack ?it) = drop n (avl_elems t)"
    using Suc by simp_all
  have "drop n (avl_elems t) = avl_elems t ! n # drop (Suc n) (avl_elems t)"
    using Suc.prems by (simp add: Cons_nth_drop_Suc)
  moreover have nil: "NIL \<notin> set (it_stack ?it)"
    using IH(1) by (simp add: it_tracks_def)
  ultimately obtain l d h r s where st: "it_stack ?it = Node l d h r # s"
    and d: "d = avl_elems t ! n" and rest: "avl_inorder r @ stack_elems s = drop (Suc n) (avl_elems t)"
    using IH(2) by (cases rule: stack_cases [OF nil]) auto
  obtain it' where nxt: "avl_it_next ?it = (Some d, it')" "it_stack it' = push_left r s"
    by (simp add: it_next_Cons [OF st])
  show ?case
    using it_tracks_next [OF IH(1) nxt(1)] nxt rest d by simp
qed

section \<open>Walks\<close>

fun avl_preorder :: "'a avl_node \<Rightarrow> 'a list" where
  "avl_preorder NIL = []"
| "avl_preorder (Node l d h r) = d # avl_preorder l @ avl_preorder r"

fun avl_postorder :: "'a avl_node \<Rightarrow> 'a list" where
  "avl_postorder NIL = []"
| "avl_postorder (Node l d h r) = avl_postorder l @ avl_postorder r @ [d]"

lemma walk_rec_eq:
  "avl_walk_rec ord t w s = fold w (case ord of
      AVL_PREORDER \<Rightarrow> avl_preorder t | AVL_INORDER \<Rightarrow> avl_inorder t | AVL_POSTORDER \<Rightarrow> avl_postorder t) s"
  by (induction t arbitrary: s) (auto split: avl_order.splits)

section \<open>What the tree promises\<close>

lemma avl_store_plain: "key_order kc K \<Longrightarrow> avl_store kc K key (\<lambda>d. d)"
  by (simp add: avl_store_def avl_client_def avl_store_axioms_def)

text \<open>
  Claim C5: on every set \<open>K\<close> of keys on which the comparison callback is a total preorder,
  the tree is a map: after an insertion, which succeeds exactly when no element with an
  equivalent key is stored, a lookup finds the new element at its key and what it found
  before elsewhere; after a removal it finds nothing at the key and the same elsewhere; and
  both operations keep the search order and the element counter.
\<close>

theorem avl_is_map:
  assumes "key_order kc K" "avl_wf kc K key t" "key d \<in> K" "k \<in> K" "k' \<in> K"
  shows "(fst (avl_insert kc key (\<lambda>d. d) t d) = None \<longleftrightarrow> avl_get kc key t (key d) \<noteq> None) \<and>
    avl_get kc key (snd (avl_insert kc key (\<lambda>d. d) t d)) k =
      (if avl_get kc key t (key d) = None \<and> kc k (key d) = 0 then Some d else avl_get kc key t k) \<and>
    avl_get kc key (avl_remove kc key t k') k = (if kc k' k = 0 then None else avl_get kc key t k) \<and>
    avl_wf kc K key (snd (avl_insert kc key (\<lambda>d. d) t d)) \<and>
    avl_wf kc K key (avl_remove kc key t k')"
proof -
  note st = avl_store_plain [OF assms(1), of key]
  have "fst (avl_insert kc key (\<lambda>d. d) t d) = None \<longleftrightarrow> avl_get kc key t (key d) \<noteq> None"
    by (simp add: avl_insert_def Let_def)
  moreover have "avl_get kc key (snd (avl_insert kc key (\<lambda>d. d) t d)) k =
      (if avl_get kc key t (key d) = None \<and> kc k (key d) = 0 then Some d else avl_get kc key t k)"
    using avl_store.get_insert [OF st assms(2-4)]
    by (cases "avl_get kc key t (key d)") (simp_all add: avl_insert_def)
  ultimately show ?thesis
    using avl_store.get_remove [OF st assms(2) assms(5) assms(4)]
      avl_store.wf_insert [OF st assms(2,3)] avl_store.wf_remove [OF st assms(2,5)] by simp
qed

lemma int_key_order: "key_order (\<lambda>a b. a - b) (UNIV :: int set)"
  by unfold_locales auto

theorem avl_is_map_witness:
  "let t = snd (avl_insert (\<lambda>a b. a - b) id (\<lambda>d. d) avl_new (5 :: int))
   in avl_get (\<lambda>a b. a - b) id (avl_remove (\<lambda>a b. a - b) id t 5) 5 = None \<and>
      avl_get (\<lambda>a b. a - b) id (snd (avl_insert (\<lambda>a b. a - b) id (\<lambda>d. d) t 7)) 7 = Some 7"
proof -
  let ?c = "\<lambda>a b :: int. a - b"
  have wf: "avl_wf ?c UNIV id (snd (avl_insert ?c id (\<lambda>d. d) avl_new 5))"
    by (simp add: avl_wf_def avl_insert_def avl_get_def avl_new_def avl_elems_def avl_ordered_def Let_def)
  show ?thesis
    using avl_is_map [OF int_key_order wf, of 7 7 5] avl_is_map [OF int_key_order wf, of 7 5 5]
    by (simp add: avl_insert_def avl_get_def avl_new_def Let_def)
qed

text \<open>
  Claim C12: insertion keeps the tree height-balanced, whatever the comparison callback does,
  and raises the height of the root by at most one.
\<close>

theorem avl_insert_keeps_balance:
  assumes "avl_balanced (avl_root t)"
  shows "avl_balanced (avl_root (snd (avl_insert kc key cp t d))) \<and>
    avl_height (avl_root (snd (avl_insert kc key cp t d))) \<le> avl_height (avl_root t) + 1"
  using insert_rec_balanced [OF assms, of kc key "cp d"] assms
  by (auto simp: avl_insert_def Let_def)

theorem avl_insert_keeps_balance_witness:
  "avl_balanced (avl_root (snd (avl_insert (\<lambda>a b. a - b) id id
     (AVL (Node NIL 1 2 (Node NIL 2 1 NIL)) 2) (3 :: int))))"
  using avl_insert_keeps_balance [of "AVL (Node NIL 1 2 (Node NIL 2 1 NIL)) 2"
      "\<lambda>a b. a - b" id id "3 :: int"] by simp

lemma start_at_stack_fits:
  "stack_fits m (it_stack it) \<Longrightarrow> NIL \<notin> set (it_stack it) \<Longrightarrow> avl_depth t + length (it_stack it) \<le> m \<Longrightarrow>
   stack_fits m (it_stack (avl_it_start_at_loop kc key k t it)) \<and>
   NIL \<notin> set (it_stack (avl_it_start_at_loop kc key k t it))"
  by (induction t arbitrary: it) (auto simp: Let_def)

lemma avl_min_nodes_iter:
  "((\<lambda>(a, b). (b, 1 + b + a)) ^^ n) (0, 1) = (int (avl_min_nodes n), int (avl_min_nodes (Suc n)))"
  by (induction n) auto

lemma avl_min_nodes_33: "avl_min_nodes 33 = 9227464"
proof -
  have "((\<lambda>(a, b). (b, 1 + b + a)) ^^ 33) (0, 1 :: int) = (9227464, 14930351)"
    by code_simp
  then show ?thesis by (simp add: avl_min_nodes_iter del: avl_min_nodes.simps)
qed

lemma balanced_height_le_32:
  assumes "avl_balanced t" "length (avl_inorder t) < 9227464"
  shows "avl_depth t \<le> 32"
proof (rule ccontr)
  assume "\<not> avl_depth t \<le> 32"
  then have "avl_min_nodes 33 \<le> avl_min_nodes (avl_height t)"
    using balanced_depth [OF assms(1)] by (intro avl_min_nodes_mono) simp
  with balanced_min_nodes [OF assms(1)] assms(2) show False
    by (simp add: avl_min_nodes_33)
qed

text \<open>
  Claim C23: iterating over a balanced tree with fewer than 9227464 elements never has more
  than the 32 nodes on the iterator stack that \<^verbatim>\<open>struct avl_it\<close> has room for, whether
  the iteration starts at the first element or at a key.
\<close>

theorem avl_iterator_stack_bound:
  assumes "avl_balanced (avl_root t)" "length (avl_elems t) < 9227464"
  shows "length (it_stack (snd (avl_it_run n (avl_it_start (Some t))))) \<le> 32 \<and>
    length (it_stack (snd (avl_it_run n (avl_it_start_at kc key t k)))) \<le> 32"
proof -
  have depth: "avl_depth (avl_root t) \<le> 32"
    using balanced_height_le_32 assms by (simp add: avl_elems_def)
  have fits: "length (it_stack (snd (avl_it_run n it))) \<le> 32"
    if "stack_fits 32 (it_stack it)" "NIL \<notin> set (it_stack it)" for it :: "'a avl_it"
    using it_run_stack_fits [OF that(2,1), of n] it_run_elems [OF that(2), of n]
    by (auto intro: stack_fits_length)
  have "stack_fits 32 (it_stack (avl_it_start (Some t)))"
    using depth by (simp add: stack_fits_push_left)
  moreover have "stack_fits 32 (it_stack (avl_it_start_at kc key t k)) \<and>
      NIL \<notin> set (it_stack (avl_it_start_at kc key t k))"
    unfolding avl_it_start_at_def
    using depth by (intro start_at_stack_fits) (simp_all add: avl_it_init_def)
  ultimately show ?thesis
    using fits by simp
qed

theorem avl_iterator_stack_bound_witness:
  "length (it_stack (snd (avl_it_run 1 (avl_it_start (Some
     (AVL (Node (Node NIL 1 1 NIL) 2 2 (Node NIL 3 1 NIL)) 3 :: int avl)))))) \<le> 32"
proof -
  let ?t = "AVL (Node (Node NIL 1 1 NIL) 2 2 (Node NIL 3 1 NIL)) 3 :: int avl"
  have "avl_balanced (avl_root ?t)" "length (avl_elems ?t) < 9227464"
    by (simp_all add: avl_elems_def)
  from avl_iterator_stack_bound [OF this, of 1 "\<lambda>a b. a - b" id 0] show ?thesis by blast
qed

text \<open>
  Claim C25: an iteration started at the first element returns the elements in the order of
  the tree, one started at a key returns exactly the elements that are not below the key, in
  order.
\<close>

theorem avl_iterator_enumerates:
  assumes "key_order kc K" "avl_wf kc K key t" "k \<in> K" "length (avl_elems t) \<le> n"
  shows "fst (avl_it_run n (avl_it_start (Some t))) = avl_elems t \<and>
    fst (avl_it_run n (avl_it_start_at kc key t k)) = filter (\<lambda>x. kc k (key x) \<le> 0) (avl_elems t)"
proof -
  have "avl_client kc K" using assms(1) by (simp add: avl_client_def)
  moreover have "length (filter (\<lambda>x. kc k (key x) \<le> 0) (avl_elems t)) \<le> n"
    using assms(4) length_filter_le [of "\<lambda>x. kc k (key x) \<le> 0" "avl_elems t"] by linarith
  ultimately show ?thesis
    using avl_client.start_at_run [of kc K key t k n] assms(2-4)
    by (simp add: it_run_elems avl_elems_def)
qed

theorem avl_iterator_enumerates_witness:
  "fst (avl_it_run 3 (avl_it_start_at (\<lambda>a b. a - b) id
     (AVL (Node (Node NIL 1 1 NIL) 2 2 (Node NIL 3 1 NIL)) 3 :: int avl) 2)) = [2, 3]"
  using avl_iterator_enumerates [OF int_key_order, of id
      "AVL (Node (Node NIL 1 1 NIL) 2 2 (Node NIL 3 1 NIL)) 3" 2 3]
  by (simp add: avl_elems_def avl_wf_def avl_ordered_def)

text \<open>
  After \<open>n\<close> calls of \<^verbatim>\<open>avl_it_next\<close> on an iterator over the whole tree,
  \<^verbatim>\<open>avl_it_peek_prev\<close> returns the element before the current one, and
  \<^verbatim>\<open>NULL\<close> at the first element.
\<close>

lemma avl_it_peek_prev_correct:
  assumes "n < length (avl_elems t)"
  shows "avl_it_peek_prev (avl_it_nexts (Suc n) (avl_it_start (Some t))) =
    (if n = 0 then None else Some (avl_elems t ! (n - 1)))"
proof -
  let ?it = "avl_it_nexts n (avl_it_start (Some t))"
  have tr: "it_tracks (if n = 0 then None else Some (avl_elems t ! (n - 1))) ?it"
      "stack_elems (it_stack ?it) = drop n (avl_elems t)"
    using it_nexts_tracks [of n t] assms by simp_all
  have nil: "NIL \<notin> set (it_stack ?it)" using tr(1) by (simp add: it_tracks_def)
  have "stack_elems (it_stack ?it) \<noteq> []" using tr(2) assms by simp
  then obtain l d h r s where "it_stack ?it = Node l d h r # s"
    by (cases rule: stack_cases [OF nil]) auto
  then obtain x it' where "avl_it_next ?it = (Some x, it')"
    by (simp add: it_next_Cons)
  with it_tracks_next [OF tr(1) this] show ?thesis by simp
qed

theorem avl_it_peek_prev_correct_witness:
  "avl_it_peek_prev (avl_it_nexts 3 (avl_it_start (Some
     (AVL (Node (Node NIL 1 1 NIL) 2 2 (Node NIL 3 1 NIL)) 3 :: int avl)))) = Some 2"
  using avl_it_peek_prev_correct [of 2 "AVL (Node (Node NIL 1 1 NIL) 2 2 (Node NIL 3 1 NIL)) 3 :: int avl"]
  by (simp add: avl_elems_def numeral_eq_Suc)

text \<open>A tree of integers built by successive insertions.\<close>

definition avl_of_list :: "int list \<Rightarrow> int avl" where
  "avl_of_list xs = fold (\<lambda>k t. snd (avl_insert (\<lambda>a b. a - b) id id t k)) xs avl_new"

text \<open>
  Removal does not keep the balance. \<^verbatim>\<open>avl_movr\<close> hangs the whole right subtree under
  the last node of the left one and balances each node of the path only once; a tree of
  sixteen elements loses its balance when the element 7 is removed.
\<close>

lemma avl_remove_breaks_balance:
  "avl_balanced (avl_root (avl_of_list [0..15])) \<and>
   \<not> avl_balanced (avl_root (avl_remove (\<lambda>a b. a - b) id (avl_of_list [0..15]) 7))"
  by code_simp

end
