(* ===== verification/Hash.thy ===== *)
theory Hash
  imports Prelude
begin

text \<open>
  The string hashes of \<^verbatim>\<open>lib/hash.c\<close> on 64-bit words: djb2, Arash Partow's hash and
  the djb2 hash of a textual path, in which runs of slashes count as one.
\<close>

unbundle bit_operations_syntax

type_synonym wc_hash_t = "64 word"

text \<open>\<open>((hash << 5) + hash) + c\<close>\<close>

definition djb2_step :: "wc_hash_t \<Rightarrow> char \<Rightarrow> wc_hash_t" where
  "djb2_step h c = (push_bit 5 h + h) + of_char c"

fun wc_djb2_hash_update :: "string \<Rightarrow> wc_hash_t \<Rightarrow> wc_hash_t" where
  "wc_djb2_hash_update [] h = h"
| "wc_djb2_hash_update (c # s) h = wc_djb2_hash_update s (djb2_step h c)"

definition wc_djb2_hash :: "string \<Rightarrow> wc_hash_t" where
  "wc_djb2_hash s = wc_djb2_hash_update s 5381"

fun wc_ap_hash_update :: "string \<Rightarrow> wc_hash_t \<Rightarrow> wc_hash_t" where
  "wc_ap_hash_update [] h = h"
| "wc_ap_hash_update [c] h = h XOR (push_bit 7 h XOR of_char c * drop_bit 3 h)"
| "wc_ap_hash_update (c # d # s) h =
     (let h = h XOR (push_bit 7 h XOR of_char c * drop_bit 3 h);
          h = h XOR NOT (push_bit 11 h + (of_char d XOR drop_bit 5 h))
      in wc_ap_hash_update s h)"

definition wc_ap_hash :: "string \<Rightarrow> wc_hash_t" where
  "wc_ap_hash s = wc_ap_hash_update s 0xaaaaaaaaaaaaaaaa"

text \<open>The first component is the advanced \<^verbatim>\<open>*str\<close>.\<close>

fun wc_str_path_hash_update :: "string \<Rightarrow> wc_hash_t \<Rightarrow> string \<times> wc_hash_t" where
  "wc_str_path_hash_update [] h = ([], djb2_step h CHR ''/'')"
| "wc_str_path_hash_update (c # s) h =
     (if c \<noteq> CHR ''/'' then wc_str_path_hash_update s (djb2_step h c)
      else (c # s, djb2_step h CHR ''/''))"

lemma path_hash_update_rest:
  "fst (wc_str_path_hash_update s h) = dropWhile (\<lambda>c. c \<noteq> CHR ''/'') s"
  by (induction s h rule: wc_str_path_hash_update.induct) auto

lemma path_hash_update_hash:
  "snd (wc_str_path_hash_update s h) =
     djb2_step (wc_djb2_hash_update (takeWhile (\<lambda>c. c \<noteq> CHR ''/'') s) h) CHR ''/''"
  by (induction s h rule: wc_str_path_hash_update.induct) auto

lemma dropWhile_slash_shorter:
  "dropWhile (\<lambda>c. c = CHR ''/'') s \<noteq> [] \<Longrightarrow>
   length (dropWhile (\<lambda>c. c \<noteq> CHR ''/'') (dropWhile (\<lambda>c. c = CHR ''/'') s)) < length s"
proof -
  assume ne: "dropWhile (\<lambda>c. c = CHR ''/'') s \<noteq> []"
  then have "hd (dropWhile (\<lambda>c. c = CHR ''/'') s) \<noteq> CHR ''/''"
    using hd_dropWhile [of "\<lambda>c. c = CHR ''/''" s] by blast
  then obtain c t where ct: "dropWhile (\<lambda>c. c = CHR ''/'') s = c # t" "c \<noteq> CHR ''/''"
    using ne by (cases "dropWhile (\<lambda>c. c = CHR ''/'') s") auto
  have "length (dropWhile (\<lambda>c. c \<noteq> CHR ''/'') t) \<le> length t"
    by (rule length_dropWhile_le)
  moreover have "length (c # t) \<le> length s"
    using ct(1) length_dropWhile_le [of "\<lambda>c. c = CHR ''/''" s] by simp
  ultimately show ?thesis using ct by simp
qed

function wc_str_path_hash_loop :: "string \<Rightarrow> wc_hash_t \<Rightarrow> wc_hash_t" where
  "wc_str_path_hash_loop path h =
     (if path = [] then h
      else let path' = dropWhile (\<lambda>c. c = CHR ''/'') path
           in if path' = [] then h
              else let (rest, h') = wc_str_path_hash_update path' h
                   in wc_str_path_hash_loop rest h')"
  by pat_completeness auto

termination
proof (relation "measure (\<lambda>(s, h). length s)")
  fix path :: string and h path' x rest h'
  assume "path' = dropWhile (\<lambda>c. c = CHR ''/'') path" "path' \<noteq> []"
    "x = wc_str_path_hash_update path' h" "(rest, h') = x"
  then have "rest = dropWhile (\<lambda>c. c \<noteq> CHR ''/'') (dropWhile (\<lambda>c. c = CHR ''/'') path)"
    and "dropWhile (\<lambda>c. c = CHR ''/'') path \<noteq> []"
    by (metis fst_conv path_hash_update_rest, simp)
  then show "((rest, h'), (path, h)) \<in> measure (\<lambda>(s, h). length s)"
    using dropWhile_slash_shorter [of path] by (simp only: in_measure prod.case) blast
qed simp

declare wc_str_path_hash_loop.simps [simp del]

definition wc_str_path_hash :: "string \<Rightarrow> wc_hash_t" where
  "wc_str_path_hash path = wc_str_path_hash_loop path 177620"

section \<open>Hashes of concatenations\<close>

lemma djb2_update_append:
  "wc_djb2_hash_update (s @ t) h = wc_djb2_hash_update t (wc_djb2_hash_update s h)"
  by (induction s arbitrary: h) auto

text \<open>The initial value is the djb2 hash of \<^verbatim>\<open>"/"\<close>.\<close>

lemma path_hash_init: "wc_djb2_hash ''/'' = 177620"
  by (simp add: wc_djb2_hash_def djb2_step_def push_bit_eq_mult)

lemma path_hash_loop_Nil [simp]: "wc_str_path_hash_loop [] h = h"
  by (subst wc_str_path_hash_loop.simps) simp

lemma path_hash_loop_unfold:
  "wc_str_path_hash_loop s h =
     (case dropWhile (\<lambda>c. c = CHR ''/'') s of
        [] \<Rightarrow> h
      | c # t \<Rightarrow> wc_str_path_hash_loop (dropWhile (\<lambda>c. c \<noteq> CHR ''/'') (c # t))
          (wc_djb2_hash_update (takeWhile (\<lambda>c. c \<noteq> CHR ''/'') (c # t) @ ''/'') h))"
proof (cases "dropWhile (\<lambda>c. c = CHR ''/'') s")
  case Nil
  then show ?thesis by (subst wc_str_path_hash_loop.simps) (simp only: Let_def list.case refl if_True if_cancel)
next
  case (Cons c t)
  moreover from Cons have "s \<noteq> []" by auto
  ultimately show ?thesis
    using path_hash_update_rest [of "c # t" h] path_hash_update_hash [of "c # t" h]
    by (subst wc_str_path_hash_loop.simps) (simp add: Let_def case_prod_beta djb2_update_append)
qed

end
