(* ===== verification/Path.thy ===== *)
theory Path
  imports Hash Avl
begin

text \<open>
  Paths and keys of the data tree (\<^verbatim>\<open>lib/datasync/path.c\<close>): the parser with its
  state machine, its part offsets and its in-place zero terminators, the key comparison with
  the integer scan of \<^verbatim>\<open>sscanf("%i%n")\<close>, and the comparison, hash, prefix test and
  copy of parsed paths.

  The lemmas show what the parser yields, that hash and prefix test agree with the textual
  path, and on which keys the comparison is a total order: there, and only there, keys and
  paths are proper keys of the search trees (the interpretations \<open>dkey\<close> and \<open>dpath\<close>).
\<close>

definition WC_DS_MAX_DEPTH :: nat where "WC_DS_MAX_DEPTH = 32"

section \<open>Parsing\<close>

text \<open>
  \<^verbatim>\<open>struct wc_ds_path\<close>. The buffer holds the zero bytes that the parser writes at
  the end of each part; the offsets are 16 bits wide.
\<close>

record wc_ds_path =
  p_buf :: "string option"
  p_norm :: string
  p_nparts :: nat
  p_offsets :: "16 word list"

definition path_root :: wc_ds_path where
  "path_root = \<lparr>p_buf = None, p_norm = [], p_nparts = 0, p_offsets = []\<rparr>"

datatype parse_state = PS_init | PS_inside_part

text \<open>
  One step per byte of the copied path; \<open>acc\<close> is the part of the buffer that has been
  scanned (and possibly overwritten), \<open>i\<close> its length.
\<close>

fun path_parse_loop ::
    "parse_state \<Rightarrow> nat \<Rightarrow> nat \<Rightarrow> 16 word list \<Rightarrow> string \<Rightarrow> string \<Rightarrow> 16 word list \<times> string" where
  "path_parse_loop st i part_begin offsets acc [] = (offsets, acc)"
| "path_parse_loop st i part_begin offsets acc (c # cs) =
     (if \<not> length offsets < WC_DS_MAX_DEPTH then (offsets, acc @ c # cs)
      else case st of
        PS_init \<Rightarrow>
          if c = CHR ''/'' then path_parse_loop PS_init (i + 1) part_begin offsets (acc @ [c]) cs
          else if c = NUL then (offsets, acc @ c # cs)
          else path_parse_loop PS_inside_part (i + 1) i offsets (acc @ [c]) cs
      | PS_inside_part \<Rightarrow>
          if c = CHR ''/''
          then if i > part_begin
               then path_parse_loop PS_init (i + 1) part_begin (offsets @ [of_nat part_begin])
                      (acc @ [NUL]) cs
               else path_parse_loop PS_init (i + 1) part_begin offsets (acc @ [c]) cs
          else if c = NUL
          then (if i > part_begin then offsets @ [of_nat part_begin] else offsets, acc @ c # cs)
          else path_parse_loop PS_inside_part (i + 1) part_begin offsets (acc @ [c]) cs)"

text \<open>Memory allocation is assumed to succeed.\<close>

definition wc_datasync_path_parse :: "string \<Rightarrow> wc_ds_path" where
  "wc_datasync_path_parse path =
     (let (offsets, buf) = path_parse_loop PS_init 0 0 [] [] (path @ [NUL])
      in if offsets \<noteq> []
         then \<lparr>p_buf = Some buf,
               p_norm = concat (map (\<lambda>off. CHR ''/'' # c_str buf (unat off)) offsets),
               p_nparts = length offsets, p_offsets = offsets\<rparr>
         else \<lparr>p_buf = None, p_norm = ''/'', p_nparts = 0, p_offsets = []\<rparr>)"

definition wc_datasync_path_new :: "string \<Rightarrow> wc_ds_path" where
  "wc_datasync_path_new path = wc_datasync_path_parse path"

definition wc_datasync_path_get_part_count :: "wc_ds_path \<Rightarrow> nat" where
  "wc_datasync_path_get_part_count p = p_nparts p"

definition wc_datasync_path_get_part :: "wc_ds_path \<Rightarrow> nat \<Rightarrow> string" where
  "wc_datasync_path_get_part p i =
     (case p_buf p of None \<Rightarrow> [] | Some buf \<Rightarrow> c_str buf (unat (p_offsets p ! i)))"

definition wc_datasync_path_to_str :: "wc_ds_path \<Rightarrow> string" where
  "wc_datasync_path_to_str p = p_norm p"

section \<open>Comparing keys\<close>

text \<open>
  \<^verbatim>\<open>sscanf(s, "%i%n")\<close>: white space, an optional sign, then a hexadecimal, octal or
  decimal number, with the saturation of \<^verbatim>\<open>strtoll\<close>. The value comes with the unread
  rest of the string.
\<close>

definition c_isspace :: "char \<Rightarrow> bool" where
  "c_isspace c \<longleftrightarrow> c = CHR '' '' \<or> (9 \<le> ord_char c \<and> ord_char c \<le> 13)"

definition digit_value :: "char \<Rightarrow> int" where
  "digit_value c =
     (let n = ord_char c
      in if 48 \<le> n \<and> n \<le> 57 then n - 48
         else if 97 \<le> n \<and> n \<le> 102 then n - 87
         else if 65 \<le> n \<and> n \<le> 70 then n - 55
         else 99)"

fun scan_digits :: "int \<Rightarrow> int \<Rightarrow> string \<Rightarrow> int \<times> string" where
  "scan_digits b acc [] = (acc, [])"
| "scan_digits b acc (c # cs) =
     (if digit_value c < b then scan_digits b (acc * b + digit_value c) cs else (acc, c # cs))"

fun scan_magnitude :: "string \<Rightarrow> (int \<times> string) option" where
  "scan_magnitude [] = None"
| "scan_magnitude (c # cs) =
     (if c = CHR ''0''
      then case cs of
          x # h # _ \<Rightarrow>
            if x = CHR ''x'' \<or> x = CHR ''X''
            then if digit_value h < 16 then Some (scan_digits 16 0 (tl cs)) else None
            else Some (scan_digits 8 0 (c # cs))
        | [x] \<Rightarrow> if x = CHR ''x'' \<or> x = CHR ''X'' then None else Some (scan_digits 8 0 (c # cs))
        | [] \<Rightarrow> Some (scan_digits 8 0 (c # cs))
      else if digit_value c < 10 then Some (scan_digits 10 0 (c # cs))
      else None)"

definition clamp_i64 :: "int \<Rightarrow> int" where
  "clamp_i64 v = max (- (2 ^ 63)) (min (2 ^ 63 - 1) v)"

definition scan_i64 :: "string \<Rightarrow> (int \<times> string) option" where
  "scan_i64 s = (case dropWhile c_isspace s of
      [] \<Rightarrow> None
    | c # cs \<Rightarrow>
        if c = CHR ''-'' then map_option (\<lambda>(v, rest). (clamp_i64 (- v), rest)) (scan_magnitude cs)
        else if c = CHR ''+'' then map_option (\<lambda>(v, rest). (clamp_i64 v, rest)) (scan_magnitude cs)
        else map_option (\<lambda>(v, rest). (clamp_i64 v, rest)) (scan_magnitude (c # cs)))"

text \<open>\<open>sscanf(s, "%i%n", &i, &read) == 1 && read == strlen(s)\<close>\<close>

definition key_number :: "string \<Rightarrow> int option" where
  "key_number s = (case scan_i64 s of
      Some (v, rest) \<Rightarrow> if rest = [] then Some v else None
    | None \<Rightarrow> None)"

definition wc_datasync_key_cmp :: "string \<Rightarrow> string \<Rightarrow> int" where
  "wc_datasync_key_cmp sa sb = (case (key_number sa, key_number sb) of
      (None, None) \<Rightarrow> strcmp sa sb
    | (Some ia, None) \<Rightarrow> -1
    | (None, Some ib) \<Rightarrow> 1
    | (Some ia, Some ib) \<Rightarrow>
        if ia = ib then int (length sa) - int (length sb) else c_int (ia - ib))"

section \<open>Comparing, hashing and copying paths\<close>

function path_cmp_loop :: "wc_ds_path \<Rightarrow> wc_ds_path \<Rightarrow> nat \<Rightarrow> int" where
  "path_cmp_loop a b i =
     (if i < p_nparts a \<and> i < p_nparts b
      then let c = wc_datasync_key_cmp (wc_datasync_path_get_part a i) (wc_datasync_path_get_part b i)
           in if c \<noteq> 0 then c else path_cmp_loop a b (i + 1)
      else int (p_nparts a) - int (p_nparts b))"
  by pat_completeness auto
termination
  by (relation "measure (\<lambda>(a, b, i). p_nparts a - i)") auto

declare path_cmp_loop.simps [simp del]

definition wc_datasync_path_cmp :: "wc_ds_path \<Rightarrow> wc_ds_path \<Rightarrow> int" where
  "wc_datasync_path_cmp a b = path_cmp_loop a b 0"

definition wc_datasync_path_hash :: "wc_ds_path \<Rightarrow> wc_hash_t" where
  "wc_datasync_path_hash p =
     fold (\<lambda>i h. djb2_step (wc_djb2_hash_update (wc_datasync_path_get_part p i) h) CHR ''/'')
       [0..<wc_datasync_path_get_part_count p] (djb2_step 5381 CHR ''/'')"

definition wc_datasync_path_starts_with :: "wc_ds_path \<Rightarrow> wc_ds_path \<Rightarrow> bool" where
  "wc_datasync_path_starts_with path pre \<longleftrightarrow>
     p_nparts path \<ge> p_nparts pre \<and>
     list_all (\<lambda>u. strcmp (wc_datasync_path_get_part path u) (wc_datasync_path_get_part pre u) = 0)
       [0..<wc_datasync_path_get_part_count pre]"

definition wc_datasync_path_copy :: "wc_ds_path \<Rightarrow> wc_ds_path" where
  "wc_datasync_path_copy from =
     (if p_nparts from > 0
      then let buf = (case p_buf from of None \<Rightarrow> [] | Some b \<Rightarrow> b);
               lastoff = unat (p_offsets from ! (p_nparts from - 1));
               path_buf_len = lastoff + length (c_str buf lastoff)
           in \<lparr>p_buf = Some (take (path_buf_len + 1) buf), p_norm = p_norm from,
               p_nparts = p_nparts from, p_offsets = take (p_nparts from) (p_offsets from)\<rparr>
      else \<lparr>p_buf = None, p_norm = ''/'', p_nparts = 0, p_offsets = []\<rparr>)"

section \<open>The parts of a path\<close>

definition path_parts :: "wc_ds_path \<Rightarrow> string list" where
  "path_parts p = map (wc_datasync_path_get_part p) [0..<p_nparts p]"

lemma length_path_parts [simp]: "length (path_parts p) = p_nparts p"
  by (simp add: path_parts_def)

lemma path_parts_nth: "i < p_nparts p \<Longrightarrow> path_parts p ! i = wc_datasync_path_get_part p i"
  by (simp add: path_parts_def)

text \<open>
  Lowering \<^verbatim>\<open>nparts\<close>, which the C code does in place to look at an ancestor, takes a
  prefix of the parts.
\<close>

lemma path_parts_truncate [simp]:
  "n \<le> p_nparts p \<Longrightarrow> path_parts (p\<lparr>p_nparts := n\<rparr>) = take n (path_parts p)"
  by (simp add: path_parts_def take_map wc_datasync_path_get_part_def cong: option.case_cong)

text \<open>The non-empty segments between slashes.\<close>

function segments :: "string \<Rightarrow> string list" where
  "segments s = (case dropWhile (\<lambda>c. c = CHR ''/'') s of
      [] \<Rightarrow> []
    | c # t \<Rightarrow> takeWhile (\<lambda>c. c \<noteq> CHR ''/'') (c # t) #
        segments (dropWhile (\<lambda>c. c \<noteq> CHR ''/'') (c # t)))"
  by pat_completeness auto
termination
proof (relation "measure length")
  fix s :: string and c t
  assume "dropWhile (\<lambda>c. c = CHR ''/'') s = c # t"
  then show "(dropWhile (\<lambda>c. c \<noteq> CHR ''/'') (c # t), s) \<in> measure length"
    using dropWhile_slash_shorter [of s] by simp
qed simp

declare segments.simps [simp del]

lemma segments_Nil [simp]: "segments [] = []"
  by (subst segments.simps) simp

lemma segments_slash [simp]: "segments (CHR ''/'' # s) = segments s"
  by (subst (1 2) segments.simps) simp

lemma segments_Cons:
  "c \<noteq> CHR ''/'' \<Longrightarrow> segments (c # s) =
     (c # takeWhile (\<lambda>c. c \<noteq> CHR ''/'') s) # segments (dropWhile (\<lambda>c. c \<noteq> CHR ''/'') s)"
  by (subst segments.simps) simp

lemma segments_word:
  "w \<noteq> [] \<Longrightarrow> CHR ''/'' \<notin> set w \<Longrightarrow> segments (w @ CHR ''/'' # r) = w # segments r"
  "w \<noteq> [] \<Longrightarrow> CHR ''/'' \<notin> set w \<Longrightarrow> segments w = [w]"
proof -
  assume w: "w \<noteq> []" "CHR ''/'' \<notin> set w"
  then obtain c v where cv: "w = c # v" "c \<noteq> CHR ''/''" "CHR ''/'' \<notin> set v"
    by (cases w) auto
  then have "\<forall>x\<in>set v. x \<noteq> CHR ''/''" by auto
  then have v: "takeWhile (\<lambda>c. c \<noteq> CHR ''/'') v = v" "dropWhile (\<lambda>c. c \<noteq> CHR ''/'') v = []"
    by (simp_all add: takeWhile_eq_all_conv dropWhile_eq_Nil_conv)
  from cv show "segments (w @ CHR ''/'' # r) = w # segments r" "segments w = [w]"
    by (simp_all add: segments_Cons takeWhile_append dropWhile_append v)
qed

lemma segments_parts: "x \<in> set (segments s) \<Longrightarrow> x \<noteq> [] \<and> CHR ''/'' \<notin> set x \<and> set x \<subseteq> set s"
proof (induction s rule: segments.induct)
  case (1 s)
  show ?case
  proof (cases "dropWhile (\<lambda>c. c = CHR ''/'') s")
    case Nil
    with 1 show ?thesis by (subst (asm) (2) segments.simps) simp
  next
    case (Cons c t)
    have sub: "set (c # t) \<subseteq> set s" using set_dropWhileD [of _ "\<lambda>c. c = CHR ''/''" s] Cons by auto
    have c: "c \<noteq> CHR ''/''" using Cons hd_dropWhile [of "\<lambda>c. c = CHR ''/''" s] by auto
    have "x \<in> set (takeWhile (\<lambda>c. c \<noteq> CHR ''/'') (c # t) #
        segments (dropWhile (\<lambda>c. c \<noteq> CHR ''/'') (c # t)))"
      using "1.prems" Cons by (subst (asm) segments.simps) simp
    then consider (here) "x = c # takeWhile (\<lambda>c. c \<noteq> CHR ''/'') t"
      | (later) "x \<in> set (segments (dropWhile (\<lambda>c. c \<noteq> CHR ''/'') (c # t)))"
      using c by auto
    then show ?thesis
    proof cases
      case here
      then show ?thesis using c sub by (auto dest: set_takeWhileD)
    next
      case later
      have "set (dropWhile (\<lambda>c. c \<noteq> CHR ''/'') (c # t)) \<subseteq> set s"
        using sub set_dropWhileD by fastforce
      with "1.IH" [OF Cons later] show ?thesis by blast
    qed
  qed
qed

lemma segments_no_nul: "no_nul s \<Longrightarrow> x \<in> set (segments s) \<Longrightarrow> no_nul x"
  using segments_parts [of x s] by (auto simp: no_nul_def)

section \<open>What the parser yields\<close>

text \<open>
  The state of the parser: \<open>w\<close> is the part that is being read, empty in the initial
  state. The result lists the offsets \<open>ps\<close> of the parts that follow \<open>offs\<close>, in
  order and without overlap.
\<close>

definition parse_yields ::
    "nat \<Rightarrow> 16 word list \<Rightarrow> string \<Rightarrow> string list \<Rightarrow> 16 word list \<times> string \<Rightarrow> bool" where
  "parse_yields lo offs acc segs r \<longleftrightarrow> (\<exists>ps t. r = (offs @ map of_nat ps, acc @ t) \<and>
     map (c_str (acc @ t)) ps = take (WC_DS_MAX_DEPTH - length offs) segs \<and>
     (\<forall>p\<in>set ps. lo \<le> p \<and> p < length (acc @ t)) \<and>
     sorted_wrt (\<lambda>p q. p + length (c_str (acc @ t) p) < q) ps)"

lemma c_str_middle: "no_nul w \<Longrightarrow> c_str (a @ w @ NUL # t) (length a) = w"
  by (induction w) (auto simp: c_str_def no_nul_def)

lemma parse_yields_Cons:
  assumes y: "parse_yields (length a + length w + 1) (offs @ [of_nat (length a)]) (a @ w @ [NUL]) segs r"
    and w: "no_nul w" and n: "length offs < WC_DS_MAX_DEPTH"
  shows "parse_yields (length a) offs (a @ w) (w # segs) r"
proof -
  from y obtain ps t where r: "r = (offs @ map of_nat (length a # ps), (a @ w) @ NUL # t)"
    and ps: "map (c_str (a @ w @ NUL # t)) ps = take (WC_DS_MAX_DEPTH - Suc (length offs)) segs"
    and lo: "\<forall>p\<in>set ps. length a + length w + 1 \<le> p \<and> p < length (a @ w @ NUL # t)"
    and so: "sorted_wrt (\<lambda>p q. p + length (c_str (a @ w @ NUL # t) p) < q) ps"
    unfolding parse_yields_def by auto
  have "map (c_str (a @ w @ NUL # t)) (length a # ps) = take (WC_DS_MAX_DEPTH - length offs) (w # segs)"
    using ps n c_str_middle [OF w] by (simp add: take_Cons' Suc_diff_Suc)
  moreover have "\<forall>p\<in>set (length a # ps). length a \<le> p \<and> p < length (a @ w @ NUL # t)"
    using lo by auto
  moreover have "sorted_wrt (\<lambda>p q. p + length (c_str (a @ w @ NUL # t) p) < q) (length a # ps)"
    using so lo c_str_middle [OF w] by auto
  ultimately show ?thesis
    unfolding parse_yields_def
    by (intro exI [of _ "length a # ps"] exI [of _ "NUL # t"]) (use r in simp)
qed

lemma parse_yields_done: "parse_yields lo offs acc segs (offs, acc @ t)"
  if "take (WC_DS_MAX_DEPTH - length offs) segs = []"
  using that unfolding parse_yields_def by (intro exI [of _ "[]"] exI [of _ t]) simp

lemma parse_yields_mono:
  "parse_yields lo' offs (acc @ u) segs r \<Longrightarrow> lo \<le> lo' \<Longrightarrow> parse_yields lo offs acc segs r"
proof -
  assume "parse_yields lo' offs (acc @ u) segs r" and lo: "lo \<le> lo'"
  then obtain ps t where "r = (offs @ map of_nat ps, acc @ u @ t)"
    "map (c_str (acc @ u @ t)) ps = take (WC_DS_MAX_DEPTH - length offs) segs"
    "\<forall>p\<in>set ps. lo' \<le> p \<and> p < length (acc @ u @ t)"
    "sorted_wrt (\<lambda>p q. p + length (c_str (acc @ u @ t) p) < q) ps"
    unfolding parse_yields_def by auto
  with lo show ?thesis
    unfolding parse_yields_def by (intro exI [of _ ps] exI [of _ "u @ t"]) auto
qed

lemma path_parse_loop_length:
  "length (snd (path_parse_loop st i pb offs acc r)) = length acc + length r"
  by (induction st i pb offs acc r rule: path_parse_loop.induct) (auto split: parse_state.split)

text \<open>The loop invariant, for both states of the parser.\<close>

lemma path_parse_loop_yields:
  assumes "no_nul w" "no_nul r" "CHR ''/'' \<notin> set w"
    and "length offs < WC_DS_MAX_DEPTH \<or> w = []"
    and "if w = [] then st = PS_init else st = PS_inside_part \<and> pb = length a"
  shows "parse_yields (length a) offs (a @ w) (segments (w @ r))
           (path_parse_loop st (length a + length w) pb offs (a @ w) (r @ [NUL]))"
  using assms
proof (induction r arbitrary: st pb offs a w)
  case Nil
  show ?case
  proof (cases "w = []")
    case True
    then show ?thesis using Nil parse_yields_done [of offs "[]" "length a" a "[NUL]"] by simp
  next
    case False
    have "parse_yields (length a) offs (a @ w) [w] (offs @ [of_nat (length a)], (a @ w) @ [NUL])"
      by (rule parse_yields_Cons)
        (use Nil False parse_yields_done [of "offs @ [of_nat (length a)]" "[]" _ "a @ w @ [NUL]" "[]"] in auto)
    with False Nil show ?thesis by (simp add: segments_word)
  qed
next
  case (Cons c r)
  show ?case
  proof (cases "length offs < WC_DS_MAX_DEPTH")
    case False
    with Cons.prems show ?thesis
      using parse_yields_done [of offs "segments (c # r)" "length a" a "c # r @ [NUL]"] by simp
  next
    case depth: True
    show ?thesis
    proof (cases "c = CHR ''/''")
      case False
      have "parse_yields (length a) offs (a @ w @ [c]) (segments ((w @ [c]) @ r))
         (path_parse_loop PS_inside_part (length a + length (w @ [c])) (length a) offs (a @ w @ [c]) (r @ [NUL]))"
        using Cons.prems False depth Cons.IH [of "w @ [c]" offs PS_inside_part "length a" a] by simp
      from parse_yields_mono [OF this [folded append.assoc] order_refl] show ?thesis
        using Cons.prems False depth by (cases "w = []") auto
    next
      case slash: True
      show ?thesis
      proof (cases "w = []")
        case True
        have "parse_yields (length (a @ [c])) offs ((a @ [c]) @ []) (segments ([] @ r))
         (path_parse_loop PS_init (length (a @ [c]) + length ([] :: string)) pb offs ((a @ [c]) @ []) (r @ [NUL]))"
          by (rule Cons.IH) (use Cons.prems in auto)
        then have "parse_yields (length (a @ [c])) offs (a @ [c]) (segments r)
            (path_parse_loop PS_init (length (a @ [c])) pb offs (a @ [c]) (r @ [NUL]))"
          by simp
        then have "parse_yields (length a) offs a (segments r)
            (path_parse_loop PS_init (length (a @ [c])) pb offs (a @ [c]) (r @ [NUL]))"
          by (rule parse_yields_mono) simp
        with True slash depth Cons.prems show ?thesis by simp
      next
        case False
        have "parse_yields (length (a @ w @ [NUL])) (offs @ [of_nat (length a)]) ((a @ w @ [NUL]) @ []) (segments ([] @ r))
         (path_parse_loop PS_init (length (a @ w @ [NUL]) + length ([] :: string)) (length a)
            (offs @ [of_nat (length a)]) ((a @ w @ [NUL]) @ []) (r @ [NUL]))"
          by (rule Cons.IH) (use Cons.prems in auto)
        then have "parse_yields (length a + length w + 1) (offs @ [of_nat (length a)]) (a @ w @ [NUL]) (segments r)
          (path_parse_loop PS_init (length a + length w + 1) (length a) (offs @ [of_nat (length a)]) (a @ w @ [NUL]) (r @ [NUL]))"
          by (simp add: add.assoc)
        then have "parse_yields (length a) offs (a @ w) (w # segments r)
          (path_parse_loop PS_init (length a + length w + 1) (length a) (offs @ [of_nat (length a)]) (a @ w @ [NUL]) (r @ [NUL]))"
          by (rule parse_yields_Cons) (use Cons.prems depth in simp_all)
        with False slash depth Cons.prems show ?thesis by (simp add: segments_word)
      qed
    qed
  qed
qed

text \<open>
  The invariant of a parsed path: the parts lie in the buffer in the order of their offsets,
  each ends before the next begins, and the normal form is the parts with a slash before each.
\<close>

definition norm_of :: "string list \<Rightarrow> string" where
  "norm_of ps = (if ps = [] then ''/'' else concat (map (\<lambda>x. CHR ''/'' # x) ps))"

definition path_wf :: "wc_ds_path \<Rightarrow> bool" where
  "path_wf p \<longleftrightarrow> p_nparts p \<le> WC_DS_MAX_DEPTH \<and> p_nparts p = length (p_offsets p) \<and>
     p_norm p = norm_of (path_parts p) \<and>
     (case p_buf p of
        None \<Rightarrow> p_nparts p = 0
      | Some buf \<Rightarrow> 0 < p_nparts p \<and>
          (\<forall>o1\<in>set (p_offsets p). unat o1 < length buf) \<and>
          sorted_wrt (\<lambda>o1 o2. unat o1 + length (c_str buf (unat o1)) < unat o2) (p_offsets p))"

lemma path_parts_Some:
  "p_buf p = Some buf \<Longrightarrow> p_nparts p = length (p_offsets p) \<Longrightarrow>
   path_parts p = map (\<lambda>o1. c_str buf (unat o1)) (p_offsets p)"
  by (rule nth_equalityI) (simp_all add: path_parts_nth wc_datasync_path_get_part_def)

lemma path_parse_cases:
  assumes "no_nul s" "length s < 2 ^ 16"
  obtains (root) "segments s = []" "wc_datasync_path_parse s =
      \<lparr>p_buf = None, p_norm = ''/'', p_nparts = 0, p_offsets = []\<rparr>"
  | (parts) ps buf where "ps \<noteq> []" "map (c_str buf) ps = take WC_DS_MAX_DEPTH (segments s)"
      "\<forall>p\<in>set ps. p < length buf \<and> unat (of_nat p :: 16 word) = p"
      "sorted_wrt (\<lambda>p q. p + length (c_str buf p) < q) ps"
      "wc_datasync_path_parse s = \<lparr>p_buf = Some buf,
         p_norm = concat (map (\<lambda>x. CHR ''/'' # x) (map (c_str buf) ps)),
         p_nparts = length ps, p_offsets = map of_nat ps\<rparr>"
proof -
  have "parse_yields 0 [] [] (segments s) (path_parse_loop PS_init 0 0 [] [] (s @ [NUL]))"
    using path_parse_loop_yields [of "[]" s "[]" PS_init 0 "[]"] assms by simp
  then obtain ps t where l: "path_parse_loop PS_init 0 0 [] [] (s @ [NUL]) = (map of_nat ps, t)"
    and ps: "map (c_str t) ps = take WC_DS_MAX_DEPTH (segments s)"
    and lt: "\<forall>p\<in>set ps. p < length t"
    and so: "sorted_wrt (\<lambda>p q. p + length (c_str t p) < q) ps"
    unfolding parse_yields_def by auto
  have "length t = length (snd (path_parse_loop PS_init 0 0 [] [] (s @ [NUL])))" by (simp add: l)
  also have "\<dots> = length s + 1"
    using path_parse_loop_length [of PS_init 0 0 "[]" "[]" "s @ [NUL]"] by simp
  finally have "length t \<le> 2 ^ 16" using assms(2) by simp
  with lt have w: "\<forall>p\<in>set ps. unat (of_nat p :: 16 word) = p"
    by (auto simp: unat_of_nat)
  show thesis
  proof (cases "ps = []")
    case True
    with ps have "segments s = []" by (simp add: WC_DS_MAX_DEPTH_def)
    then show ?thesis using True l by (intro root) (simp_all add: wc_datasync_path_parse_def)
  next
    case False
    have "map (\<lambda>off. CHR ''/'' # c_str t (unat off)) (map of_nat ps :: 16 word list) =
        map (\<lambda>x. CHR ''/'' # x) (map (c_str t) ps)"
      using w by simp
    with False ps lt so w l show ?thesis
      by (intro parts [of ps t]) (simp_all add: wc_datasync_path_parse_def)
  qed
qed

text \<open>The parser yields the first 32 non-empty segments.\<close>

lemma path_parts_parse:
  assumes "no_nul s" "length s < 2 ^ 16"
  shows "path_parts (wc_datasync_path_parse s) = take WC_DS_MAX_DEPTH (segments s)"
  using assms
proof (cases rule: path_parse_cases)
  case root
  then show ?thesis by (simp add: path_parts_def)
next
  case (parts ps buf)
  have "path_parts (wc_datasync_path_parse s) = map (\<lambda>o1. c_str buf (unat o1)) (map of_nat ps :: 16 word list)"
    using parts(5) by (subst path_parts_Some [of _ buf]) simp_all
  also have "\<dots> = map (c_str buf) ps" using parts(3) by simp
  finally show ?thesis using parts(2) by simp
qed

lemma path_wf_parse:
  assumes "no_nul s" "length s < 2 ^ 16"
  shows "path_wf (wc_datasync_path_parse s)"
proof -
  note pp = path_parts_parse [OF assms]
  from assms show ?thesis
  proof (cases rule: path_parse_cases)
    case root
    then show ?thesis using pp by (simp add: path_wf_def norm_of_def)
  next
    case (parts ps buf)
    have "length ps \<le> WC_DS_MAX_DEPTH"
      using arg_cong [OF parts(2), of length] by simp
    moreover have "sorted_wrt (\<lambda>o1 o2. unat o1 + length (c_str buf (unat o1)) < unat o2)
        (map of_nat ps :: 16 word list)"
      using parts(3,4) by (auto simp: sorted_wrt_map intro: sorted_wrt_mono_rel [rotated])
    moreover have "take WC_DS_MAX_DEPTH (segments s) \<noteq> []"
      using parts(1,2) by (metis Nil_is_map_conv)
    ultimately show ?thesis
      using parts pp by (simp add: path_wf_def norm_of_def)
  qed
qed

lemma segments_norm_of:
  "(\<And>x. x \<in> set ps \<Longrightarrow> x \<noteq> [] \<and> CHR ''/'' \<notin> set x) \<Longrightarrow> segments (norm_of ps) = ps"
proof (induction ps)
  case Nil
  then show ?case by (simp add: norm_of_def)
next
  case (Cons x ps)
  show ?case
  proof (cases ps)
    case Nil
    with Cons.prems show ?thesis by (simp add: norm_of_def segments_word)
  next
    case c: (Cons y qs)
    with Cons show ?thesis by (simp add: norm_of_def segments_word)
  qed
qed

lemma norm_of_no_nul: "(\<And>x. x \<in> set ps \<Longrightarrow> no_nul x) \<Longrightarrow> no_nul (norm_of ps)"
  by (auto simp: norm_of_def no_nul_def)

section \<open>Copies, prefixes and hashes\<close>

lemma c_str_take: "off + length (c_str buf off) < n \<Longrightarrow> c_str (take n buf) off = c_str buf off"
proof -
  assume a: "off + length (c_str buf off) < n"
  let ?P = "\<lambda>c. c \<noteq> NUL"
  have "takeWhile ?P (take (n - off) xs) = takeWhile ?P xs" if "length (takeWhile ?P xs) < n - off" for xs
    using that
  proof (induction xs arbitrary: n)
    case (Cons x xs)
    then show ?case using Cons.IH [of "n - 1"]
      by (cases "n - off") (auto simp: diff_commute dest: arg_cong [of _ _ "\<lambda>k. k - 1"])
  qed simp
  then show ?thesis using a by (simp add: c_str_def drop_take)
qed

lemma path_parts_copy:
  assumes "path_wf p"
  shows "path_parts (wc_datasync_path_copy p) = path_parts p"
proof (cases "p_nparts p = 0")
  case True
  then show ?thesis by (simp add: wc_datasync_path_copy_def path_parts_def)
next
  case False
  let ?n = "p_nparts p"
  obtain buf where buf: "p_buf p = Some buf" "?n = length (p_offsets p)"
    and so: "sorted_wrt (\<lambda>o1 o2. unat o1 + length (c_str buf (unat o1)) < unat o2) (p_offsets p)"
    using assms False by (auto simp: path_wf_def split: option.splits)
  let ?l = "unat (p_offsets p ! (?n - 1))"
  have "c_str (take (?l + length (c_str buf ?l) + 1) buf) (unat (p_offsets p ! i)) =
      c_str buf (unat (p_offsets p ! i))" if "i < ?n" for i
  proof (rule c_str_take)
    have "i = ?n - 1 \<or> i < ?n - 1" using that by auto
    then show "unat (p_offsets p ! i) + length (c_str buf (unat (p_offsets p ! i))) <
        ?l + length (c_str buf ?l) + 1"
      using so buf(2) that False by (auto dest: sorted_wrt_nth_less [of _ _ i "?n - 1"])
  qed
  then show ?thesis
    using False buf by (intro nth_equalityI)
      (simp_all add: path_parts_nth wc_datasync_path_copy_def wc_datasync_path_get_part_def Let_def)
qed

lemma path_hash_parts:
  "wc_datasync_path_hash p = fold (\<lambda>x h. wc_djb2_hash_update (x @ ''/'') h) (path_parts p) 177620"
proof -
  have "fold (\<lambda>x h. wc_djb2_hash_update (x @ ''/'') h) (map f ks) h0 =
      fold (\<lambda>i h. djb2_step (wc_djb2_hash_update (f i) h) CHR ''/'') ks h0" for f and ks :: "nat list" and h0
    by (induction ks arbitrary: h0) (auto simp: djb2_update_append)
  then show ?thesis
    using path_hash_init by (simp add: wc_datasync_path_hash_def path_parts_def
        wc_datasync_path_get_part_count_def wc_djb2_hash_def)
qed

lemma str_path_hash_segments:
  "wc_str_path_hash_loop s h = fold (\<lambda>x h. wc_djb2_hash_update (x @ ''/'') h) (segments s) h"
proof (induction s arbitrary: h rule: segments.induct)
  case (1 s)
  show ?case
  proof (cases "dropWhile (\<lambda>c. c = CHR ''/'') s")
    case Nil
    show ?thesis by (subst path_hash_loop_unfold, subst segments.simps) (simp only: Nil list.case fold_simps)
  next
    case (Cons c t)
    show ?thesis
      by (subst path_hash_loop_unfold, subst segments.simps)
        (simp only: Cons list.case fold_simps 1 [OF Cons])
  qed
qed

lemma starts_with_iff:
  assumes "\<And>x. x \<in> set (path_parts p) \<union> set (path_parts q) \<Longrightarrow> no_nul x"
  shows "wc_datasync_path_starts_with p q \<longleftrightarrow> prefix (path_parts q) (path_parts p)"
proof -
  have eq: "strcmp (path_parts p ! u) (path_parts q ! u) = 0 \<longleftrightarrow> path_parts p ! u = path_parts q ! u"
    if "u < p_nparts q" "p_nparts q \<le> p_nparts p" for u
    using that assms by (intro strcmp_eq_0) auto
  have "wc_datasync_path_starts_with p q \<longleftrightarrow> p_nparts q \<le> p_nparts p \<and>
      (\<forall>u<p_nparts q. path_parts p ! u = path_parts q ! u)"
    using eq by (auto simp: wc_datasync_path_starts_with_def list_all_iff path_parts_nth
        wc_datasync_path_get_part_count_def)
  also have "\<dots> \<longleftrightarrow> take (p_nparts q) (path_parts p) = path_parts q \<and> p_nparts q \<le> p_nparts p"
    by (auto simp: list_eq_iff_nth_eq)
  also have "\<dots> \<longleftrightarrow> prefix (path_parts q) (path_parts p)"
    by (metis append_eq_conv_conj length_path_parts prefix_def prefix_length_le)
  finally show ?thesis .
qed

section \<open>The order of keys\<close>

text \<open>
  Keys whose integer value, if they have one, fits in 31 bits: for these the difference of
  two values is a C \<^verbatim>\<open>int\<close> and the comparison is a total order. A canonical key is in
  addition the decimal text of its value, so that only equal keys compare equal.
\<close>

definition key_ok :: "string \<Rightarrow> bool" where
  "key_ok s \<longleftrightarrow> no_nul s \<and> (case key_number s of None \<Rightarrow> True | Some v \<Rightarrow> - (2 ^ 30) \<le> v \<and> v < 2 ^ 30)"

definition key_canonical :: "string \<Rightarrow> bool" where
  "key_canonical s \<longleftrightarrow> key_ok s \<and> (case key_number s of None \<Rightarrow> True | Some v \<Rightarrow> s = dec_int v)"

lemma key_cmp_numbers:
  "key_ok a \<Longrightarrow> key_ok b \<Longrightarrow> key_number a = Some i \<Longrightarrow> key_number b = Some j \<Longrightarrow>
   wc_datasync_key_cmp a b = (if i = j then int (length a) - int (length b) else i - j)"
  by (auto simp: wc_datasync_key_cmp_def key_ok_def intro!: c_int_small)

lemma key_cmp_mixed:
  "key_number a = None \<Longrightarrow> key_number b = None \<Longrightarrow> wc_datasync_key_cmp a b = strcmp a b"
  "key_number a = Some i \<Longrightarrow> key_number b = None \<Longrightarrow> wc_datasync_key_cmp a b = -1"
  "key_number a = None \<Longrightarrow> key_number b = Some i \<Longrightarrow> wc_datasync_key_cmp a b = 1"
  by (simp_all add: wc_datasync_key_cmp_def)

lemma key_ok_no_nul: "key_ok s \<Longrightarrow> no_nul s"
  by (simp add: key_ok_def)

lemmas key_cmp_cases = key_cmp_numbers key_cmp_mixed

interpretation dkey: key_order wc_datasync_key_cmp "Collect key_ok"
proof
  fix a b assume ab: "a \<in> Collect key_ok" "b \<in> Collect key_ok"
  then show "wc_datasync_key_cmp a b < 0 \<longleftrightarrow> 0 < wc_datasync_key_cmp b a"
    using strcmp_swap [of b a]
    by (cases "key_number a"; cases "key_number b") (auto simp: key_cmp_cases)
next
  fix a b c assume k: "a \<in> Collect key_ok" "b \<in> Collect key_ok" "c \<in> Collect key_ok"
    and le: "wc_datasync_key_cmp a b \<le> 0" "wc_datasync_key_cmp b c \<le> 0"
  then show "wc_datasync_key_cmp a c \<le> 0"
    using strcmp_trans [of a b c]
    by (cases "key_number a"; cases "key_number b"; cases "key_number c")
      (auto simp: key_cmp_cases key_ok_no_nul split: if_splits)
qed

lemma key_cmp_canonical:
  assumes "key_canonical a" "key_canonical b"
  shows "wc_datasync_key_cmp a b = 0 \<longleftrightarrow> a = b"
proof -
  have ok: "key_ok a" "key_ok b" using assms by (simp_all add: key_canonical_def)
  show ?thesis
  proof (cases "key_number a"; cases "key_number b")
    fix i j assume "key_number a = Some i" "key_number b = Some j"
    with ok assms show ?thesis by (auto simp: key_cmp_cases key_canonical_def)
  qed (use ok strcmp_eq_0 [of a b] in \<open>auto simp: key_cmp_cases key_ok_no_nul\<close>)
qed

text \<open>The decimal text of a number is read back by the integer scan.\<close>

lemma digit_value_char: "48 \<le> ord_char c \<Longrightarrow> ord_char c \<le> 57 \<Longrightarrow> digit_value c = ord_char c - 48"
  by (simp add: digit_value_def)

lemma scan_digits_dec_nat:
  "scan_digits 10 acc (dec_nat n @ r) = scan_digits 10 (acc * 10 ^ length (dec_nat n) + int n) r"
proof (induction n arbitrary: acc r rule: dec_nat.induct)
  case (1 n)
  show ?case
  proof (cases "n < 10")
    case True
    then show ?thesis
      by (subst (1 2) dec_nat.simps) (simp add: digit_value_char ord_digit_char)
  next
    case False
    have dv: "digit_value (digit_char (n mod 10)) = int (n mod 10)"
      by (simp add: digit_value_char ord_digit_char)
    have e: "dec_nat n = dec_nat (n div 10) @ [digit_char (n mod 10)]"
      using False by (subst dec_nat.simps) simp
    have "(acc * 10 ^ length (dec_nat (n div 10)) + int (n div 10)) * 10 + int (n mod 10) =
        acc * 10 ^ length (dec_nat n) + int n"
    proof -
      have "int (n div 10) * 10 + int (n mod 10) = int n" by presburger
      then show ?thesis by (simp add: e algebra_simps)
    qed
    moreover have "scan_digits 10 acc (dec_nat n @ r) =
        scan_digits 10 ((acc * 10 ^ length (dec_nat (n div 10)) + int (n div 10)) * 10 + int (n mod 10)) r"
      by (simp add: e "1.IH" [OF False] dv)
    ultimately show ?thesis by simp
  qed
qed

lemma scan_magnitude_dec_nat: "scan_magnitude (dec_nat n) = Some (int n, [])"
proof (cases "n = 0")
  case True
  have "digit_char 0 = CHR ''0''" by code_simp
  with True show ?thesis by (simp add: dec_nat.simps digit_value_def ord_char_def)
next
  case False
  obtain c cs where c: "dec_nat n = c # cs" by (cases "dec_nat n") auto
  have r: "49 \<le> ord_char c" "ord_char c \<le> 57"
    using hd_dec_nat [of n] set_dec_nat [of c n] False c by auto
  then have "c \<noteq> CHR ''0''" by (auto simp: ord_char_def)
  then show ?thesis
    using r scan_digits_dec_nat [of 0 n "[]"] by (simp add: c digit_value_char)
qed

lemma key_number_dec_int:
  assumes "- (2 ^ 63) \<le> v" "v < 2 ^ 63"
  shows "key_number (dec_int v) = Some v"
proof (cases "v < 0")
  case True
  then show ?thesis
    using assms by (simp add: key_number_def scan_i64_def dec_int_def c_isspace_def ord_char_def
        scan_magnitude_dec_nat clamp_i64_def)
next
  case False
  obtain c cs where c: "dec_nat (nat v) = c # cs" by (cases "dec_nat (nat v)") auto
  have r: "48 \<le> ord_char c" "ord_char c \<le> 57" using set_dec_nat [of c "nat v"] c by auto
  then have "\<not> c_isspace c" "c \<noteq> CHR ''-''" "c \<noteq> CHR ''+''"
    by (auto simp: c_isspace_def ord_char_def)
  then show ?thesis
    using assms False scan_magnitude_dec_nat [of "nat v"]
    by (simp add: key_number_def scan_i64_def dec_int_def c clamp_i64_def)
qed

lemma key_canonical_dec_int: "- (2 ^ 30) \<le> v \<Longrightarrow> v < 2 ^ 30 \<Longrightarrow> key_canonical (dec_int v)"
proof -
  assume v: "- (2 ^ 30) \<le> v" "v < 2 ^ 30"
  have "no_nul (dec_nat n)" for n
    using set_dec_nat [of NUL n] by (auto simp: no_nul_def ord_char_def)
  then have "no_nul (dec_int v)" by (simp add: dec_int_def)
  moreover have "key_number (dec_int v) = Some v" using v by (intro key_number_dec_int) simp_all
  ultimately show ?thesis using v by (simp add: key_canonical_def key_ok_def)
qed

section \<open>The order of paths\<close>

text \<open>The comparison of two lists of keys, part by part, then by length.\<close>

fun lex_cmp :: "('k \<Rightarrow> 'k \<Rightarrow> int) \<Rightarrow> 'k list \<Rightarrow> 'k list \<Rightarrow> int" where
  "lex_cmp kc (x # xs) (y # ys) = (if kc x y \<noteq> 0 then kc x y else lex_cmp kc xs ys)"
| "lex_cmp kc xs ys = int (length xs) - int (length ys)"

lemma lex_cmp_Nil [simp]:
  "lex_cmp kc [] ys = - int (length ys)" "lex_cmp kc xs [] = int (length xs)"
  by (cases ys; simp) (cases xs; simp)

context key_order
begin

lemma lex_cmp_swap:
  "xs \<in> lists K \<Longrightarrow> ys \<in> lists K \<Longrightarrow> lex_cmp kc xs ys < 0 \<longleftrightarrow> 0 < lex_cmp kc ys xs"
proof (induction xs arbitrary: ys)
  case Nil
  then show ?case by (cases ys) auto
next
  case (Cons x xs)
  then show ?case
    using kc_swap [of x] kc_eq_swap [of x] by (cases ys) auto
qed

lemma lex_cmp_trans:
  "xs \<in> lists K \<Longrightarrow> ys \<in> lists K \<Longrightarrow> zs \<in> lists K \<Longrightarrow>
   lex_cmp kc xs ys \<le> 0 \<Longrightarrow> lex_cmp kc ys zs \<le> 0 \<Longrightarrow> lex_cmp kc xs zs \<le> 0"
proof (induction xs arbitrary: ys zs)
  case Nil
  then show ?case by (cases zs) auto
next
  case (Cons x xs)
  then obtain y ys' where y: "ys = y # ys'" by (cases ys) auto
  with Cons.prems obtain z zs' where z: "zs = z # zs'" by (cases zs) auto
  have K: "x \<in> K" "y \<in> K" "z \<in> K" using Cons.prems y z by auto
  show ?case
  proof (cases "kc x y = 0 \<and> kc y z = 0")
    case True
    then have "kc x z = 0" using kc_eq_trans [of x y z] K by blast
    then show ?thesis using True Cons y z by auto
  next
    case False
    have "kc x y \<le> 0" "kc y z \<le> 0" using Cons.prems y z by (auto split: if_splits)
    with False have "kc x z < 0"
      using kc_less_le_trans [of x y z] kc_le_less_trans [of x y z] K by auto
    then show ?thesis using z by simp
  qed
qed

lemma key_order_lex: "key_order (lex_cmp kc) (lists K)"
  by unfold_locales (rule lex_cmp_swap lex_cmp_trans; assumption)+

lemma lex_cmp_eq_0:
  assumes anti: "\<And>a b. a \<in> A \<Longrightarrow> b \<in> A \<Longrightarrow> kc a b = 0 \<longleftrightarrow> a = b"
  shows "xs \<in> lists A \<Longrightarrow> ys \<in> lists A \<Longrightarrow> lex_cmp kc xs ys = 0 \<longleftrightarrow> xs = ys"
proof (induction xs arbitrary: ys)
  case Nil
  then show ?case by (cases ys) auto
next
  case (Cons x xs)
  then show ?case using anti by (cases ys) auto
qed

text \<open>
  The lists that extend \<open>ps\<close> follow it immediately: whatever stands between \<open>ps\<close>
  and one of them extends \<open>ps\<close> too, up to keys that compare equal.
\<close>

lemma lex_cmp_prefix_le: "set ps \<subseteq> K \<Longrightarrow> lex_cmp kc ps (ps @ zs) = - int (length zs)"
  by (induction ps) auto

lemma lex_cmp_between:
  "ps \<in> lists K \<Longrightarrow> ys \<in> lists K \<Longrightarrow> zs \<in> lists K \<Longrightarrow>
   lex_cmp kc ps ys \<le> 0 \<Longrightarrow> lex_cmp kc ys (ps @ zs) \<le> 0 \<Longrightarrow>
   length ps \<le> length ys \<and> (\<forall>i<length ps. kc (ps ! i) (ys ! i) = 0)"
proof (induction ps arbitrary: ys)
  case Nil
  then show ?case by simp
next
  case (Cons p ps)
  then obtain y ys' where y: "ys = y # ys'" by (cases ys) auto
  have K: "p \<in> K" "y \<in> K" using Cons.prems y by auto
  have "kc p y \<le> 0" "kc y p \<le> 0" using Cons.prems y by (auto split: if_splits)
  then have eq: "kc p y = 0" "kc y p = 0" using kc_eq_iff [of p y] kc_eq_swap [of p y] K by auto
  have "length ps \<le> length ys' \<and> (\<forall>i<length ps. kc (ps ! i) (ys' ! i) = 0)"
    using Cons.prems y eq by (intro Cons.IH) auto
  then show ?case using y eq by (auto simp: nth_Cons split: nat.split)
qed

end

lemma path_cmp_loop_drop:
  "i \<le> p_nparts a \<Longrightarrow> i \<le> p_nparts b \<Longrightarrow>
   path_cmp_loop a b i = lex_cmp wc_datasync_key_cmp (drop i (path_parts a)) (drop i (path_parts b))"
proof (induction a b i rule: path_cmp_loop.induct)
  case (1 a b i)
  show ?case
  proof (cases "i < p_nparts a \<and> i < p_nparts b")
    case True
    then have d: "drop i (path_parts a) = wc_datasync_path_get_part a i # drop (i + 1) (path_parts a)"
      "drop i (path_parts b) = wc_datasync_path_get_part b i # drop (i + 1) (path_parts b)"
      by (simp_all add: Cons_nth_drop_Suc [symmetric] path_parts_nth)
    show ?thesis
      using True "1.IH" [OF True refl] by (subst path_cmp_loop.simps) (auto simp: d Let_def)
  next
    case False
    then consider "i = p_nparts a" | "i = p_nparts b" using "1.prems" by linarith
    then show ?thesis
      using "1.prems" by cases (subst path_cmp_loop.simps; simp)+
  qed
qed

lemma path_cmp_parts:
  "wc_datasync_path_cmp a b = lex_cmp wc_datasync_key_cmp (path_parts a) (path_parts b)"
  by (simp add: wc_datasync_path_cmp_def path_cmp_loop_drop)

definition path_ok :: "wc_ds_path \<Rightarrow> bool" where
  "path_ok p \<longleftrightarrow> list_all key_ok (path_parts p)"

lemma path_ok_lists: "path_ok p \<longleftrightarrow> path_parts p \<in> lists (Collect key_ok)"
  by (auto simp: path_ok_def list_all_iff)

interpretation dlex: key_order "lex_cmp wc_datasync_key_cmp" "lists (Collect key_ok)"
  by (rule dkey.key_order_lex)

interpretation dpath: key_order wc_datasync_path_cmp "Collect path_ok"
proof
  fix a b assume "a \<in> Collect path_ok" "b \<in> Collect path_ok"
  then show "wc_datasync_path_cmp a b < 0 \<longleftrightarrow> 0 < wc_datasync_path_cmp b a"
    by (simp add: path_cmp_parts path_ok_lists dlex.kc_swap)
next
  fix a b c assume "a \<in> Collect path_ok" "b \<in> Collect path_ok" "c \<in> Collect path_ok"
    "wc_datasync_path_cmp a b \<le> 0" "wc_datasync_path_cmp b c \<le> 0"
  then show "wc_datasync_path_cmp a c \<le> 0"
    unfolding path_cmp_parts path_ok_lists mem_Collect_eq by (rule dlex.kc_trans)
qed

lemma path_cmp_canonical:
  assumes "list_all key_canonical (path_parts a)" "list_all key_canonical (path_parts b)"
  shows "wc_datasync_path_cmp a b = 0 \<longleftrightarrow> path_parts a = path_parts b"
  unfolding path_cmp_parts
  by (rule dkey.lex_cmp_eq_0 [of "Collect key_canonical"])
    (use assms in \<open>auto simp: key_cmp_canonical list_all_iff\<close>)

section \<open>Properties\<close>

text \<open>
  Claim C11: parsing a path keeps exactly its first 32 non-empty segments, in order, with part
  offsets that lie in the buffer and do not overlap; the textual form is the parts with one
  slash before each (a single slash for the root); and parsing that textual form again gives
  the same parts, so that the normal form is a normal form.
\<close>

theorem path_parse_correct:
  assumes "no_nul s" "length s < 2 ^ 16"
    and "length (wc_datasync_path_to_str (wc_datasync_path_new s)) < 2 ^ 16"
  shows "path_parts (wc_datasync_path_new s) = take WC_DS_MAX_DEPTH (segments s) \<and>
    path_wf (wc_datasync_path_new s) \<and>
    wc_datasync_path_to_str (wc_datasync_path_new s) = norm_of (take WC_DS_MAX_DEPTH (segments s)) \<and>
    path_parts (wc_datasync_path_new (wc_datasync_path_to_str (wc_datasync_path_new s))) =
      path_parts (wc_datasync_path_new s)"
proof -
  let ?ps = "take WC_DS_MAX_DEPTH (segments s)"
  have parts: "path_parts (wc_datasync_path_new s) = ?ps" and wf: "path_wf (wc_datasync_path_new s)"
    using assms(1,2) by (simp_all add: wc_datasync_path_new_def path_parts_parse path_wf_parse)
  then have norm: "wc_datasync_path_to_str (wc_datasync_path_new s) = norm_of ?ps"
    by (simp add: path_wf_def wc_datasync_path_to_str_def)
  have "no_nul (norm_of ?ps)" "segments (norm_of ?ps) = ?ps"
    using segments_no_nul [OF assms(1)] segments_parts [of _ s]
    by (auto intro!: norm_of_no_nul segments_norm_of dest: in_set_takeD)
  then have "path_parts (wc_datasync_path_new (norm_of ?ps)) = ?ps"
    using assms(3) norm by (simp add: wc_datasync_path_new_def path_parts_parse)
  with parts wf norm show ?thesis by simp
qed

theorem path_parse_correct_witness:
  "path_parts (wc_datasync_path_new ''//ab/c//'') = [''ab'', ''c''] \<and>
   wc_datasync_path_to_str (wc_datasync_path_new ''//ab/c//'') = ''/ab/c''"
proof -
  have "wc_datasync_path_to_str (wc_datasync_path_new ''//ab/c//'') = ''/ab/c''" by code_simp
  then have n: "length (wc_datasync_path_to_str (wc_datasync_path_new ''//ab/c//'')) < 2 ^ 16" by simp
  show ?thesis
    using path_parse_correct [OF _ _ n] by (simp add: segments_Cons WC_DS_MAX_DEPTH_def norm_of_def)
qed



text \<open>
  Claim C15: on keys whose integer value fits in 31 bits the key comparison is a total
  preorder (antisymmetric in sign and transitive), every integer key comes before every other
  key, integer keys are ordered by value, and on canonical keys only equal keys compare equal.
\<close>

theorem key_cmp_total_order:
  assumes "key_ok a" "key_ok b" "key_ok c"
  shows "(wc_datasync_key_cmp a b < 0 \<longleftrightarrow> 0 < wc_datasync_key_cmp b a) \<and>
    (wc_datasync_key_cmp a b \<le> 0 \<longrightarrow> wc_datasync_key_cmp b c \<le> 0 \<longrightarrow> wc_datasync_key_cmp a c \<le> 0) \<and>
    (key_number a \<noteq> None \<longrightarrow> key_number b = None \<longrightarrow> wc_datasync_key_cmp a b < 0) \<and>
    (\<forall>i j. key_number a = Some i \<longrightarrow> key_number b = Some j \<longrightarrow> i < j \<longrightarrow> wc_datasync_key_cmp a b < 0) \<and>
    (key_canonical a \<longrightarrow> key_canonical b \<longrightarrow> wc_datasync_key_cmp a b = 0 \<longrightarrow> a = b)"
proof (intro conjI)
  show "wc_datasync_key_cmp a b < 0 \<longleftrightarrow> 0 < wc_datasync_key_cmp b a"
    using assms by (intro dkey.kc_swap) simp_all
  show "wc_datasync_key_cmp a b \<le> 0 \<longrightarrow> wc_datasync_key_cmp b c \<le> 0 \<longrightarrow> wc_datasync_key_cmp a c \<le> 0"
    using assms dkey.kc_trans [of a b c] by simp
qed (use assms in \<open>auto simp: key_cmp_cases key_cmp_canonical\<close>)

theorem key_cmp_total_order_witness:
  "wc_datasync_key_cmp ''9'' ''10'' < 0 \<and> wc_datasync_key_cmp ''10'' ''abc'' < 0"
proof -
  have ok: "key_ok ''9''" "key_ok ''10''" "key_ok ''abc''" by code_simp+
  have "key_number ''9'' = Some 9" "key_number ''10'' = Some 10" "key_number ''abc'' = None"
    by code_simp+
  then have "key_number ''9'' = Some 9 \<and> key_number ''10'' = Some 10 \<and> (9 :: int) < 10"
    "key_number ''10'' \<noteq> None \<and> key_number ''abc'' = None" by simp_all
  then show ?thesis
    using key_cmp_total_order [OF ok] key_cmp_total_order [OF ok(2,3,1)] by blast
qed

text \<open>
  Outside that range the comparison is no order: the 64-bit difference is cut to an
  \<^verbatim>\<open>int\<close>, so that distinct integer keys compare equal and three keys form a cycle.
\<close>

lemma key_cmp_not_an_order:
  "wc_datasync_key_cmp ''0'' ''4294967296'' = 0 \<and>
   wc_datasync_key_cmp ''0'' ''2000000000'' < 0 \<and>
   wc_datasync_key_cmp ''2000000000'' ''4000000000'' < 0 \<and>
   0 < wc_datasync_key_cmp ''0'' ''4000000000''"
  by (intro conjI; code_simp)

text \<open>
  The prefix test holds exactly when the parts of one parsed path begin with the
  parts of the other, and a copy of a path has the same parts and the same textual form.
\<close>

lemma path_prefix_and_copy:
  assumes "no_nul s" "no_nul t" "length s < 2 ^ 16" "length t < 2 ^ 16"
  defines "p \<equiv> wc_datasync_path_new s" and "q \<equiv> wc_datasync_path_new t"
  shows "(wc_datasync_path_starts_with p q \<longleftrightarrow> prefix (path_parts q) (path_parts p)) \<and>
    path_parts (wc_datasync_path_copy p) = path_parts p \<and>
    wc_datasync_path_to_str (wc_datasync_path_copy p) = wc_datasync_path_to_str p"
proof (intro conjI)
  have wf: "path_wf p" using assms by (simp add: wc_datasync_path_new_def path_wf_parse)
  show "wc_datasync_path_starts_with p q \<longleftrightarrow> prefix (path_parts q) (path_parts p)"
    by (rule starts_with_iff) (use assms in
      \<open>auto simp: wc_datasync_path_new_def path_parts_parse dest!: in_set_takeD intro: segments_no_nul\<close>)
  show "path_parts (wc_datasync_path_copy p) = path_parts p" using wf by (rule path_parts_copy)
  show "wc_datasync_path_to_str (wc_datasync_path_copy p) = wc_datasync_path_to_str p"
    using wf by (auto simp: wc_datasync_path_to_str_def wc_datasync_path_copy_def Let_def path_wf_def
        norm_of_def path_parts_def)
qed

lemma path_prefix_and_copy_witness:
  "wc_datasync_path_starts_with (wc_datasync_path_new ''/a/b/c'') (wc_datasync_path_new ''a/b/'') \<and>
   \<not> wc_datasync_path_starts_with (wc_datasync_path_new ''/a/bc'') (wc_datasync_path_new ''/a/b'')"
proof -
  have "path_parts (wc_datasync_path_new ''/a/b/c'') = [''a'', ''b'', ''c'']"
    "path_parts (wc_datasync_path_new ''a/b/'') = [''a'', ''b'']"
    "path_parts (wc_datasync_path_new ''/a/bc'') = [''a'', ''bc'']"
    "path_parts (wc_datasync_path_new ''/a/b'') = [''a'', ''b'']"
    by code_simp+
  then show ?thesis
    using path_prefix_and_copy [of "''/a/b/c''" "''a/b/''"] path_prefix_and_copy [of "''/a/bc''" "''/a/b''"]
    by simp
qed

end
