(* ===== verification/Base64.thy ===== *)
theory Base64
  imports Prelude
begin

text \<open>
  Base64 encoding (\<^verbatim>\<open>lib/base64.c\<close>): the general encoder and the variant for the
  20 bytes of a SHA-1 digest. A reference decoder shows that nothing is lost, and the two
  encoders agree on 20 bytes.
\<close>

unbundle bit_operations_syntax

type_synonym byte = "8 word"

section \<open>The encoders\<close>

definition base :: string where
  "base = ''ABCDEFGHIJKLMNOPQRSTUVWXYZabcdefghijklmnopqrstuvwxyz0123456789+/''"

text \<open>The four sextets of a group; the operands are promoted to \<^verbatim>\<open>int\<close>.\<close>

definition sextet_A :: "byte \<Rightarrow> int" where
  "sextet_A x = drop_bit 2 (uint x)"

definition sextet_B :: "byte \<Rightarrow> byte \<Rightarrow> int" where
  "sextet_B x y = push_bit 4 (uint x AND 0x03) OR drop_bit 4 (uint y AND 0xf0)"

definition sextet_C :: "byte \<Rightarrow> byte \<Rightarrow> int" where
  "sextet_C y z = push_bit 2 (uint y AND 0x0f) OR drop_bit 6 (uint z AND 0xc0)"

definition sextet_D :: "byte \<Rightarrow> int" where
  "sextet_D z = uint z AND 0x3f"

definition base_at :: "int \<Rightarrow> char" where
  "base_at i = base ! nat i"

text \<open>The output buffer is the returned string.\<close>

fun base64_enc :: "byte list \<Rightarrow> string" where
  "base64_enc (x # y # z # r) =
     base_at (sextet_A x) # base_at (sextet_B x y) # base_at (sextet_C y z) # base_at (sextet_D z) #
     base64_enc r"
| "base64_enc [x] =
     [base_at (sextet_A x), base_at (push_bit 4 (uint x AND 0x03)), CHR ''='', CHR ''='']"
| "base64_enc [x, y] =
     [base_at (sextet_A x), base_at (sextet_B x y), base_at (push_bit 2 (uint y AND 0x0f)), CHR ''='']"
| "base64_enc [] = []"

text \<open>
  The loop runs while the input pointer is below \<^verbatim>\<open>in + 18\<close>; \<open>n\<close> counts the bytes
  before that bound.
\<close>

fun base64_enc_20_loop :: "nat \<Rightarrow> byte list \<Rightarrow> string" where
  "base64_enc_20_loop n inp =
     (if n > 0
      then base_at (sextet_A (inp ! 0)) # base_at (sextet_B (inp ! 0) (inp ! 1)) #
           base_at (sextet_C (inp ! 1) (inp ! 2)) # base_at (sextet_D (inp ! 2)) #
           base64_enc_20_loop (n - 3) (drop 3 inp)
      else [base_at (sextet_A (inp ! 0)), base_at (sextet_B (inp ! 0) (inp ! 1)),
            base_at (push_bit 2 (uint (inp ! 1) AND 0x0f)), CHR ''=''])"

declare base64_enc_20_loop.simps [simp del]

definition base64_enc_20 :: "byte list \<Rightarrow> string" where
  "base64_enc_20 inp = base64_enc_20_loop 18 inp"

section \<open>Sextets as numbers\<close>

lemma or_add_low: "0 \<le> b \<Longrightarrow> b < 2 ^ n \<Longrightarrow> push_bit n a OR b = push_bit n a + b" for a b :: int
proof -
  assume "0 \<le> b" "b < 2 ^ n"
  then have "take_bit n b = b" by (simp add: take_bit_int_eq_self)
  then have "\<not> bit b m" if "n \<le> m" for m
    using that by (metis bit_take_bit_iff leD)
  then have "push_bit n a AND b = 0"
    by (intro bit_eqI) (auto simp: bit_simps)
  then show ?thesis by (simp add: disjunctive_add_eq_or)
qed

lemma and_masks:
  "x AND 0x03 = x mod 4" "x AND 0x0f = x mod 16" "x AND 0x3f = x mod 64" for x :: int
  using take_bit_eq_mask [of 2 x] take_bit_eq_mask [of 4 x] take_bit_eq_mask [of 6 x]
  by (simp_all add: mask_eq_exp_minus_1 take_bit_eq_mod)

lemma drop_high_bits:
  "drop_bit 4 (uint y AND 0xf0) = uint y div 16" "drop_bit 6 (uint y AND 0xc0) = uint y div 64" for y :: byte
proof -
  have y: "0 \<le> uint y" "uint y < 256" using uint_lt2p [of y] by simp_all
  have "uint y div 16 < 16" "uint y div 64 < 4" using y by linarith+
  moreover have "0 \<le> uint y div 16" "0 \<le> uint y div 64"
    using y(1) by (simp_all add: pos_imp_zdiv_nonneg_iff)
  ultimately have r: "(uint y div 16) mod 16 = uint y div 16" "(uint y div 64) mod 4 = uint y div 64"
    by (simp_all add: mod_pos_pos_trivial)
  have "drop_bit 4 (uint y AND 0xf0) = drop_bit 4 (uint y) AND 0x0f" by (simp add: drop_bit_and)
  also have "\<dots> = uint y div 16" using r(1) by (simp only: and_masks) (simp add: drop_bit_eq_div)
  finally show "drop_bit 4 (uint y AND 0xf0) = uint y div 16" .
  have "drop_bit 6 (uint y AND 0xc0) = drop_bit 6 (uint y) AND 0x03" by (simp add: drop_bit_and)
  also have "\<dots> = uint y div 64" using r(2) by (simp only: and_masks) (simp add: drop_bit_eq_div)
  finally show "drop_bit 6 (uint y AND 0xc0) = uint y div 64" .
qed

lemma byte_range: "0 \<le> uint x" "uint x < 256" for x :: byte
  using uint_lt2p [of x] by simp_all

lemma sextet_values:
  "sextet_A x = uint x div 4"
  "sextet_B x y = uint x mod 4 * 16 + uint y div 16"
  "sextet_C y z = uint y mod 16 * 4 + uint z div 64"
  "sextet_D z = uint z mod 64"
  "push_bit 4 (uint x AND 0x03) = uint x mod 4 * 16"
  "push_bit 2 (uint y AND 0x0f) = uint y mod 16 * 4"
proof -
  have "uint y div 16 < 2 ^ 4" "uint z div 64 < 2 ^ 2" "0 \<le> uint y div 16" "0 \<le> uint z div 64"
    using byte_range [of y] byte_range [of z] by (simp_all add: pos_imp_zdiv_nonneg_iff)
  then show "sextet_B x y = uint x mod 4 * 16 + uint y div 16"
    "sextet_C y z = uint y mod 16 * 4 + uint z div 64"
    unfolding sextet_B_def sextet_C_def drop_high_bits and_masks
    by (simp_all add: or_add_low) (simp_all add: push_bit_eq_mult)
qed (simp_all add: sextet_A_def sextet_D_def and_masks push_bit_eq_mult drop_bit_eq_div)

text \<open>Splitting and joining the sextets, on integers.\<close>

lemma sextet_split:
  fixes x y :: int
  assumes "0 \<le> y" "y < m * n" "0 < m" "0 < n"
  shows "0 < k \<Longrightarrow> 0 \<le> x mod k * n + y div m" "(x * n + y div m) div n = x" "(x * n + y div m) mod n = y div m"
    "0 < k \<Longrightarrow> x mod k * n + y div m < k * n"
proof -
  have "y div m * m \<le> y" using assms(3) by (simp add: minus_mod_eq_div_mult [symmetric])
  then have "y div m * m < n * m" using assms(2) by (simp add: mult.commute)
  then have y: "0 \<le> y div m" "y div m < n"
    using assms by (simp_all add: pos_imp_zdiv_nonneg_iff)
  show "(x * n + y div m) div n = x" "(x * n + y div m) mod n = y div m"
    using y assms(4) by (simp_all add: div_pos_pos_trivial mod_pos_pos_trivial)
  assume k: "0 < k"
  then show "0 \<le> x mod k * n + y div m" using y(1) assms(4) by simp
  have "x mod k + 1 \<le> k" using k by (simp add: add1_zle_eq)
  then have "(x mod k + 1) * n \<le> k * n" using assms(4) by (intro mult_right_mono) simp_all
  then show "x mod k * n + y div m < k * n" using y by (simp add: algebra_simps)
qed

section \<open>A reference decoder\<close>

definition b64_index :: "char \<Rightarrow> int" where
  "b64_index c = int (length (takeWhile (\<lambda>d. d \<noteq> c) base))"

fun b64_dec :: "string \<Rightarrow> byte list" where
  "b64_dec (a # b # c # d # r) =
     (let i = b64_index a; j = b64_index b; k = b64_index c; l = b64_index d
      in if c = CHR ''='' then [word_of_int (i * 4 + j div 16)]
         else if d = CHR ''='' then [word_of_int (i * 4 + j div 16), word_of_int (j mod 16 * 16 + k div 4)]
         else word_of_int (i * 4 + j div 16) # word_of_int (j mod 16 * 16 + k div 4) #
              word_of_int (k mod 4 * 64 + l) # b64_dec r)"
| "b64_dec _ = []"

lemma base_table: "length base = 64" "distinct base" "CHR ''='' \<notin> set base"
  by code_simp+

lemma takeWhile_nth_distinct:
  "distinct xs \<Longrightarrow> i < length xs \<Longrightarrow> takeWhile (\<lambda>d. d \<noteq> xs ! i) xs = take i xs"
proof (induction xs arbitrary: i)
  case (Cons x xs)
  then show ?case by (cases i) auto
qed simp

lemma b64_index_base [simp]: "0 \<le> i \<and> i < 64 \<Longrightarrow> b64_index (base_at i) = i"
  using takeWhile_nth_distinct [OF base_table(2), of "nat i"] base_table(1)
  by (auto simp: b64_index_def base_at_def)

lemma base_at_not_pad [simp]: "0 \<le> i \<and> i < 64 \<Longrightarrow> base_at i \<noteq> CHR ''=''"
proof -
  assume "0 \<le> i \<and> i < 64"
  then have "base ! nat i \<in> set base" using base_table(1) by (intro nth_mem) auto
  then show ?thesis using base_table(3) by (auto simp: base_at_def)
qed

lemma sextet_range:
  "0 \<le> uint x div 4 \<and> uint x div 4 < 64"
  "0 \<le> uint x mod 4 * 16 + uint y div 16 \<and> uint x mod 4 * 16 + uint y div 16 < 64"
  "0 \<le> uint x mod 16 * 4 + uint y div 64 \<and> uint x mod 16 * 4 + uint y div 64 < 64"
  "0 \<le> uint x mod 64 \<and> uint x mod 64 < 64"
  "0 \<le> uint x mod 4 * 16 \<and> uint x mod 4 * 16 < 64"
  "0 \<le> uint x mod 16 * 4 \<and> uint x mod 16 * 4 < 64" for x y :: byte
proof -
  note y = byte_range [of y]
  show "0 \<le> uint x div 4 \<and> uint x div 4 < 64" "0 \<le> uint x mod 64 \<and> uint x mod 64 < 64"
    using byte_range [of x] by (simp_all add: pos_imp_zdiv_nonneg_iff)
  show "0 \<le> uint x mod 4 * 16 + uint y div 16 \<and> uint x mod 4 * 16 + uint y div 16 < 64"
    using sextet_split(4) [of "uint y" 16 16 4 "uint x"] y
    by (auto intro!: add_nonneg_nonneg simp: pos_imp_zdiv_nonneg_iff)
  show "0 \<le> uint x mod 16 * 4 + uint y div 64 \<and> uint x mod 16 * 4 + uint y div 64 < 64"
    using sextet_split(4) [of "uint y" 64 4 16 "uint x"] y
    by (auto intro!: add_nonneg_nonneg simp: pos_imp_zdiv_nonneg_iff)
  show "0 \<le> uint x mod 4 * 16 \<and> uint x mod 4 * 16 < 64"
    using sextet_split(1,4) [of 0 16 16 4 "uint x"] by simp
  show "0 \<le> uint x mod 16 * 4 \<and> uint x mod 16 * 4 < 64"
    using sextet_split(1,4) [of 0 64 4 16 "uint x"] by simp
qed

lemma sextet_join:
  "(uint x mod 4 * 16 + uint y div 16) div 16 = uint x mod 4"
  "(uint x mod 4 * 16 + uint y div 16) mod 16 = uint y div 16"
  "(uint x mod 16 * 4 + uint y div 64) div 4 = uint x mod 16"
  "(uint x mod 16 * 4 + uint y div 64) mod 4 = uint y div 64" for x y :: byte
  by (rule sextet_split(2,3); use byte_range [of y] in simp)+

lemma high_mod: "uint y div 16 mod 16 = uint y div 16" "uint y div 64 mod 4 = uint y div 64" for y :: byte
  by (rule mod_pos_pos_trivial; use byte_range [of y] in \<open>simp add: pos_imp_zdiv_nonneg_iff\<close>)+

lemmas sextet_facts = sextet_values sextet_range sextet_join high_mod div_mult_mod_eq

lemma length_base64_enc: "length (base64_enc inp) = (length inp + 2) div 3 * 4"
proof (induction inp rule: base64_enc.induct)
  case (1 x y z r)
  have "(length (x # y # z # r) + 2) div 3 = (length r + 2) div 3 + 1"
    using div_add_self2 [of 3 "length r + 2"] by simp
  with 1 show ?case by simp
qed auto

lemma b64_dec_enc: "b64_dec (base64_enc inp) = inp"
proof (induction inp rule: base64_enc.induct)
  case (1 x y z r)
  then show ?case by (simp add: sextet_facts del: of_int_add of_int_mult)
next
  case (2 x)
  have "uint x div 4 * 4 + uint x mod 4 * 16 div 16 = uint x" by simp
  then show ?case unfolding base64_enc.simps sextet_values
    by (simp add: sextet_facts del: of_int_add of_int_mult)
next
  case (3 x y)
  have "uint y div 16 * 16 + uint y mod 16 * 4 div 4 = uint y" by simp
  then show ?case unfolding base64_enc.simps sextet_values
    by (simp add: sextet_facts del: of_int_add of_int_mult)
qed simp

lemma enc_20_loop: "length inp = 3 * k + 2 \<Longrightarrow> base64_enc_20_loop (3 * k) inp = base64_enc inp"
proof (induction k arbitrary: inp)
  case 0
  then obtain x y where "inp = [x, y]"
    by (cases inp; cases "tl inp") auto
  then show ?case by (subst base64_enc_20_loop.simps) simp
next
  case (Suc k)
  then obtain x y z r where r: "inp = x # y # z # r"
    by (cases inp; cases "tl inp"; cases "tl (tl inp)") auto
  with Suc.prems have "length r = 3 * k + 2" by simp
  with Suc.IH [of r] r show ?case by (subst base64_enc_20_loop.simps) simp
qed

section \<open>Properties\<close>

text \<open>
  Claim C29: encoding is injective with a known length: decoding by the reference decoder gives
  the input back, and the output has four characters for every three input bytes begun. On
  20 bytes the unrolled encoder writes the same 28 characters as the general one.
\<close>

theorem base64_correct:
  "b64_dec (base64_enc inp) = inp \<and> length (base64_enc inp) = (length inp + 2) div 3 * 4 \<and>
   (length inp = 20 \<longrightarrow> base64_enc_20 inp = base64_enc inp \<and> length (base64_enc_20 inp) = 28)"
  using enc_20_loop [of inp 6] by (auto simp: b64_dec_enc length_base64_enc base64_enc_20_def)

theorem base64_correct_witness:
  "base64_enc_20 (replicate 20 0) = base64_enc (replicate 20 0) \<and>
   b64_dec (base64_enc [102, 111, 111, 98]) = [102, 111, 111, 98]"
  using base64_correct [of "replicate 20 0"] base64_correct [of "[102, 111, 111, 98]"] by simp

end
