(* ===== verification/Sha1.thy ===== *)
theory Sha1
  imports Base64
begin

text \<open>
  The SHA-1 implementation of \<^verbatim>\<open>lib/sha1.c\<close>, with its 16-word circular message
  schedule, its byte swapping on a little-endian machine, its bit counter in two 32-bit words
  and its partial-block buffer, and the definition of SHA-1 in FIPS 180-4. The lemmas lead to
  the equivalence of the two, for any way of cutting the message into updates.
\<close>

type_synonym u32 = "32 word"
type_synonym sha_regs = "u32 \<times> u32 \<times> u32 \<times> u32 \<times> u32"

section \<open>The transformation of one block\<close>

definition rol :: "u32 \<Rightarrow> nat \<Rightarrow> u32" where
  "rol v n = push_bit n v OR drop_bit (32 - n) v"

text \<open>The 16 words of a block, as a little-endian and as a big-endian machine reads them.\<close>

definition le32 :: "byte \<Rightarrow> byte \<Rightarrow> byte \<Rightarrow> byte \<Rightarrow> u32" where
  "le32 a b c d = ucast a OR push_bit 8 (ucast b) OR push_bit 16 (ucast c) OR push_bit 24 (ucast d)"

definition be32 :: "byte \<Rightarrow> byte \<Rightarrow> byte \<Rightarrow> byte \<Rightarrow> u32" where
  "be32 a b c d = le32 d c b a"

definition block_words :: "(byte \<Rightarrow> byte \<Rightarrow> byte \<Rightarrow> byte \<Rightarrow> u32) \<Rightarrow> byte list \<Rightarrow> u32 list" where
  "block_words rd bs = map (\<lambda>i. rd (bs ! (4 * i)) (bs ! (4 * i + 1)) (bs ! (4 * i + 2)) (bs ! (4 * i + 3))) [0..<16]"

definition blk0 :: "nat \<Rightarrow> u32 list \<Rightarrow> u32 \<times> u32 list" where
  "blk0 i l =
     (let v = (rol (l ! i) 24 AND 0xFF00FF00) OR (rol (l ! i) 8 AND 0x00FF00FF) in (v, l[i := v]))"

definition blk :: "nat \<Rightarrow> u32 list \<Rightarrow> u32 \<times> u32 list" where
  "blk i l =
     (let v = rol (l ! ((i + 13) AND 15) XOR l ! ((i + 8) AND 15) XOR l ! ((i + 2) AND 15) XOR l ! (i AND 15)) 1
      in (v, l[i AND 15 := v]))"

text \<open>
  The macros \<^verbatim>\<open>R0\<close> to \<^verbatim>\<open>R4\<close>. Each writes its fifth and its second argument; the
  next call of the unrolled sequence has the arguments rotated by one place, so the registers
  are kept in the order in which the next call names them.
\<close>

definition sha_mix :: "nat \<Rightarrow> u32 \<Rightarrow> u32 \<Rightarrow> u32 \<Rightarrow> u32" where
  "sha_mix i w x y =
     (if i < 20 then (w AND (x XOR y)) XOR y
      else if i < 40 then w XOR x XOR y
      else if i < 60 then ((w OR x) AND y) OR (w AND x)
      else w XOR x XOR y)"

definition sha_const :: "nat \<Rightarrow> u32" where
  "sha_const i =
     (if i < 20 then 0x5A827999 else if i < 40 then 0x6ED9EBA1
      else if i < 60 then 0x8F1BBCDC else 0xCA62C1D6)"

fun sha_round :: "nat \<Rightarrow> sha_regs \<times> u32 list \<Rightarrow> sha_regs \<times> u32 list" where
  "sha_round i ((v, w, x, y, z), l) =
     (let (b, l') = (if i < 16 then blk0 i l else blk i l)
      in ((z + (sha_mix i w x y + b + sha_const i + rol v 5), v, rol w 30, x, y), l'))"

fun regs_add :: "sha_regs \<Rightarrow> sha_regs \<Rightarrow> sha_regs" where
  "regs_add (a, b, c, d, e) (a', b', c', d', e') = (a + a', b + b', c + c', d + d', e + e')"

definition wc_SHA1Transform :: "sha_regs \<Rightarrow> byte list \<Rightarrow> sha_regs" where
  "wc_SHA1Transform st buffer =
     regs_add st (fst (fold sha_round [0..<80] (st, block_words le32 buffer)))"

section \<open>Contexts\<close>

record wc_SHA1_CTX =
  sha_state :: sha_regs
  sha_count0 :: u32
  sha_count1 :: u32
  sha_buffer :: "byte list"

text \<open>The buffer is not initialised by the C code; any 64 bytes will do.\<close>

definition sha_init_state :: sha_regs where
  "sha_init_state = (0x67452301, 0xEFCDAB89, 0x98BADCFE, 0x10325476, 0xC3D2E1F0)"

definition wc_SHA1Init :: "byte list \<Rightarrow> wc_SHA1_CTX" where
  "wc_SHA1Init garbage =
     \<lparr>sha_state = sha_init_state, sha_count0 = 0, sha_count1 = 0, sha_buffer = garbage\<rparr>"

definition memcpy :: "'a list \<Rightarrow> nat \<Rightarrow> 'a list \<Rightarrow> 'a list" where
  "memcpy dst off src = take off dst @ src @ drop (off + length src) dst"

text \<open>
  The loop over the complete blocks inside the data; the sums do not wrap for data of at most
  \<open>2 ^ 32 - 64\<close> bytes.
\<close>

function sha_blocks_loop :: "sha_regs \<Rightarrow> byte list \<Rightarrow> nat \<Rightarrow> sha_regs \<times> nat" where
  "sha_blocks_loop st data i =
     (if i + 63 < length data
      then sha_blocks_loop (wc_SHA1Transform st (take 64 (drop i data))) data (i + 64)
      else (st, i))"
  by pat_completeness auto
termination
  by (relation "measure (\<lambda>(st, data, i). length data - i)") auto

declare sha_blocks_loop.simps [simp del]

definition wc_SHA1Update :: "byte list \<Rightarrow> wc_SHA1_CTX \<Rightarrow> wc_SHA1_CTX" where
  "wc_SHA1Update data ctx =
     (let len = of_nat (length data) :: u32;
          c0 = sha_count0 ctx + push_bit 3 len;
          c1 = (if c0 < sha_count0 ctx then sha_count1 ctx + 1 else sha_count1 ctx) + drop_bit 29 len;
          j = unat (drop_bit 3 (sha_count0 ctx) AND 63)
      in if j + length data > 63
         then let buf = memcpy (sha_buffer ctx) j (take (64 - j) data);
                  (st, i) = sha_blocks_loop (wc_SHA1Transform (sha_state ctx) buf) data (64 - j)
              in \<lparr>sha_state = st, sha_count0 = c0, sha_count1 = c1, sha_buffer = memcpy buf 0 (drop i data)\<rparr>
         else \<lparr>sha_state = sha_state ctx, sha_count0 = c0, sha_count1 = c1,
               sha_buffer = memcpy (sha_buffer ctx) j data\<rparr>)"

text \<open>One byte of a big-endian word: \<open>(w >> ((3 - (i & 3)) * 8)) & 255\<close>.\<close>

definition word_byte :: "u32 \<Rightarrow> nat \<Rightarrow> byte" where
  "word_byte w i = ucast (drop_bit ((3 - i) * 8) w AND 255)"

definition be_bytes :: "u32 \<Rightarrow> byte list" where
  "be_bytes w = map (word_byte w) [0, 1, 2, 3]"

fun regs_bytes :: "sha_regs \<Rightarrow> byte list" where
  "regs_bytes (a, b, c, d, e) = be_bytes a @ be_bytes b @ be_bytes c @ be_bytes d @ be_bytes e"

lemma count0_update: "sha_count0 (wc_SHA1Update data ctx) = sha_count0 ctx + push_bit 3 (of_nat (length data))"
  by (simp add: wc_SHA1Update_def Let_def case_prod_beta)

lemma count_position:
  "unat (drop_bit 3 c AND 63) = unat c div 8 mod 64"
  "c AND 504 = 448 \<longleftrightarrow> unat c div 8 mod 64 = 56" for c :: u32
proof -
  have m: "x AND 63 = x mod 64" for x :: nat
    using take_bit_eq_mask [of 6 x] by (simp add: mask_eq_exp_minus_1 take_bit_eq_mod)
  show pos: "unat (drop_bit 3 c AND 63) = unat c div 8 mod 64"
    by (simp add: unsigned_and_eq unat_drop_bit_eq m) (simp add: drop_bit_eq_div)
  have low: "3 \<le> n" if "bit (504 :: u32) n" for n
  proof (rule ccontr)
    assume "\<not> 3 \<le> n"
    then have "n = 0 \<or> n = 1 \<or> n = 2" by auto
    with that show False by auto
  qed
  have "c AND 504 = push_bit 3 (drop_bit 3 c AND 63)"
    by (simp add: push_bit_and) (use low in \<open>auto simp: bit_eq_iff bit_simps\<close>)
  then have "unat (c AND 504) = take_bit 32 (push_bit 3 (unat c div 8 mod 64))"
    by (simp only: unsigned_push_bit_eq pos) simp
  moreover have "unat c div 8 mod 64 < 64" by simp
  ultimately have "unat (c AND 504) = 8 * (unat c div 8 mod 64)"
    by (simp add: push_bit_eq_mult take_bit_nat_eq_self)
  then show "c AND 504 = 448 \<longleftrightarrow> unat c div 8 mod 64 = 56"
    by (simp add: word_unat_eq_iff)
qed

lemma count_plus_8: "unat (c + 8) div 8 mod 64 = (unat c div 8 + 1) mod 64" for c :: u32
proof -
  have "unat (c + 8) = (unat c + 8) mod 2 ^ 32" by (simp add: unat_word_ariths)
  also have "\<dots> div 8 = ((unat c + 8) div 8) mod 2 ^ 29"
    using div_exp_mod_exp_eq [of "unat c + 8" 3 29] by simp
  also have "\<dots> mod 64 = ((unat c + 8) div 8) mod 64" by (simp add: mod_mod_cancel)
  also have "(unat c + 8) div 8 = unat c div 8 + 1" using div_add_self2 [of 8 "unat c"] by simp
  finally show ?thesis .
qed

lemma pad_measure: "q mod 64 \<noteq> 56 \<Longrightarrow> (120 - (q + 1) mod 64) mod 64 < (120 - q mod 64) mod (64 :: nat)"
proof -
  assume q: "q mod 64 \<noteq> 56"
  have "list_all (\<lambda>r. r \<noteq> 56 \<longrightarrow> (120 - (r + 1) mod 64) mod 64 < (120 - r) mod 64) [0..<64 :: nat]"
    by code_simp
  moreover have "q mod 64 \<in> set [0..<64]" by simp
  ultimately have "(120 - (q mod 64 + 1) mod 64) mod 64 < (120 - q mod 64) mod 64"
    using q unfolding list_all_iff by blast
  then show ?thesis by (simp add: mod_simps)
qed

text \<open>The padding loop of \<^verbatim>\<open>wc_SHA1Final\<close>: zero bytes until the position is 56 modulo 64.\<close>

function sha_pad_loop :: "wc_SHA1_CTX \<Rightarrow> wc_SHA1_CTX" where
  "sha_pad_loop ctx =
     (if sha_count0 ctx AND 504 \<noteq> 448 then sha_pad_loop (wc_SHA1Update [0] ctx) else ctx)"
  by pat_completeness auto
termination
proof (relation "measure (\<lambda>ctx. (120 - unat (sha_count0 ctx) div 8 mod 64) mod 64)")
  fix ctx :: wc_SHA1_CTX assume "sha_count0 ctx AND 504 \<noteq> 448"
  then have q: "unat (sha_count0 ctx) div 8 mod 64 \<noteq> 56" by (simp add: count_position)
  have "unat (sha_count0 (wc_SHA1Update [0] ctx)) div 8 mod 64 = (unat (sha_count0 ctx) div 8 + 1) mod 64"
    by (simp add: count0_update count_plus_8)
  with q show "(wc_SHA1Update [0] ctx, ctx) \<in> measure (\<lambda>ctx. (120 - unat (sha_count0 ctx) div 8 mod 64) mod 64)"
    using pad_measure [of "unat (sha_count0 ctx) div 8"] by simp
qed simp

declare sha_pad_loop.simps [simp del]

definition wc_SHA1Final :: "wc_SHA1_CTX \<Rightarrow> byte list" where
  "wc_SHA1Final ctx =
     (let finalcount = be_bytes (sha_count1 ctx) @ be_bytes (sha_count0 ctx);
          ctx = wc_SHA1Update [0x80] ctx;
          ctx = sha_pad_loop ctx;
          ctx = wc_SHA1Update finalcount ctx
      in regs_bytes (sha_state ctx))"

text \<open>\<^verbatim>\<open>wc_SHA1\<close> feeds the bytes one at a time; the result omits the terminating zero.\<close>

definition wc_SHA1 :: "byte list \<Rightarrow> byte list \<Rightarrow> byte list" where
  "wc_SHA1 garbage str = wc_SHA1Final (fold (\<lambda>c. wc_SHA1Update [c]) str (wc_SHA1Init garbage))"

section \<open>SHA-1 in FIPS 180-4\<close>

fun fips_W :: "u32 list \<Rightarrow> nat \<Rightarrow> u32" where
  "fips_W M t =
     (if t < 16 then M ! t
      else rol (fips_W M (t - 3) XOR fips_W M (t - 8) XOR fips_W M (t - 14) XOR fips_W M (t - 16)) 1)"

declare fips_W.simps [simp del]

definition fips_f :: "nat \<Rightarrow> u32 \<Rightarrow> u32 \<Rightarrow> u32 \<Rightarrow> u32" where
  "fips_f t x y z =
     (if t < 20 then (x AND y) XOR (NOT x AND z)
      else if t < 40 then x XOR y XOR z
      else if t < 60 then (x AND y) XOR (x AND z) XOR (y AND z)
      else x XOR y XOR z)"

fun fips_round :: "(nat \<Rightarrow> u32) \<Rightarrow> nat \<Rightarrow> sha_regs \<Rightarrow> sha_regs" where
  "fips_round W t (a, b, c, d, e) =
     (rol a 5 + fips_f t b c d + e + sha_const t + W t, a, rol b 30, c, d)"

definition fips_compress :: "sha_regs \<Rightarrow> byte list \<Rightarrow> sha_regs" where
  "fips_compress H bs = regs_add H (fold (fips_round (fips_W (block_words be32 bs))) [0..<80] H)"

fun fips_blocks :: "sha_regs \<Rightarrow> byte list \<Rightarrow> sha_regs" where
  "fips_blocks H m =
     (if length m < 64 then H else fips_blocks (fips_compress H (take 64 m)) (drop 64 m))"

declare fips_blocks.simps [simp del]

definition fips_pad :: "byte list \<Rightarrow> byte list" where
  "fips_pad m = m @ [0x80] @ replicate ((119 - length m mod 64) mod 64) 0 @
     be_bytes (of_nat (8 * length m div 2 ^ 32)) @ be_bytes (of_nat (8 * length m))"

definition fips_sha1 :: "byte list \<Rightarrow> byte list" where
  "fips_sha1 m = regs_bytes (fips_blocks sha_init_state (fips_pad m))"

section \<open>The transformation computes the FIPS compression\<close>

lemma word32_eqI: "list_all (\<lambda>n. bit v n = bit w n) [0..<32] \<Longrightarrow> v = w" for v w :: u32
  by (rule bit_word_eqI) (auto simp: list_all_iff)

lemma bit_byte_high: "8 \<le> n \<Longrightarrow> \<not> bit b n" for b :: byte
  using bit_imp_le_length [of b n] by auto

lemma byte_swap:
  "(rol (le32 a b c d) 24 AND 0xFF00FF00) OR (rol (le32 a b c d) 8 AND 0x00FF00FF) = be32 a b c d"
  unfolding be32_def le32_def rol_def
  by (rule word32_eqI) (simp add: upt_rec bit_simps bit_byte_high)

lemma sha_mix_fips: "sha_mix t x y z = fips_f t x y z"
proof -
  have "(x AND (y XOR z)) XOR z = (x AND y) XOR (NOT x AND z)"
    "((x OR y) AND z) OR (x AND y) = (x AND y) XOR (x AND z) XOR (y AND z)"
    by (rule bit_word_eqI; auto simp: bit_simps)+
  then show ?thesis by (simp add: sha_mix_def fips_f_def)
qed

lemma and_15: "n AND 15 = n mod 16" for n :: nat
  using take_bit_eq_mask [of 4 n] by (simp add: mask_eq_exp_minus_1 take_bit_eq_mod)

text \<open>
  After \<open>n\<close> rounds the circular buffer holds the last 16 words of the message schedule;
  words that have not been reached yet are still in the byte order of the machine.
\<close>

definition schedule_inv :: "byte list \<Rightarrow> nat \<Rightarrow> u32 list \<Rightarrow> bool" where
  "schedule_inv bs n l \<longleftrightarrow> length l = 16 \<and>
     (\<forall>t<n. n \<le> t + 16 \<longrightarrow> l ! (t mod 16) = fips_W (block_words be32 bs) t) \<and>
     (\<forall>t. n \<le> t \<longrightarrow> t < 16 \<longrightarrow> l ! t = block_words le32 bs ! t)"

lemma schedule_inv_update:
  assumes "schedule_inv bs n l" "v = fips_W (block_words be32 bs) n"
  shows "schedule_inv bs (Suc n) (l[n mod 16 := v])"
  unfolding schedule_inv_def
proof (intro conjI allI impI)
  show "length (l[n mod 16 := v]) = 16" using assms by (simp add: schedule_inv_def)
next
  fix t assume t: "t < Suc n" "Suc n \<le> t + 16"
  show "l[n mod 16 := v] ! (t mod 16) = fips_W (block_words be32 bs) t"
  proof (cases "t = n")
    case False
    then have "t mod 16 \<noteq> n mod 16"
      using t mod_eq_dvd_iff_nat [of t n 16] by (auto dest: dvd_imp_le)
    then show ?thesis using False t assms by (auto simp: schedule_inv_def)
  qed (use assms in \<open>simp add: schedule_inv_def\<close>)
next
  fix t assume "Suc n \<le> t" "t < 16"
  then show "l[n mod 16 := v] ! t = block_words le32 bs ! t"
    using assms by (auto simp: schedule_inv_def)
qed

lemma blk_schedule:
  assumes "schedule_inv bs n l"
  shows "(if n < 16 then blk0 n l else blk n l) =
    (fips_W (block_words be32 bs) n, l[n mod 16 := fips_W (block_words be32 bs) n])"
proof (cases "n < 16")
  case True
  then have "l ! n = block_words le32 bs ! n" using assms by (simp add: schedule_inv_def)
  then have "(rol (l ! n) 24 AND 0xFF00FF00) OR (rol (l ! n) 8 AND 0x00FF00FF) = block_words be32 bs ! n"
    using True by (simp add: block_words_def byte_swap)
  then show ?thesis using True by (simp add: blk0_def fips_W.simps [of _ n] Let_def)
next
  case False
  have at: "l ! ((n + k) mod 16) = fips_W (block_words be32 bs) (n - (16 - k))" if "k < 16" for k
  proof -
    have "n + k = n - (16 - k) + 16" using that False by simp
    then have "(n + k) mod 16 = (n - (16 - k)) mod 16" by (simp only: mod_add_self2)
    then show ?thesis using that False assms by (simp add: schedule_inv_def)
  qed
  show ?thesis
    using False at [of 13] at [of 8] at [of 2] at [of 0]
    by (simp add: blk_def and_15 Let_def fips_W.simps [of _ n])
qed

lemma rounds_fips:
  "\<exists>l. fold sha_round [0..<n] (st, block_words le32 bs) =
     (fold (fips_round (fips_W (block_words be32 bs))) [0..<n] st, l) \<and> schedule_inv bs n l"
proof (induction n)
  case 0
  then show ?case by (simp add: schedule_inv_def block_words_def)
next
  case (Suc n)
  then obtain l where l: "fold sha_round [0..<n] (st, block_words le32 bs) =
     (fold (fips_round (fips_W (block_words be32 bs))) [0..<n] st, l)" "schedule_inv bs n l"
    by blast
  obtain v w x y z where r: "fold (fips_round (fips_W (block_words be32 bs))) [0..<n] st = (v, w, x, y, z)"
    by (cases "fold (fips_round (fips_W (block_words be32 bs))) [0..<n] st")
  show ?case
    using schedule_inv_update [OF l(2) refl] l(1) r
    by (simp add: blk_schedule [OF l(2)] sha_mix_fips algebra_simps)
qed

lemma transform_fips: "wc_SHA1Transform = fips_compress"
proof (intro ext)
  fix st bs
  show "wc_SHA1Transform st bs = fips_compress st bs"
    using rounds_fips [of 80 st bs] unfolding wc_SHA1Transform_def fips_compress_def
    by (metis fst_conv)
qed

section \<open>Updates\<close>

definition sha_tail :: "byte list \<Rightarrow> byte list" where
  "sha_tail m = drop (length m div 64 * 64) m"

lemma length_sha_tail [simp]: "length (sha_tail m) = length m mod 64"
  by (simp add: sha_tail_def minus_div_mult_eq_mod)

lemma sha_tail_short [simp]: "length m < 64 \<Longrightarrow> sha_tail m = m"
  by (simp add: sha_tail_def)

lemma sha_tail_drop: "64 \<le> length m \<Longrightarrow> sha_tail m = sha_tail (drop 64 m)"
proof -
  assume "64 \<le> length m"
  then have "length m div 64 = Suc ((length m - 64) div 64)"
    by (simp add: le_div_geq)
  then show ?thesis by (simp add: sha_tail_def add.commute)
qed

lemma fips_blocks_short [simp]: "length m < 64 \<Longrightarrow> fips_blocks H m = H"
  by (subst fips_blocks.simps) simp

lemma fips_blocks_long:
  "64 \<le> length m \<Longrightarrow> fips_blocks H m = fips_blocks (fips_compress H (take 64 m)) (drop 64 m)"
  by (subst fips_blocks.simps) simp

lemma blocks_append:
  "fips_blocks H (m @ d) = fips_blocks (fips_blocks H m) (sha_tail m @ d)"
  "sha_tail (m @ d) = sha_tail (sha_tail m @ d)"
proof (induction H m rule: fips_blocks.induct)
  case (1 H m)
  show "fips_blocks H (m @ d) = fips_blocks (fips_blocks H m) (sha_tail m @ d)"
    using 1(1) by (cases "length m < 64") (simp_all add: fips_blocks_long sha_tail_drop)
  show "sha_tail (m @ d) = sha_tail (sha_tail m @ d)"
    using 1(2) by (cases "length m < 64") (simp_all add: sha_tail_drop)
qed

lemma blocks_loop:
  "i \<le> length data \<Longrightarrow> \<exists>k. sha_blocks_loop st data i = (fips_blocks st (drop i data), k) \<and>
     drop k data = sha_tail (drop i data)"
proof (induction st data i rule: sha_blocks_loop.induct)
  case (1 st data i)
  show ?case
  proof (cases "i + 63 < length data")
    case True
    then obtain k where "sha_blocks_loop (wc_SHA1Transform st (take 64 (drop i data))) data (i + 64) =
        (fips_blocks (fips_compress st (take 64 (drop i data))) (drop (i + 64) data), k)"
      "drop k data = sha_tail (drop (i + 64) data)"
      using "1.IH" by (auto simp: transform_fips)
    then show ?thesis
      using True by (subst sha_blocks_loop.simps) (simp add: fips_blocks_long sha_tail_drop add.commute)
  next
    case False
    then show ?thesis using "1.prems" by (subst sha_blocks_loop.simps) auto
  qed
qed

definition sha_inv :: "wc_SHA1_CTX \<Rightarrow> byte list \<Rightarrow> bool" where
  "sha_inv ctx m \<longleftrightarrow> sha_state ctx = fips_blocks sha_init_state m \<and>
     length (sha_buffer ctx) = 64 \<and> take (length m mod 64) (sha_buffer ctx) = sha_tail m \<and>
     unat (sha_count0 ctx) + 2 ^ 32 * unat (sha_count1 ctx) = 8 * length m"

lemma sha_inv_position: "sha_inv ctx m \<Longrightarrow> unat (drop_bit 3 (sha_count0 ctx) AND 63) = length m mod 64"
proof -
  assume "sha_inv ctx m"
  then have "length m = (unat (sha_count0 ctx) + 2 ^ 32 * unat (sha_count1 ctx)) div 8"
    by (simp add: sha_inv_def)
  also have "\<dots> = unat (sha_count0 ctx) div 8 + 64 * (2 ^ 23 * unat (sha_count1 ctx))"
    using div_mult_self2 [of 8 "unat (sha_count0 ctx)" "2 ^ 29 * unat (sha_count1 ctx)"] by simp
  finally have "length m mod 64 = unat (sha_count0 ctx) div 8 mod 64" by (simp only: mod_mult_self2)
  then show ?thesis by (simp only: count_position)
qed

lemma sha_count_update:
  fixes c0 c1 :: u32
  assumes "unat c0 + 2 ^ 32 * unat c1 + 8 * n < 2 ^ 64" "n < 2 ^ 32"
  defines "c0' \<equiv> c0 + push_bit 3 (of_nat n)"
  defines "c1' \<equiv> (if c0' < c0 then c1 + 1 else c1) + drop_bit 29 (of_nat n)"
  shows "unat c0' + 2 ^ 32 * unat c1' = unat c0 + 2 ^ 32 * unat c1 + 8 * n"
proof -
  define x where "x = 8 * n mod 2 ^ 32"
  define h where "h = n div 2 ^ 29"
  have n: "8 * n = x + 2 ^ 32 * h"
    using mult_div_mod_eq [of "2 ^ 32" "8 * n"] by (simp add: x_def h_def)
  have len: "unat (push_bit 3 (of_nat n :: u32)) = x" "unat (drop_bit 29 (of_nat n :: u32)) = h"
    using assms(2) by (simp_all only: unsigned_push_bit_eq unat_drop_bit_eq unat_of_nat)
      (simp_all add: push_bit_eq_mult take_bit_eq_mod x_def mult.commute drop_bit_eq_div h_def)
  have c0': "unat c0' = (unat c0 + x) mod 2 ^ 32" by (simp add: c0'_def unat_word_ariths len)
  have c0_lt: "unat c0 < 2 ^ LENGTH(32)" by (rule unsigned_less)
  have lt: "unat c0 < 2 ^ 32" "x < 2 ^ 32"
    using c0_lt by (simp_all add: x_def)
  show ?thesis
  proof (cases "unat c0 + x < 2 ^ 32")
    case True
    then have e: "unat c0' = unat c0 + x" using c0' by simp
    then have "\<not> c0' < c0" by (simp add: word_less_nat_alt)
    moreover have "unat c1 + h < 2 ^ 32" using assms(1) n by simp
    ultimately have "unat c1' = unat c1 + h" by (simp add: c1'_def unat_word_ariths len)
    then show ?thesis using e n by simp
  next
    case False
    then have e: "unat c0' = unat c0 + x - 2 ^ 32" using c0' lt by (simp add: le_mod_geq)
    then have "c0' < c0" using lt False by (simp add: word_less_nat_alt)
    moreover have "unat c1 + 1 + h < 2 ^ 32" using assms(1) n False by simp
    ultimately have "unat c1' = unat c1 + 1 + h" by (simp add: c1'_def unat_word_ariths len)
    then show ?thesis using e n False by simp
  qed
qed

lemma sha_inv_init: "length g = 64 \<Longrightarrow> sha_inv (wc_SHA1Init g) []"
  by (simp add: sha_inv_def wc_SHA1Init_def)

lemma length_memcpy [simp]: "off + length src \<le> length dst \<Longrightarrow> length (memcpy dst off src) = length dst"
  by (simp add: memcpy_def)

lemma take_memcpy: "off \<le> length dst \<Longrightarrow> take (off + length src) (memcpy dst off src) = take off dst @ src"
  by (simp add: memcpy_def)

lemma sha_inv_update:
  assumes inv: "sha_inv ctx m" and len: "length d < 2 ^ 32" "length m + length d < 2 ^ 61"
  shows "sha_inv (wc_SHA1Update d ctx) (m @ d)"
proof -
  let ?j = "length m mod 64"
  let ?c0 = "sha_count0 ctx + push_bit 3 (of_nat (length d))"
  let ?c1 = "(if ?c0 < sha_count0 ctx then sha_count1 ctx + 1 else sha_count1 ctx) + drop_bit 29 (of_nat (length d))"
  have cnt: "unat ?c0 + 2 ^ 32 * unat ?c1 = 8 * length (m @ d)"
    using sha_count_update [of "sha_count0 ctx" "sha_count1 ctx" "length d"] inv len
    by (simp add: sha_inv_def)
  have j: "unat (drop_bit 3 (sha_count0 ctx) AND 63) = ?j" using inv by (rule sha_inv_position)
  have buf: "length (sha_buffer ctx) = 64" "take ?j (sha_buffer ctx) = sha_tail m"
    and st: "sha_state ctx = fips_blocks sha_init_state m"
    using inv by (simp_all add: sha_inv_def)
  have lm: "length (m @ d) mod 64 = length (sha_tail (sha_tail m @ d))"
    using blocks_append(2) [of m d] length_sha_tail [of "m @ d"] by simp
  show ?thesis
  proof (cases "?j + length d > 63")
    case False
    then have short: "length (sha_tail m @ d) < 64" by simp
    have "take (?j + length d) (memcpy (sha_buffer ctx) ?j d) = sha_tail m @ d"
      using buf by (simp add: take_memcpy)
    moreover have "length (m @ d) mod 64 = ?j + length d" using lm short by simp
    moreover have "length (memcpy (sha_buffer ctx) ?j d) = 64"
      using buf short by (subst length_memcpy) simp_all
    moreover have "fips_blocks sha_init_state (m @ d) = sha_state ctx"
      by (simp only: blocks_append(1) [of sha_init_state m d] st fips_blocks_short [OF short])
    moreover have "sha_tail (m @ d) = sha_tail m @ d"
      by (simp only: blocks_append(2) [of m d] sha_tail_short [OF short])
    moreover have "wc_SHA1Update d ctx = \<lparr>sha_state = sha_state ctx, sha_count0 = ?c0, sha_count1 = ?c1,
        sha_buffer = memcpy (sha_buffer ctx) ?j d\<rparr>"
      using False unfolding wc_SHA1Update_def j Let_def by (simp only: if_False)
    ultimately show ?thesis
      using cnt by (simp only: sha_inv_def wc_SHA1_CTX.simps simp_thms)
  next
    case True
    let ?buf = "memcpy (sha_buffer ctx) ?j (take (64 - ?j) d)"
    have i: "64 - ?j \<le> length d" "?j < 64" using True by auto
    have b: "?buf = sha_tail m @ take (64 - ?j) d"
      using i buf by (simp add: memcpy_def)
    obtain k where k: "sha_blocks_loop (wc_SHA1Transform (sha_state ctx) ?buf) d (64 - ?j) =
        (fips_blocks (wc_SHA1Transform (sha_state ctx) ?buf) (drop (64 - ?j) d), k)"
      "drop k d = sha_tail (drop (64 - ?j) d)"
      using blocks_loop [OF i(1)] by blast
    have long: "64 \<le> length (sha_tail m @ d)" "take 64 (sha_tail m @ d) = ?buf"
      "drop 64 (sha_tail m @ d) = drop (64 - ?j) d"
      using i b by simp_all
    have st': "fips_blocks sha_init_state (m @ d) =
        fips_blocks (wc_SHA1Transform (sha_state ctx) ?buf) (drop (64 - ?j) d)"
      by (simp only: blocks_append(1) [of sha_init_state m d] st fips_blocks_long [OF long(1)] long(2,3) transform_fips)
    have tl: "sha_tail (m @ d) = drop k d"
      by (simp only: blocks_append(2) [of m d] sha_tail_drop [OF long(1)] long(3) k(2))
    then have lk: "length (m @ d) mod 64 = length (drop k d)" by (metis length_sha_tail)
    have "length (drop k d) < 64" using lk by (metis mod_less_divisor zero_less_numeral)
    moreover have "length ?buf = 64" using b i by simp
    ultimately have "length (memcpy ?buf 0 (drop k d)) = 64"
      "take (length (drop k d)) (memcpy ?buf 0 (drop k d)) = drop k d"
      by (metis add_0 length_memcpy less_imp_le) (metis add_0 append_Nil le0 take0 take_memcpy)
    moreover have "wc_SHA1Update d ctx = \<lparr>
        sha_state = fips_blocks (wc_SHA1Transform (sha_state ctx) ?buf) (drop (64 - ?j) d),
        sha_count0 = ?c0, sha_count1 = ?c1, sha_buffer = memcpy ?buf 0 (drop k d)\<rparr>"
      using True unfolding wc_SHA1Update_def j Let_def by (simp only: if_True k(1) prod.case)
    ultimately show ?thesis
      using cnt by (simp only: sha_inv_def wc_SHA1_CTX.simps simp_thms lk tl st')
  qed
qed

section \<open>Padding and the digest\<close>

lemma pad_count: "q mod 64 \<noteq> 56 \<Longrightarrow> (120 - q mod 64) mod 64 = Suc ((120 - (q + 1) mod 64) mod 64)"
  for q :: nat
proof -
  assume q: "q mod 64 \<noteq> 56"
  have "list_all (\<lambda>r. r \<noteq> 56 \<longrightarrow> (120 - r) mod 64 = Suc ((120 - (r + 1) mod 64) mod 64)) [0..<64 :: nat]"
    by code_simp
  moreover have "q mod 64 \<in> set [0..<64]" by simp
  ultimately have "(120 - q mod 64) mod 64 = Suc ((120 - (q mod 64 + 1) mod 64) mod 64)"
    using q unfolding list_all_iff by blast
  then show ?thesis by (simp add: mod_simps)
qed

lemma sha_inv_pad:
  "sha_inv ctx m \<Longrightarrow> length m + (120 - length m mod 64) mod 64 < 2 ^ 61 \<Longrightarrow>
   sha_inv (sha_pad_loop ctx) (m @ replicate ((120 - length m mod 64) mod 64) 0)"
proof (induction ctx arbitrary: m rule: sha_pad_loop.induct)
  case (1 ctx)
  have pos: "sha_count0 ctx AND 504 = 448 \<longleftrightarrow> length m mod 64 = 56"
    using sha_inv_position [OF "1.prems"(1)] by (simp add: count_position)
  show ?case
  proof (cases "length m mod 64 = 56")
    case True
    then show ?thesis using "1.prems" pos by (subst sha_pad_loop.simps) simp
  next
    case False
    have k: "(120 - length m mod 64) mod 64 = Suc ((120 - length (m @ [0]) mod 64) mod 64)"
      using pad_count [OF False] by simp
    have "sha_inv (wc_SHA1Update [0] ctx) (m @ [0])"
      using "1.prems" k by (intro sha_inv_update) simp_all
    then have "sha_inv (sha_pad_loop (wc_SHA1Update [0] ctx))
        ((m @ [0]) @ replicate ((120 - length (m @ [0]) mod 64) mod 64) 0)"
      using "1.prems" k pos False by (intro "1.IH") simp_all
    then show ?thesis using False pos by (subst sha_pad_loop.simps) (simp only: k replicate_Suc append.assoc append_Cons append_Nil if_True simp_thms)
  qed
qed

lemma sha_inv_count:
  "sha_inv ctx m \<Longrightarrow> sha_count1 ctx = of_nat (8 * length m div 2 ^ 32) \<and> sha_count0 ctx = of_nat (8 * length m)"
proof -
  assume "sha_inv ctx m"
  then have e: "8 * length m = unat (sha_count0 ctx) + 2 ^ 32 * unat (sha_count1 ctx)"
    by (simp add: sha_inv_def)
  have lt: "unat (sha_count0 ctx) < 2 ^ LENGTH(32)" by (rule unsigned_less)
  then have "8 * length m div 2 ^ 32 = unat (sha_count1 ctx)" unfolding e by simp
  moreover have z: "(4294967296 :: u32) * w = 0" for w
  proof -
    have "(4294967296 :: u32) = 0" by code_simp
    then show ?thesis by (simp only: mult_zero_left)
  qed
  have "(of_nat (8 * length m) :: u32) = sha_count0 ctx" unfolding e by (simp add: z)
  ultimately show ?thesis by simp
qed

lemma final_fips:
  assumes "sha_inv ctx m" "length m + 128 < 2 ^ 61"
  shows "wc_SHA1Final ctx = fips_sha1 m"
proof -
  let ?k = "(119 - length m mod 64) mod 64"
  have k: "(120 - length (m @ [0x80]) mod 64) mod 64 = ?k"
  proof -
    have "list_all (\<lambda>r. (120 - (r + 1) mod 64) mod 64 = (119 - r) mod 64) [0..<64 :: nat]" by code_simp
    moreover have "length m mod 64 \<in> set [0..<64]" by simp
    ultimately have "(120 - (length m mod 64 + 1) mod 64) mod 64 = ?k" unfolding list_all_iff by blast
    then show ?thesis by (simp add: mod_simps)
  qed
  have kl: "?k < 64" by simp
  have "sha_inv (wc_SHA1Update [0x80] ctx) (m @ [0x80])"
    using assms by (intro sha_inv_update) simp_all
  then have p: "sha_inv (sha_pad_loop (wc_SHA1Update [0x80] ctx)) ((m @ [0x80]) @ replicate ?k 0)"
    using sha_inv_pad [of _ "m @ [0x80]"] kl assms(2) k by simp
  have "length (be_bytes x) = 4" for x by (simp add: be_bytes_def)
  then have "sha_inv (wc_SHA1Update (be_bytes (sha_count1 ctx) @ be_bytes (sha_count0 ctx))
      (sha_pad_loop (wc_SHA1Update [0x80] ctx))) (fips_pad m)"
    using sha_inv_update [OF p, of "be_bytes (sha_count1 ctx) @ be_bytes (sha_count0 ctx)"]
      kl assms(2) sha_inv_count [OF assms(1)] by (simp add: fips_pad_def)
  then show ?thesis
    unfolding wc_SHA1Final_def fips_sha1_def Let_def sha_inv_def by simp
qed

lemma sha_inv_updates:
  "sha_inv ctx m \<Longrightarrow> list_all (\<lambda>d. length d \<le> 2 ^ 32 - 64) ds \<Longrightarrow> length m + length (concat ds) < 2 ^ 61 \<Longrightarrow>
   sha_inv (fold wc_SHA1Update ds ctx) (m @ concat ds)"
proof (induction ds arbitrary: ctx m)
  case (Cons d ds)
  have "sha_inv (fold wc_SHA1Update ds (wc_SHA1Update d ctx)) ((m @ d) @ concat ds)"
    using Cons.prems by (intro Cons.IH sha_inv_update) simp_all
  then show ?case by simp
qed simp

section \<open>Properties\<close>

text \<open>
  Claim C9: whatever way a message is cut into updates, the context computes the SHA-1 digest
  of FIPS 180-4 of the whole message: the circular message schedule, the byte swapping, the
  round macros, the two-word bit counter with its carry, the partial-block buffer and the
  padding loop together implement the standard.
\<close>

theorem sha1_is_fips:
  assumes "length garbage = 64" "list_all (\<lambda>d. length d \<le> 2 ^ 32 - 64) chunks"
    and "length (concat chunks) + 128 < 2 ^ 61"
  shows "wc_SHA1Final (fold wc_SHA1Update chunks (wc_SHA1Init garbage)) = fips_sha1 (concat chunks)"
  using sha_inv_updates [OF sha_inv_init [OF assms(1)], of chunks] assms(2,3)
  by (intro final_fips) simp_all

theorem sha1_is_fips_witness:
  "wc_SHA1Final (fold wc_SHA1Update [[97], [98, 99]] (wc_SHA1Init (replicate 64 0))) = fips_sha1 [97, 98, 99] \<and>
   wc_SHA1 (replicate 64 0) [97, 98, 99] = fips_sha1 [97, 98, 99]"
  using sha1_is_fips [of "replicate 64 0" "[[97], [98, 99]]"]
    sha1_is_fips [of "replicate 64 0" "[[97], [98], [99]]"]
  by (auto simp: wc_SHA1_def)

end
