(* ===== verification/Json_Escape.thy ===== *)
theory Json_Escape
  imports Prelude
begin

text \<open>
  JSON string literals (\<^verbatim>\<open>lib/datasync/json.c\<close>): the length estimate, the escaping into
  a buffer and the escaping onto a stream. The output fits the estimate, the two writers
  agree, and a reader of JSON strings gets the original back.
\<close>

section \<open>The writers\<close>

definition two_char_escape :: "char \<Rightarrow> char option" where
  "two_char_escape c =
     (if c = CHR 0x22 then Some (CHR 0x22)
      else if c = CHR 0x5c then Some (CHR 0x5c)
      else if c = CHR 0x08 then Some (CHR ''b'')
      else if c = CHR 0x0c then Some (CHR ''f'')
      else if c = CHR 0x0a then Some (CHR ''n'')
      else if c = CHR 0x0d then Some (CHR ''r'')
      else if c = CHR 0x09 then Some (CHR ''t'')
      else None)"

definition is_control :: "char \<Rightarrow> bool" where
  "is_control c \<longleftrightarrow> ord_char c \<le> 0x1f"

fun json_escaped_str_len_loop :: "string \<Rightarrow> nat" where
  "json_escaped_str_len_loop [] = 0"
| "json_escaped_str_len_loop (c # s) =
     (if two_char_escape c \<noteq> None then 2 else if is_control c then 7 else 1) +
     json_escaped_str_len_loop s"

definition json_escaped_str_len :: "string \<Rightarrow> nat" where
  "json_escaped_str_len s = json_escaped_str_len_loop s + 2"

definition hex_digit :: "int \<Rightarrow> char" where
  "hex_digit n = ''0123456789abcdef'' ! nat n"

text \<open>\<^verbatim>\<open>sprintf("%04x")\<close> of a byte\<close>

definition hex4 :: "int \<Rightarrow> string" where
  "hex4 n = [hex_digit (n div 4096 mod 16), hex_digit (n div 256 mod 16), hex_digit (n div 16 mod 16), hex_digit (n mod 16)]"

fun json_escape_loop :: "string \<Rightarrow> string" where
  "json_escape_loop [] = []"
| "json_escape_loop (c # s) =
     (case two_char_escape c of
        Some e \<Rightarrow> [CHR 0x5c, e]
      | None \<Rightarrow> if is_control c then CHR 0x5c # CHR ''u'' # hex4 (ord_char c) else [c]) @
     json_escape_loop s"

text \<open>The bytes written to the buffer; the returned length is theirs.\<close>

definition json_escape_str :: "string \<Rightarrow> string" where
  "json_escape_str raw = CHR 0x22 # json_escape_loop raw @ [CHR 0x22]"

text \<open>The bytes appended to a stream, whose contents so far are \<open>out\<close>.\<close>

fun fjson_escape_loop :: "string \<Rightarrow> string \<Rightarrow> string" where
  "fjson_escape_loop [] out = out"
| "fjson_escape_loop (c # s) out =
     fjson_escape_loop s
       (case two_char_escape c of
          Some e \<Rightarrow> out @ [CHR 0x5c, e]
        | None \<Rightarrow> if is_control c then out @ [CHR 0x5c, CHR ''u''] @ hex4 (ord_char c) else out @ [c])"

definition fjson_escape_str :: "string \<Rightarrow> string \<Rightarrow> string" where
  "fjson_escape_str raw out = fjson_escape_loop raw (out @ [CHR 0x22]) @ [CHR 0x22]"

section \<open>A reader of JSON strings\<close>

definition hex_value :: "char \<Rightarrow> int" where
  "hex_value c = int (length (takeWhile (\<lambda>d. d \<noteq> c) ''0123456789abcdef''))"

definition unescape :: "char \<Rightarrow> char option" where
  "unescape e =
     (if e = CHR 0x22 \<or> e = CHR 0x5c then Some e
      else if e = CHR ''b'' then Some (CHR 0x08)
      else if e = CHR ''f'' then Some (CHR 0x0c)
      else if e = CHR ''n'' then Some (CHR 0x0a)
      else if e = CHR ''r'' then Some (CHR 0x0d)
      else if e = CHR ''t'' then Some (CHR 0x09)
      else None)"

text \<open>One character of the literal, and the rest.\<close>

fun json_read_hex :: "string \<Rightarrow> (char \<times> string) option" where
  "json_read_hex (h1 # h2 # h3 # h4 # r) =
     Some (char_of (((hex_value h1 * 16 + hex_value h2) * 16 + hex_value h3) * 16 + hex_value h4), r)"
| "json_read_hex _ = None"

definition json_read_char :: "string \<Rightarrow> (char \<times> string) option" where
  "json_read_char s = (case s of
      [] \<Rightarrow> None
    | c # s' \<Rightarrow>
        if c \<noteq> CHR 0x5c then Some (c, s')
        else case s' of
            [] \<Rightarrow> None
          | e # r \<Rightarrow> if e = CHR ''u'' then json_read_hex r else map_option (\<lambda>c. (c, r)) (unescape e))"

lemma json_read_char_shorter: "json_read_char s = Some (c, r) \<Longrightarrow> length r < length s"
  by (cases s; cases "tl s"; cases "tl (tl s)" rule: json_read_hex.cases)
    (auto simp: json_read_char_def split: if_splits option.splits)

text \<open>The characters up to the closing quote, and what follows it.\<close>

function json_read_body :: "string \<Rightarrow> (string \<times> string) option" where
  "json_read_body s =
     (if s = [] then None
      else if hd s = CHR 0x22 then Some ([], tl s)
      else case json_read_char s of
          None \<Rightarrow> None
        | Some (c, r) \<Rightarrow> map_option (\<lambda>(t, r). (c # t, r)) (json_read_body r))"
  by pat_completeness auto
termination
  by (relation "measure length") (auto dest: json_read_char_shorter)

declare json_read_body.simps [simp del]

definition json_read_string :: "string \<Rightarrow> (string \<times> string) option" where
  "json_read_string s = (if s \<noteq> [] \<and> hd s = CHR 0x22 then json_read_body (tl s) else None)"

section \<open>What the writers produce\<close>

lemma length_escape_char:
  "length (json_escape_loop s) + length (filter (\<lambda>c. two_char_escape c = None \<and> is_control c) s) =
   json_escaped_str_len_loop s"
  by (induction s) (auto simp: hex4_def split: option.splits)

lemma fjson_escape_loop_eq: "fjson_escape_loop s out = out @ json_escape_loop s"
  by (induction s arbitrary: out) (auto split: option.splits)

lemma hex_value_digit: "0 \<le> n \<and> n < 16 \<Longrightarrow> hex_value (hex_digit n) = n"
proof -
  assume n: "0 \<le> n \<and> n < 16"
  have "list_all (\<lambda>n. hex_value (hex_digit n) = n) [0..15]" by code_simp
  moreover have "n \<in> set [0..15]" using n by simp
  ultimately show ?thesis unfolding list_all_iff by blast
qed

definition escaped :: "char \<Rightarrow> string" where
  "escaped c = (case two_char_escape c of
      Some e \<Rightarrow> [CHR 0x5c, e]
    | None \<Rightarrow> if is_control c then CHR 0x5c # CHR ''u'' # hex4 (ord_char c) else [c])"

lemma unescape_two_char: "two_char_escape c = Some e \<Longrightarrow> unescape e = Some c \<and> e \<noteq> CHR ''u''"
  by (auto simp: two_char_escape_def unescape_def split: if_splits)

lemma plain_char: "two_char_escape c = None \<Longrightarrow> c \<noteq> CHR 0x22 \<and> c \<noteq> CHR 0x5c"
  by (auto simp: two_char_escape_def)

lemma json_read_hex4: "json_read_hex (hex4 (ord_char c) @ r) = Some (c, r)"
proof -
  let ?n = "ord_char c"
  have n: "0 \<le> ?n" "?n < 256" using ord_char_less [of c] by simp_all
  have small: "?n div 4096 = 0" "?n div 256 = 0" "?n div 16 mod 16 = ?n div 16"
    using n by (simp_all add: div_pos_pos_trivial mod_pos_pos_trivial pos_imp_zdiv_nonneg_iff)
  have "0 \<le> ?n div 16 \<and> ?n div 16 < 16" using n by (simp add: pos_imp_zdiv_nonneg_iff)
  moreover have "?n div 16 * 16 + ?n mod 16 = ?n" by simp
  ultimately have "json_read_hex (hex4 ?n @ r) = Some (char_of ?n, r)"
    by (simp add: hex4_def small hex_value_digit)
  then show ?thesis by (simp add: ord_char_def)
qed

lemma json_read_escaped: "json_read_char (escaped c @ r) = Some (c, r)"
proof (cases "two_char_escape c")
  case None
  then show ?thesis
    using plain_char [OF None] json_read_hex4 [of c r] by (auto simp: escaped_def json_read_char_def)
next
  case (Some e)
  then show ?thesis using unescape_two_char [OF Some] by (auto simp: escaped_def json_read_char_def)
qed

lemma hd_escaped: "escaped c \<noteq> [] \<and> hd (escaped c) \<noteq> CHR 0x22"
  using plain_char [of c] by (auto simp: escaped_def split: option.split)

lemma json_read_body_escape: "json_read_body (json_escape_loop s @ CHR 0x22 # r) = Some (s, r)"
proof (induction s)
  case Nil
  then show ?case by (subst json_read_body.simps) simp
next
  case (Cons c s)
  have "json_escape_loop (c # s) @ CHR 0x22 # r = escaped c @ json_escape_loop s @ CHR 0x22 # r"
    by (simp add: escaped_def)
  then show ?case
    using hd_escaped [of c] Cons by (subst json_read_body.simps) (simp add: json_read_escaped)
qed

section \<open>Properties\<close>

text \<open>
  Claim C30: the literal written for a string is at most as long as the estimate used to
  allocate its buffer (the estimate counts one byte too many for each control character
  without a short escape), the stream writer appends the same literal, and reading the
  literal back as a JSON string yields the original string.
\<close>

theorem json_escape_correct:
  "length (json_escape_str s) \<le> json_escaped_str_len s \<and>
   fjson_escape_str s out = out @ json_escape_str s \<and>
   json_read_string (json_escape_str s @ r) = Some (s, r)"
  using length_escape_char [of s] json_read_body_escape [of s r]
  by (simp add: json_escape_str_def json_escaped_str_len_def fjson_escape_str_def fjson_escape_loop_eq
      json_read_string_def)

end
