(* ===== verification/Double.thy ===== *)
theory Double
  imports Prelude
begin

text \<open>
  What the SDK uses of the C type \<^verbatim>\<open>double\<close>: its 64-bit representation (which is hashed
  and stored), the conversion from an integer and the text of \<^verbatim>\<open>printf("%.16g")\<close>.
  All of it is computed exactly on integers.
\<close>

unbundle bit_operations_syntax

type_synonym double = "64 word"

section \<open>Conversion from integers\<close>

fun bit_length :: "int \<Rightarrow> int" where
  "bit_length n = (if n \<le> 0 then 0 else 1 + bit_length (n div 2))"

declare bit_length.simps [simp del]

text \<open>Division rounded to the nearest integer, ties to even.\<close>

definition round_div :: "int \<Rightarrow> int \<Rightarrow> int" where
  "round_div a b =
     (let q = a div b; r = a mod b
      in if 2 * r < b \<or> (2 * r = b \<and> even q) then q else q + 1)"

definition double_of_int :: "int \<Rightarrow> double" where
  "double_of_int i =
     (if i = 0 then 0
      else let n = \<bar>i\<bar>;
               l = bit_length n;
               q = (if l \<le> 53 then n * 2 ^ nat (53 - l) else round_div n (2 ^ nat (l - 53)));
               (q, l) = (if q = 2 ^ 53 then (2 ^ 52, l + 1) else (q, l))
           in word_of_int ((if i < 0 then 2 ^ 63 else 0) + (l + 1022) * 2 ^ 52 + (q - 2 ^ 52)))"

section \<open>Printing\<close>

text \<open>
  The decimal exponent of \<open>num / den\<close>, by search: \<open>p\<close> is the power of ten of the
  candidate. No double has a decimal exponent beyond 308 or below -324.
\<close>

fun dec_exp_up :: "nat \<Rightarrow> int \<Rightarrow> int \<Rightarrow> int \<Rightarrow> int" where
  "dec_exp_up 0 num p x = x"
| "dec_exp_up (Suc k) num p x = (if p * 10 \<le> num then dec_exp_up k num (p * 10) (x + 1) else x)"

fun dec_exp_down :: "nat \<Rightarrow> int \<Rightarrow> int \<Rightarrow> int \<Rightarrow> int" where
  "dec_exp_down 0 p den x = x"
| "dec_exp_down (Suc k) p den x = (if p < den then dec_exp_down k (p * 10) den (x - 1) else x)"

definition dec_exp :: "int \<Rightarrow> int \<Rightarrow> int" where
  "dec_exp num den = (if den \<le> num then dec_exp_up 400 num den 0 else dec_exp_down 400 (num * 10) den (-1))"

definition strip_zeros :: "string \<Rightarrow> string" where
  "strip_zeros s = rev (dropWhile (\<lambda>c. c = CHR ''0'') (rev s))"

definition with_fraction :: "string \<Rightarrow> string \<Rightarrow> string" where
  "with_fraction ip fp = (let fp = strip_zeros fp in if fp = [] then ip else ip @ CHR ''.'' # fp)"

definition exponent_text :: "int \<Rightarrow> string" where
  "exponent_text x =
     (let n = \<bar>x\<bar>
      in (if x < 0 then ''e-'' else ''e+'') @ (if n < 10 then CHR ''0'' # dec_int n else dec_int n))"

definition format_g16 :: "int \<Rightarrow> int \<Rightarrow> string" where
  "format_g16 num den =
     (let x = dec_exp num den;
          d = (if x \<le> 15 then round_div (num * 10 ^ nat (15 - x)) den else round_div num (den * 10 ^ nat (x - 15)));
          (d, x) = (if d = 10 ^ 16 then (10 ^ 15, x + 1) else (d, x));
          ds = dec_int d
      in if x < -4 \<or> 16 \<le> x
         then with_fraction (take 1 ds) (drop 1 ds) @ exponent_text x
         else if x < 0 then with_fraction ''0'' (replicate (nat (- x) - 1) CHR ''0'' @ ds)
         else with_fraction (take (nat x + 1) ds) (drop (nat x + 1) ds))"

definition printf_g16 :: "double \<Rightarrow> string" where
  "printf_g16 w =
     (let v = uint w;
          sign = (if 2 ^ 63 \<le> v then ''-'' else []);
          ex = v div 2 ^ 52 mod 2048;
          fr = v mod 2 ^ 52
      in if ex = 0x7ff then sign @ (if fr = 0 then ''inf'' else ''nan'')
         else if ex = 0 \<and> fr = 0 then sign @ ''0''
         else let (m, e) = (if ex = 0 then (fr, -1074) else (2 ^ 52 + fr, ex - 1075))
              in sign @ (if 0 \<le> e then format_g16 (m * 2 ^ nat e) 1 else format_g16 m (2 ^ nat (- e))))"

end
