(* ===== verification/Treenode.thy ===== *)
theory Treenode
  imports Path Sha1 Json_Escape Double
begin

text \<open>
  The nodes of the data tree (\<^verbatim>\<open>lib/datasync/cache/treenode.c\<close>): leaves and internal
  nodes with their children in a search tree, deep copies, the cached content hashes, the
  JSON text of a node, and nodes built from parsed JSON.

  The lemmas show that a coherent hash cache always yields the hash of the current contents,
  that the JSON text fits the length computed for it, and what the text is.
\<close>

section \<open>Nodes\<close>

text \<open>
  The cached hash is \<open>None\<close> when the bit \<^verbatim>\<open>hash_cached\<close> is not set. An element of
  the children is a key with its node (\<^verbatim>\<open>struct internal_node_element\<close>).
\<close>

datatype treenode =
    TN_null
  | TN_bool bool
  | TN_number "string option" double
  | TN_string "string option" string
  | TN_internal "string option" "(string \<times> treenode) avl"

type_synonym children = "(string \<times> treenode) avl"

fun tn_is_internal :: "treenode \<Rightarrow> bool" where
  "tn_is_internal (TN_internal h t) = True"
| "tn_is_internal _ = False"

definition internal_element_key_cmp :: "string \<Rightarrow> string \<Rightarrow> int" where
  "internal_element_key_cmp ka kb = wc_datasync_key_cmp ka kb"

text \<open>Elements are smaller than the node that holds them.\<close>

lemma size_avl_node_member: "x \<in> set_avl_node t \<Longrightarrow> f x \<le> size_avl_node f t"
  by (induction t) auto

lemma size_avl_member: "x \<in> set_avl t \<Longrightarrow> f x \<le> size_avl f t"
  by (cases t) (auto dest: size_avl_node_member [of _ _ f])

lemma size_child: "(k, n) \<in> set_avl t \<Longrightarrow> size n < size (TN_internal h t)"
  using size_avl_member [of "(k, n)" t "size_prod (\<lambda>_. 0) size"] by simp

lemma set_avl_inorder [simp]: "set (avl_inorder t) = set_avl_node t"
  by (induction t) auto

lemma set_avl_elems [simp]: "set (avl_elems t) = set_avl t"
  by (cases t) (simp add: avl_elems_def)

lemma avl_insert_cong [fundef_cong]:
  "kc = kc' \<Longrightarrow> key = key' \<Longrightarrow> t = t' \<Longrightarrow> d = d' \<Longrightarrow> cp d' = cp' d' \<Longrightarrow>
   avl_insert kc key cp t d = avl_insert kc' key' cp' t' d'"
  by (simp add: avl_insert_def Let_def)

text \<open>
  The node part of \<^verbatim>\<open>internal_element_copy\<close>: a deep copy that inserts the copied
  children one by one and drops the cached hashes. A \<^verbatim>\<open>NULL\<close> child pointer, which only
  the argument of \<^verbatim>\<open>internal_add_new_internal\<close> has, reads as no children.
\<close>

function treenode_copy :: "treenode \<Rightarrow> treenode" where
  "treenode_copy TN_null = TN_null"
| "treenode_copy (TN_bool b) = TN_bool b"
| "treenode_copy (TN_number h d) = TN_number None d"
| "treenode_copy (TN_string h s) = TN_string None s"
| "treenode_copy (TN_internal h t) = TN_internal None
     (fold (\<lambda>e t'. snd (avl_insert internal_element_key_cmp fst (map_prod id treenode_copy) t' e))
        (avl_elems t) avl_new)"
  by pat_completeness auto
termination
  by (relation "measure size") (auto dest: size_child elim!: snds.cases)

definition internal_element_copy :: "string \<times> treenode \<Rightarrow> string \<times> treenode" where
  "internal_element_copy e = map_prod id treenode_copy e"

section \<open>Children\<close>

text \<open>\<^verbatim>\<open>assert(internal->type == TREENODE_TYPE_INTERNAL)\<close>\<close>

fun internal_get :: "treenode \<Rightarrow> string \<Rightarrow> treenode option res" where
  "internal_get (TN_internal h t) key = Inr (map_option snd (avl_get internal_element_key_cmp fst t key))"
| "internal_get _ key = Inl AssertFail"

fun internal_add :: "treenode \<Rightarrow> string \<Rightarrow> treenode \<Rightarrow> treenode res" where
  "internal_add (TN_internal h t) key node =
     Inr (TN_internal h (snd (avl_insert internal_element_key_cmp fst internal_element_copy t (key, node))))"
| "internal_add _ key node = Inl AssertFail"

fun internal_remove :: "treenode \<Rightarrow> string \<Rightarrow> treenode res" where
  "internal_remove (TN_internal h t) key = Inr (TN_internal h (avl_remove internal_element_key_cmp fst t key))"
| "internal_remove _ key = Inl AssertFail"

text \<open>
  The \<^verbatim>\<open>internal_add_new_*\<close> family. The boolean tells whether the returned pointer is
  usable: it is computed from the result of \<^verbatim>\<open>avl_insert\<close>, which is \<^verbatim>\<open>NULL\<close> when
  the key is present.
\<close>

fun internal_add_new :: "treenode \<Rightarrow> string \<Rightarrow> treenode \<Rightarrow> (bool \<times> treenode) res" where
  "internal_add_new (TN_internal h t) key node =
     (let (ret, t') = avl_insert internal_element_key_cmp fst internal_element_copy t (key, node)
      in Inr (ret \<noteq> None, TN_internal h t'))"
| "internal_add_new _ key node = Inl AssertFail"

definition internal_add_new_number :: "treenode \<Rightarrow> string \<Rightarrow> double \<Rightarrow> (bool \<times> treenode) res" where
  "internal_add_new_number n key number = internal_add_new n key (TN_number None number)"

definition internal_add_new_bool :: "treenode \<Rightarrow> string \<Rightarrow> bool \<Rightarrow> (bool \<times> treenode) res" where
  "internal_add_new_bool n key b = internal_add_new n key (TN_bool b)"

definition internal_add_new_string :: "treenode \<Rightarrow> string \<Rightarrow> string \<Rightarrow> (bool \<times> treenode) res" where
  "internal_add_new_string n key str = internal_add_new n key (TN_string None str)"

definition internal_add_new_null :: "treenode \<Rightarrow> string \<Rightarrow> (bool \<times> treenode) res" where
  "internal_add_new_null n key = internal_add_new n key TN_null"

definition internal_add_new_internal :: "treenode \<Rightarrow> string \<Rightarrow> (bool \<times> treenode) res" where
  "internal_add_new_internal n key = internal_add_new n key (TN_internal None avl_new)"

definition treenode_new_number :: "double \<Rightarrow> treenode" where
  "treenode_new_number d = TN_number None d"

definition treenode_new_bool :: "bool \<Rightarrow> treenode" where
  "treenode_new_bool b = TN_bool b"

definition treenode_new_string :: "string \<Rightarrow> treenode" where
  "treenode_new_string s = TN_string None s"

definition treenode_new_null :: treenode where
  "treenode_new_null = TN_null"

definition treenode_new_internal :: treenode where
  "treenode_new_internal = TN_internal None avl_new"

section \<open>Hashes\<close>

definition bool_hash :: "bool \<Rightarrow> string" where
  "bool_hash b = (if b then ''E5z61QM0lN/U2WsOnusszCTkR8M='' else ''aSSNoqcS4oQwJ2xxH20rvpp3zP0='')"

definition null_hash :: string where
  "null_hash = replicate 28 NUL"

definition str_bytes :: "string \<Rightarrow> byte list" where
  "str_bytes s = map of_char s"

text \<open>
  One SHA-1 context fed with the given pieces and its digest in base 64. The bytes that the
  context's buffer holds at the start do not matter.
\<close>

definition hash_chunks :: "string list \<Rightarrow> string" where
  "hash_chunks chunks = base64_enc_20 (wc_SHA1Final
     (fold wc_SHA1Update (map str_bytes chunks) (wc_SHA1Init (replicate 64 0))))"

text \<open>\<^verbatim>\<open>"%016" PRIx64\<close> of the bits of a double\<close>

definition hex16 :: "double \<Rightarrow> string" where
  "hex16 w = map (\<lambda>i. hex_digit (uint w div 16 ^ i mod 16)) [15, 14, 13, 12, 11, 10, 9, 8, 7, 6, 5, 4, 3, 2, 1, 0]"

text \<open>
  \<^verbatim>\<open>treenode_hash_get\<close> with \<^verbatim>\<open>treenode_hash\<close>: the hash (\<open>None\<close> for
  \<^verbatim>\<open>NULL\<close>) and the node with the hashes that were computed on the way stored in it and
  below it.
\<close>

function treenode_hash_get :: "treenode \<Rightarrow> string option \<times> treenode" where
  "treenode_hash_get TN_null = (None, TN_null)"
| "treenode_hash_get (TN_bool b) = (Some (bool_hash b), TN_bool b)"
| "treenode_hash_get (TN_number h d) = (case h of
      Some hash \<Rightarrow> (Some hash, TN_number h d)
    | None \<Rightarrow> let hash = hash_chunks [''number:'', hex16 d] in (Some hash, TN_number (Some hash) d))"
| "treenode_hash_get (TN_string h s) = (case h of
      Some hash \<Rightarrow> (Some hash, TN_string h s)
    | None \<Rightarrow> let hash = hash_chunks [''string:'', s] in (Some hash, TN_string (Some hash) s))"
| "treenode_hash_get (TN_internal h t) = (case h of
      Some hash \<Rightarrow> (Some hash, TN_internal h t)
    | None \<Rightarrow>
        let visited = map_avl (map_prod id treenode_hash_get) t;
            hash = hash_chunks (concat (map (\<lambda>(key, child_hash, n).
                case child_hash of None \<Rightarrow> [] | Some ch \<Rightarrow> ['':'', key, '':'', ch]) (avl_elems visited)))
        in (Some hash, TN_internal (Some hash) (map_avl (map_prod id snd) visited)))"
  by pat_completeness auto
termination
  by (relation "measure size") (auto dest: size_child elim!: snds.cases)

definition treenode_hash_is_null :: "string option \<Rightarrow> bool" where
  "treenode_hash_is_null h \<longleftrightarrow> h = None \<or> h = Some null_hash"

definition treenode_hash_eq :: "string option \<Rightarrow> string option \<Rightarrow> bool" where
  "treenode_hash_eq h1 h2 \<longleftrightarrow>
     (if treenode_hash_is_null h1 \<and> treenode_hash_is_null h2 then True
      else if h1 = None \<or> h2 = None then False
      else h1 = h2)"

text \<open>\<open>to\<close> is the contents of the destination afterwards.\<close>

definition treenode_hash_copy :: "string option \<Rightarrow> string" where
  "treenode_hash_copy from = (case from of None \<Rightarrow> null_hash | Some h \<Rightarrow> h)"

section \<open>JSON text\<close>

text \<open>The members of an object: key, whether the node is null, and what it contributes.\<close>

fun json_len_members :: "(string \<times> bool \<times> nat) list \<Rightarrow> nat" where
  "json_len_members [] = 0"
| "json_len_members ((key, null, len) # ms) =
     (if \<not> null then json_escaped_str_len key + 1 + len else 0) + json_len_members ms"

function treenode_to_json_len :: "treenode option \<Rightarrow> nat" where
  "treenode_to_json_len None = 4"
| "treenode_to_json_len (Some TN_null) = 4"
| "treenode_to_json_len (Some (TN_bool b)) = (if b then 4 else 5)"
| "treenode_to_json_len (Some (TN_number h d)) = length (printf_g16 d)"
| "treenode_to_json_len (Some (TN_string h s)) = json_escaped_str_len s"
| "treenode_to_json_len (Some (TN_internal h t)) =
     (let ms = map (map_prod id (\<lambda>n. (n = TN_null, treenode_to_json_len (Some n)))) (avl_elems t)
      in json_len_members ms + (if ms \<noteq> [] then length ms - 1 else 0) + 2)"
  by pat_completeness auto
termination
  by (relation "measure (case_option 0 (\<lambda>n. size n))") (auto dest: size_child elim!: snds.cases)

text \<open>A comma follows a member when the iterator has a next element.\<close>

fun json_members :: "(string \<times> bool \<times> string) list \<Rightarrow> string" where
  "json_members [] = []"
| "json_members ((key, null, txt) # ms) =
     (if \<not> null then json_escape_str key @ '':'' @ txt @ (if ms \<noteq> [] then '','' else []) else []) @
     json_members ms"

function treenode_to_json :: "treenode option \<Rightarrow> string" where
  "treenode_to_json None = ''null''"
| "treenode_to_json (Some TN_null) = ''null''"
| "treenode_to_json (Some (TN_bool b)) = (if b then ''true'' else ''false'')"
| "treenode_to_json (Some (TN_number h d)) = printf_g16 d"
| "treenode_to_json (Some (TN_string h s)) = json_escape_str s"
| "treenode_to_json (Some (TN_internal h t)) =
     ''{'' @ json_members (map (map_prod id (\<lambda>n. (n = TN_null, treenode_to_json (Some n)))) (avl_elems t)) @ ''}''"
  by pat_completeness auto
termination
  by (relation "measure (case_option 0 (\<lambda>n. size n))") (auto dest: size_child elim!: snds.cases)

text \<open>The stream writer; \<open>out\<close> is what the stream holds.\<close>

fun fjson_members :: "(string \<times> bool \<times> (string \<Rightarrow> string)) list \<Rightarrow> string \<Rightarrow> string" where
  "fjson_members [] out = out"
| "fjson_members ((key, null, wr) # ms) out =
     fjson_members ms
       (if \<not> null
        then let out = wr (fjson_escape_str key out @ '':'') in if ms \<noteq> [] then out @ '','' else out
        else out)"

function ftreenode_to_json :: "treenode option \<Rightarrow> string \<Rightarrow> string" where
  "ftreenode_to_json None = (\<lambda>out. out @ ''null'')"
| "ftreenode_to_json (Some TN_null) = (\<lambda>out. out @ ''null'')"
| "ftreenode_to_json (Some (TN_bool b)) = (\<lambda>out. out @ (if b then ''true'' else ''false''))"
| "ftreenode_to_json (Some (TN_number h d)) = (\<lambda>out. out @ printf_g16 d)"
| "ftreenode_to_json (Some (TN_string h s)) = fjson_escape_str s"
| "ftreenode_to_json (Some (TN_internal h t)) = (\<lambda>out.
     fjson_members (map (map_prod id (\<lambda>n. (n = TN_null, ftreenode_to_json (Some n)))) (avl_elems t))
       (out @ ''{'') @ ''}'')"
  by pat_completeness auto
termination
  by (relation "measure (case_option 0 (\<lambda>n. size n))") (auto dest: size_child elim!: snds.cases)

section \<open>Nodes from parsed JSON\<close>

text \<open>
  A parsed JSON document as the JSON library hands it out: integers of 64 bits, doubles by
  their bits, objects as the list of their members in the order of the iteration.
\<close>

datatype json =
    JNull
  | JBool bool
  | JInt int
  | JDouble double
  | JString string
  | JArray "json list"
  | JObject "(string \<times> json) list"

text \<open>
  \<open>get_int\<close> is the library's \<^verbatim>\<open>json_object_get_int\<close>, the 32-bit reading of an
  integer value.
\<close>

lemma size_json_member:
  "j \<in> set js \<Longrightarrow> size j < size (JArray js)"
  "(k, j) \<in> set ms \<Longrightarrow> size j < size (JObject ms)"
  using size_list_estimation' [of j js "size j" size]
    size_list_estimation' [of "(k, j)" ms "size j" "size_prod (\<lambda>_. 0) size"]
  by (auto simp: less_Suc_eq_le)

function treenode_from_json_r :: "(int \<Rightarrow> int) \<Rightarrow> json \<Rightarrow> treenode res" where
  "treenode_from_json_r get_int (JArray js) =
     fold (\<lambda>(i, n) ret. rbind ret (\<lambda>ret. rbind n (internal_add ret (dec_int (int i)))))
       (zip [0..<length js] (map (treenode_from_json_r get_int) js)) (Inr treenode_new_internal)"
| "treenode_from_json_r get_int (JBool b) = Inr treenode_new_null"
| "treenode_from_json_r get_int (JDouble d) = Inr (treenode_new_number d)"
| "treenode_from_json_r get_int (JInt i) = Inr (treenode_new_number (double_of_int (get_int i)))"
| "treenode_from_json_r get_int JNull = Inr treenode_new_null"
| "treenode_from_json_r get_int (JObject ms) =
     fold (\<lambda>(k, n) ret. rbind ret (\<lambda>ret. rbind n (internal_add ret k)))
       (map (map_prod id (treenode_from_json_r get_int)) ms) (Inr treenode_new_internal)"
| "treenode_from_json_r get_int (JString s) = Inr (treenode_new_string (c_str s 0))"
  by pat_completeness auto
termination
  by (relation "measure (\<lambda>(g, j). size j)") (auto elim!: snds.cases dest: size_json_member)

text \<open>\<open>tokener\<close> is the library's \<^verbatim>\<open>json_tokener_parse\<close>; \<^verbatim>\<open>NULL\<close> reads as null.\<close>

definition treenode_from_json :: "(string \<Rightarrow> json option) \<Rightarrow> (int \<Rightarrow> int) \<Rightarrow> string \<Rightarrow> treenode res" where
  "treenode_from_json tokener get_int txt =
     treenode_from_json_r get_int (case tokener txt of None \<Rightarrow> JNull | Some j \<Rightarrow> j)"

section \<open>Rebuilding a tree from its elements\<close>

context avl_store
begin

lemma elems_insert_last:
  assumes "avl_wf kc K key t" "key d \<in> K" "\<forall>x \<in> set (avl_elems t). kc (key x) (key d) < 0"
  shows "avl_elems (snd (avl_insert kc key cp t d)) = avl_elems t @ [cp d]"
proof -
  have ord: "avl_ordered kc K key (avl_root t)" using assms(1) by (simp add: avl_wf_def)
  have gt: "\<not> kc (key d) (key x) < 0" "kc (key d) (key x) \<noteq> 0" if "x \<in> set (avl_inorder (avl_root t))" for x
    using that assms(2,3) kc_swap [of "key x" "key d"] kc_swap [of "key d" "key x"] kc_eq_swap [of "key x" "key d"]
      ordered_inK [OF ord that] by (auto simp: avl_elems_def)
  then have "avl_get kc key t (key d) = None"
    using get_node_None_iff [OF ord assms(2)] by (simp add: avl_get_def)
  moreover have "avl_inorder (fst (avl_insert_rec kc key (avl_root t) (cp d))) = avl_inorder (avl_root t) @ [cp d]"
    using inorder_insert_rec [OF ord, of "cp d"] assms(2) gt(1)
      ins_sorted_append_ge [of "avl_inorder (avl_root t)" kc key "cp d" "[]"] by (simp add: cp_key)
  ultimately show ?thesis by (simp add: avl_insert_def avl_elems_def Let_def)
qed

lemma elems_rebuild:
  assumes "avl_wf kc K key t" "sorted_wrt (\<lambda>a b. kc (key a) (key b) < 0) (avl_elems t @ xs)" "key ` set xs \<subseteq> K"
  shows "avl_elems (fold (\<lambda>e t. snd (avl_insert kc key cp t e)) xs t) = avl_elems t @ map cp xs \<and>
    avl_wf kc K key (fold (\<lambda>e t. snd (avl_insert kc key cp t e)) xs t)"
  using assms
proof (induction xs arbitrary: t)
  case (Cons x xs)
  have e: "avl_elems (snd (avl_insert kc key cp t x)) = avl_elems t @ [cp x]"
    using Cons.prems by (intro elems_insert_last) (auto simp: sorted_wrt_append)
  have "avl_elems (fold (\<lambda>e t. snd (avl_insert kc key cp t e)) xs (snd (avl_insert kc key cp t x))) =
      avl_elems (snd (avl_insert kc key cp t x)) @ map cp xs \<and>
      avl_wf kc K key (fold (\<lambda>e t. snd (avl_insert kc key cp t e)) xs (snd (avl_insert kc key cp t x)))"
    using Cons.prems e by (intro Cons.IH) (auto simp: sorted_wrt_append cp_key intro!: wf_insert)
  with e show ?case by simp
qed simp

lemma wf_elems: "avl_wf kc K key t \<Longrightarrow> sorted_wrt (\<lambda>a b. kc (key a) (key b) < 0) (avl_elems t) \<and> key ` set (avl_elems t) \<subseteq> K"
  by (simp add: avl_wf_def avl_ordered_def avl_elems_def)

lemma get_elem: "avl_wf kc K key t \<Longrightarrow> k \<in> K \<Longrightarrow> avl_get kc key t k = Some x \<longleftrightarrow> x \<in> set (avl_elems t) \<and> kc k (key x) = 0"
  unfolding avl_get_def avl_elems_def using get_node_iff by (simp add: avl_wf_def)

end

text \<open>The children of a node, with canonical keys, are a keyed store.\<close>

interpretation tchild: avl_store internal_element_key_cmp "Collect key_canonical" fst internal_element_copy
proof
  fix a b assume "a \<in> Collect key_canonical" "b \<in> Collect key_canonical"
  then show "internal_element_key_cmp a b < 0 \<longleftrightarrow> 0 < internal_element_key_cmp b a"
    unfolding internal_element_key_cmp_def by (intro dkey.kc_swap) (auto simp: key_canonical_def)
next
  fix a b c assume "a \<in> Collect key_canonical" "b \<in> Collect key_canonical" "c \<in> Collect key_canonical"
    "internal_element_key_cmp a b \<le> 0" "internal_element_key_cmp b c \<le> 0"
  then show "internal_element_key_cmp a c \<le> 0"
    unfolding internal_element_key_cmp_def using dkey.kc_trans [of a b c] by (auto simp: key_canonical_def)
qed (simp add: internal_element_copy_def)

lemma element_cmp_canonical [simp]:
  "key_canonical a \<Longrightarrow> key_canonical b \<Longrightarrow> internal_element_key_cmp a b = 0 \<longleftrightarrow> a = b"
  by (simp add: internal_element_key_cmp_def key_cmp_canonical)

abbreviation children_wf :: "children \<Rightarrow> bool" where
  "children_wf \<equiv> avl_wf internal_element_key_cmp (Collect key_canonical) fst"

abbreviation children_get :: "children \<Rightarrow> string \<Rightarrow> (string \<times> treenode) option" where
  "children_get \<equiv> avl_get internal_element_key_cmp fst"

section \<open>Well-formed nodes, contents and hashes\<close>

function tn_wf :: "treenode \<Rightarrow> bool" where
  "tn_wf (TN_internal h t) \<longleftrightarrow> children_wf t \<and> list_all (\<lambda>(k, n). tn_wf n) (avl_elems t)"
| "tn_wf TN_null = True"
| "tn_wf (TN_bool b) = True"
| "tn_wf (TN_number h d) = True"
| "tn_wf (TN_string h s) = True"
  by pat_completeness auto
termination
  by (relation "measure size") (auto dest: size_child)

text \<open>The node with all cached hashes dropped.\<close>

function tn_forget :: "treenode \<Rightarrow> treenode" where
  "tn_forget (TN_internal h t) = TN_internal None (map_avl (map_prod id tn_forget) t)"
| "tn_forget TN_null = TN_null"
| "tn_forget (TN_bool b) = TN_bool b"
| "tn_forget (TN_number h d) = TN_number None d"
| "tn_forget (TN_string h s) = TN_string None s"
  by pat_completeness auto
termination
  by (relation "measure size") (auto dest: size_child elim!: snds.cases)

text \<open>The hash of the contents, without any cache.\<close>

definition digest_chunks :: "(string \<times> string option) list \<Rightarrow> string list" where
  "digest_chunks cs = concat (map (\<lambda>(key, d). case d of None \<Rightarrow> [] | Some ch \<Rightarrow> ['':'', key, '':'', ch]) cs)"

function tn_digest :: "treenode \<Rightarrow> string option" where
  "tn_digest TN_null = None"
| "tn_digest (TN_bool b) = Some (bool_hash b)"
| "tn_digest (TN_number h d) = Some (hash_chunks [''number:'', hex16 d])"
| "tn_digest (TN_string h s) = Some (hash_chunks [''string:'', s])"
| "tn_digest (TN_internal h t) = Some (hash_chunks (digest_chunks (map (map_prod id tn_digest) (avl_elems t))))"
  by pat_completeness auto
termination
  by (relation "measure size") (auto dest: size_child elim!: snds.cases)

text \<open>Every cached hash is the hash of the contents.\<close>

function tn_coherent :: "treenode \<Rightarrow> bool" where
  "tn_coherent TN_null = True"
| "tn_coherent (TN_bool b) = True"
| "tn_coherent (TN_number h d) \<longleftrightarrow> h = None \<or> h = tn_digest (TN_number h d)"
| "tn_coherent (TN_string h s) \<longleftrightarrow> h = None \<or> h = tn_digest (TN_string h s)"
| "tn_coherent (TN_internal h t) \<longleftrightarrow>
     (h = None \<or> h = tn_digest (TN_internal h t)) \<and> list_all (\<lambda>(k, n). tn_coherent n) (avl_elems t)"
  by pat_completeness auto
termination
  by (relation "measure size") (auto dest: size_child)

lemma inorder_map_avl_node: "avl_inorder (map_avl_node f t) = map f (avl_inorder t)"
  by (induction t) auto

lemma elems_map_avl [simp]: "avl_elems (map_avl f t) = map f (avl_elems t)"
  by (cases t) (simp add: avl_elems_def inorder_map_avl_node)

lemma map_prod_id_cong: "(\<And>k n. (k, n) \<in> set_avl t \<Longrightarrow> f n = g n) \<Longrightarrow> map_avl (map_prod id f) t = map_avl (map_prod id g) t"
  by (rule avl.map_cong) auto

text \<open>Induction over a node and its descendants.\<close>

lemma treenode_induct [case_names null bool number string internal]:
  assumes "P TN_null" "\<And>b. P (TN_bool b)" "\<And>h d. P (TN_number h d)" "\<And>h s. P (TN_string h s)"
    and "\<And>h t. (\<And>k n. (k, n) \<in> set_avl t \<Longrightarrow> P n) \<Longrightarrow> P (TN_internal h t)"
  shows "P n"
  by (induction n) (auto intro: assms)

lemma map_id_map_id [simp]:
  "map (map_prod id f) (map (map_prod id g) xs) = map (map_prod id (\<lambda>n. f (g n))) xs"
  "map_avl (map_prod id f) (map_avl (map_prod id g) t) = map_avl (map_prod id (\<lambda>n. f (g n))) t"
  by (auto simp: avl.map_comp intro!: avl.map_cong)

lemma map_elems_cong:
  "(\<And>k n. (k, n) \<in> set_avl t \<Longrightarrow> f n = g n) \<Longrightarrow> map (map_prod id f) (avl_elems t) = map (map_prod id g) (avl_elems t)"
  by (rule map_cong) auto

lemma digest_forget: "tn_digest (tn_forget n) = tn_digest n"
proof (induction n rule: treenode_induct)
  case (internal h t)
  have "map (map_prod id (\<lambda>n. tn_digest (tn_forget n))) (avl_elems t) = map (map_prod id tn_digest) (avl_elems t)"
    using internal by (rule map_elems_cong)
  then show ?case by (simp del: map_map map_eq_conv)
qed simp_all

lemma hash_get_correct:
  "tn_coherent n \<Longrightarrow> fst (treenode_hash_get n) = tn_digest n \<and> tn_coherent (snd (treenode_hash_get n)) \<and>
     tn_forget (snd (treenode_hash_get n)) = tn_forget n"
proof (induction n rule: treenode_induct)
  case (internal h t)
  then have ih: "fst (treenode_hash_get n) = tn_digest n" "tn_coherent (snd (treenode_hash_get n))"
    "tn_forget (snd (treenode_hash_get n)) = tn_forget n" if "(k, n) \<in> set_avl t" for k n
    using that by (auto simp: list_all_iff)
  show ?case
  proof (cases h)
    case (Some hash)
    then show ?thesis using internal.prems by auto
  next
    case None
    let ?t = "map_avl (map_prod id (\<lambda>n. snd (treenode_hash_get n))) t"
    have d: "map (map_prod id (\<lambda>n. fst (treenode_hash_get n))) (avl_elems t) = map (map_prod id tn_digest) (avl_elems t)"
      using ih(1) by (rule map_elems_cong)
    have dig: "tn_digest (TN_internal h' ?t) = tn_digest (TN_internal None t)" for h'
    proof -
      have "tn_digest (snd (treenode_hash_get n)) = tn_digest n" if "(k, n) \<in> set_avl t" for k n
        using ih(3) [OF that] digest_forget by metis
      then have "map (map_prod id (\<lambda>n. tn_digest (snd (treenode_hash_get n)))) (avl_elems t) =
          map (map_prod id tn_digest) (avl_elems t)"
        by (rule map_elems_cong)
      then show ?thesis by (simp del: map_map map_eq_conv)
    qed
    have chunks: "concat (map (\<lambda>(key, child_hash, n). case child_hash of None \<Rightarrow> [] | Some ch \<Rightarrow> ['':'', key, '':'', ch])
        (avl_elems (map_avl (map_prod id treenode_hash_get) t))) =
        digest_chunks (map (map_prod id (\<lambda>n. fst (treenode_hash_get n))) (avl_elems t))"
      by (auto simp: digest_chunks_def case_prod_beta map_prod_def intro!: arg_cong [of _ _ concat] split: option.split)
    have get: "treenode_hash_get (TN_internal None t) =
        (tn_digest (TN_internal None t), TN_internal (tn_digest (TN_internal None t)) ?t)"
      using chunks d by (simp add: Let_def del: elems_map_avl map_eq_conv)
    have "map_avl (map_prod id (\<lambda>n. tn_forget (snd (treenode_hash_get n)))) t = map_avl (map_prod id tn_forget) t"
      using ih(3) by (rule map_prod_id_cong)
    then show ?thesis
      using get dig ih(2) None
      by (auto simp: list_all_iff simp del: treenode_hash_get.simps tn_digest.simps)
  qed
qed (auto simp: Let_def split: option.splits)

section \<open>The JSON text\<close>

lemma json_members_length:
  "(\<And>k b x l. (k, b, x, l) \<in> set zs \<Longrightarrow> length x \<le> l) \<Longrightarrow>
   length (json_members (map (\<lambda>(k, b, x, l). (k, b, x)) zs)) \<le>
     json_len_members (map (\<lambda>(k, b, x, l). (k, b, l)) zs) + (length zs - 1)"
proof (induction zs)
  case (Cons z zs)
  obtain k b x l where z: "z = (k, b, x, l)" by (cases z)
  have "length x \<le> l" using Cons.prems z by auto
  moreover have "length (json_escape_str k) \<le> json_escaped_str_len k"
    using length_escape_char [of k] by (simp add: json_escape_str_def json_escaped_str_len_def)
  moreover have "length (json_members (map (\<lambda>(k, b, x, l). (k, b, x)) zs)) \<le>
     json_len_members (map (\<lambda>(k, b, x, l). (k, b, l)) zs) + (length zs - 1)"
    by (rule Cons.IH) (use Cons.prems in auto)
  ultimately show ?case using z by (cases zs) auto
qed simp

lemma to_json_fits: "length (treenode_to_json (Some n)) \<le> treenode_to_json_len (Some n)"
proof (induction n rule: treenode_induct)
  case (string h s)
  then show ?case
    using length_escape_char [of s] by (simp add: json_escape_str_def json_escaped_str_len_def)
next
  case (internal h t)
  let ?zs = "map (\<lambda>(k, n). (k, n = TN_null, treenode_to_json (Some n), treenode_to_json_len (Some n))) (avl_elems t)"
  have "length (json_members (map (\<lambda>(k, b, x, l). (k, b, x)) ?zs)) \<le>
      json_len_members (map (\<lambda>(k, b, x, l). (k, b, l)) ?zs) + (length ?zs - 1)"
    by (rule json_members_length) (use internal in auto)
  moreover have "map (\<lambda>(k, b, x, l). (k, b, x)) ?zs = map (map_prod id (\<lambda>n. (n = TN_null, treenode_to_json (Some n)))) (avl_elems t)"
    "map (\<lambda>(k, b, x, l). (k, b, l)) ?zs = map (map_prod id (\<lambda>n. (n = TN_null, treenode_to_json_len (Some n)))) (avl_elems t)"
    by auto
  ultimately show ?case
    by (simp add: Let_def del: map_map map_eq_conv)
qed auto

lemma fjson_members_eq:
  "(\<And>k b w out. (k, b, w) \<in> set ms \<Longrightarrow> w out = out @ w []) \<Longrightarrow>
   fjson_members ms out = out @ json_members (map (\<lambda>(k, b, w). (k, b, w [])) ms)"
proof (induction ms arbitrary: out)
  case (Cons m ms)
  obtain k b w where m: "m = (k, b, w)" by (cases m)
  have w: "w out = out @ w []" for out using Cons.prems m by auto
  have key: "fjson_escape_str k out @ CHR '':'' # x = out @ json_escape_str k @ CHR '':'' # x" for out x
    by (simp add: fjson_escape_str_def json_escape_str_def fjson_escape_loop_eq)
  have ih: "fjson_members ms out = out @ json_members (map (\<lambda>(k, b, w). (k, b, w [])) ms)" for out
    by (rule Cons.IH) (use Cons.prems in auto)
  show ?case
    using w [of "fjson_escape_str k out @ '':''"] by (auto simp: m ih Let_def key)
qed simp

lemma ftreenode_eq: "ftreenode_to_json (Some n) out = out @ treenode_to_json (Some n)"
proof (induction n arbitrary: out rule: treenode_induct)
  case (internal h t)
  let ?ms = "map (map_prod id (\<lambda>n. (n = TN_null, ftreenode_to_json (Some n)))) (avl_elems t)"
  have "fjson_members ?ms (out @ ''{'') =
      (out @ ''{'') @ json_members (map (\<lambda>(k, b, w). (k, b, w [])) ?ms)"
    by (rule fjson_members_eq) (use internal in fastforce)
  moreover have "map (\<lambda>(k, b, w). (k, b, w [])) ?ms =
      map (map_prod id (\<lambda>n. (n = TN_null, treenode_to_json (Some n)))) (avl_elems t)"
    using internal [of _ _ "[]"] by auto
  ultimately show ?case by (simp del: map_map map_eq_conv)
qed (auto simp: fjson_escape_str_def json_escape_str_def fjson_escape_loop_eq)

text \<open>JSON text as the standard writes it: members separated by commas.\<close>

fun join_commas :: "string list \<Rightarrow> string" where
  "join_commas [] = []"
| "join_commas [x] = x"
| "join_commas (x # y # xs) = x @ '','' @ join_commas (y # xs)"

function tn_json :: "treenode \<Rightarrow> string" where
  "tn_json TN_null = ''null''"
| "tn_json (TN_bool b) = (if b then ''true'' else ''false'')"
| "tn_json (TN_number h d) = printf_g16 d"
| "tn_json (TN_string h s) = json_escape_str s"
| "tn_json (TN_internal h t) =
     ''{'' @ join_commas (map (\<lambda>(k, j). json_escape_str k @ '':'' @ j) (map (map_prod id tn_json) (avl_elems t))) @ ''}''"
  by pat_completeness auto
termination
  by (relation "measure size") (auto dest: size_child elim!: snds.cases)

text \<open>No internal node has a null child: absent values are not stored.\<close>

function tn_no_null :: "treenode \<Rightarrow> bool" where
  "tn_no_null (TN_internal h t) \<longleftrightarrow> list_all (\<lambda>(k, n). n \<noteq> TN_null \<and> tn_no_null n) (avl_elems t)"
| "tn_no_null TN_null = True"
| "tn_no_null (TN_bool b) = True"
| "tn_no_null (TN_number h d) = True"
| "tn_no_null (TN_string h s) = True"
  by pat_completeness auto
termination
  by (relation "measure size") (auto dest: size_child)

lemma json_members_join:
  "json_members (map (\<lambda>(k, x). (k, False, x)) ms) = join_commas (map (\<lambda>(k, x). json_escape_str k @ '':'' @ x) ms)"
  by (induction ms rule: induct_list012) auto

lemma to_json_no_null: "tn_no_null n \<Longrightarrow> treenode_to_json (Some n) = tn_json n"
proof (induction n rule: treenode_induct)
  case (internal h t)
  have "map (map_prod id (\<lambda>n. (n = TN_null, treenode_to_json (Some n)))) (avl_elems t) =
      map (\<lambda>(k, x). (k, False, x)) (map (map_prod id tn_json) (avl_elems t))"
    using internal by (auto simp: list_all_iff)
  then show ?case using json_members_join [of "map (map_prod id tn_json) (avl_elems t)"] by (simp del: map_map map_eq_conv)
qed auto

section \<open>Deep copies\<close>

lemma element_copy_eq: "internal_element_copy = map_prod id treenode_copy"
  by (rule ext) (simp add: internal_element_copy_def)

lemma copy_children:
  assumes "children_wf t"
  defines "t' \<equiv> fold (\<lambda>e t'. snd (avl_insert internal_element_key_cmp fst (map_prod id treenode_copy) t' e)) (avl_elems t) avl_new"
  shows "avl_elems t' = map (map_prod id treenode_copy) (avl_elems t)" "children_wf t'"
  using tchild.elems_rebuild [of avl_new "avl_elems t"] tchild.wf_elems [OF assms(1)]
  unfolding t'_def element_copy_eq by simp_all

lemma copy_is_null: "treenode_copy n = TN_null \<longleftrightarrow> n = TN_null"
  by (cases n) auto

lemma copy_correct:
  "tn_wf n \<Longrightarrow> tn_wf (treenode_copy n) \<and> tn_digest (treenode_copy n) = tn_digest n \<and>
     tn_coherent (treenode_copy n) \<and> treenode_to_json (Some (treenode_copy n)) = treenode_to_json (Some n)"
proof (induction n rule: treenode_induct)
  case (internal h t)
  let ?t = "fold (\<lambda>e t'. snd (avl_insert internal_element_key_cmp fst (map_prod id treenode_copy) t' e)) (avl_elems t) avl_new"
  have wf: "children_wf t" using internal.prems by simp
  note c = copy_children [OF wf]
  have set: "set_avl ?t = map_prod id treenode_copy ` set_avl t" using arg_cong [OF c(1), of set] by simp
  have ih: "tn_wf (treenode_copy n)" "tn_digest (treenode_copy n) = tn_digest n" "tn_coherent (treenode_copy n)"
    "treenode_to_json (Some (treenode_copy n)) = treenode_to_json (Some n)" if "(k, n) \<in> set_avl t" for k n
    using internal.IH [OF that] internal.prems that by (auto simp: list_all_iff)
  have "map (map_prod id (\<lambda>n. tn_digest (treenode_copy n))) (avl_elems t) = map (map_prod id tn_digest) (avl_elems t)"
    using ih(2) by (rule map_elems_cong)
  then have "tn_digest (treenode_copy (TN_internal h t)) = tn_digest (TN_internal h t)"
    by (simp add: c(1) del: map_map map_eq_conv)
  moreover have "map (map_prod id (\<lambda>n. (treenode_copy n = TN_null, treenode_to_json (Some (treenode_copy n))))) (avl_elems t) =
      map (map_prod id (\<lambda>n. (n = TN_null, treenode_to_json (Some n)))) (avl_elems t)"
    using ih(4) by (intro map_elems_cong) (simp add: copy_is_null)
  then have "treenode_to_json (Some (treenode_copy (TN_internal h t))) = treenode_to_json (Some (TN_internal h t))"
    by (simp add: c(1) del: map_map map_eq_conv)
  moreover have "tn_wf (treenode_copy (TN_internal h t))" "tn_coherent (treenode_copy (TN_internal h t))"
    using c(2) ih(1,3) set by (auto simp: list_all_iff)
  ultimately show ?case by blast
qed auto

section \<open>Properties\<close>

text \<open>
  Claim C17: as long as every cached hash in a node is the hash of its contents, asking for the
  hash returns the hash of the contents (none for a null node), stores only right hashes on
  the way, and changes nothing else: with the caches dropped the node is the same.
\<close>

theorem treenode_hash_get_correct:
  assumes "tn_coherent n"
  shows "fst (treenode_hash_get n) = tn_digest n \<and> tn_coherent (snd (treenode_hash_get n)) \<and>
    tn_forget (snd (treenode_hash_get n)) = tn_forget n \<and>
    fst (treenode_hash_get (snd (treenode_hash_get n))) = fst (treenode_hash_get n)"
  using hash_get_correct [OF assms] hash_get_correct [of "snd (treenode_hash_get n)"] digest_forget by metis

theorem treenode_hash_get_correct_witness:
  "fst (treenode_hash_get (TN_string None ''abc'')) = tn_digest (TN_string None ''abc'') \<and>
   fst (treenode_hash_get (TN_bool True)) = Some ''E5z61QM0lN/U2WsOnusszCTkR8M=''"
  using treenode_hash_get_correct [of "TN_string None ''abc''"] treenode_hash_get_correct [of "TN_bool True"]
  by (simp add: bool_hash_def)

text \<open>
  Claim C20: the JSON text of a node never exceeds the length computed for its buffer, the stream
  writer appends exactly that text, and when no internal node has a null child it is the JSON
  object text with its members separated by commas. (With a null child after the last other
  child the text has a trailing comma.)
\<close>

theorem treenode_to_json_correct:
  "length (treenode_to_json n) \<le> treenode_to_json_len n \<and>
   ftreenode_to_json n out = out @ treenode_to_json n \<and>
   (\<forall>m. n = Some m \<longrightarrow> tn_no_null m \<longrightarrow> treenode_to_json n = tn_json m)"
  by (cases n) (auto simp: to_json_fits ftreenode_eq to_json_no_null)

definition sample_node :: treenode where
  "sample_node = TN_internal None
     (AVL (Node NIL (''a'', TN_bool True) 2 (Node NIL (''b'', TN_null) 1 NIL)) 2)"

theorem treenode_to_json_correct_witness:
  "treenode_to_json (Some (TN_internal None (AVL (Node NIL (''a'', TN_bool True) 1 NIL) 1))) =
     tn_json (TN_internal None (AVL (Node NIL (''a'', TN_bool True) 1 NIL) 1)) \<and>
   length (treenode_to_json (Some sample_node)) \<le> treenode_to_json_len (Some sample_node)"
  using treenode_to_json_correct [of "Some (TN_internal None (AVL (Node NIL (''a'', TN_bool True) 1 NIL) 1))" "[]"]
    treenode_to_json_correct [of "Some sample_node" "[]"]
  by (simp add: avl_elems_def)

text \<open>
  With a null child in last place, which \<^verbatim>\<open>treenode_from_json\<close> and
  \<^verbatim>\<open>data_cache_set_leaf\<close> store, the text is not JSON: it has a trailing comma.
\<close>

lemma treenode_to_json_trailing_comma:
  "treenode_to_json (Some sample_node) = [CHR ''{'', CHR 0x22, CHR ''a'', CHR 0x22] @ '':true,}''"
  by (simp add: sample_node_def avl_elems_def json_escape_str_def two_char_escape_def is_control_def ord_char_def)

text \<open>
  The deep copy that the children's tree makes of an element is a well-formed node
  with the same contents: the same hash and the same JSON text, with no stale cached hash.
\<close>

lemma internal_element_copy_correct:
  assumes "tn_wf n"
  shows "fst (internal_element_copy (k, n)) = k \<and>
    tn_wf (snd (internal_element_copy (k, n))) \<and> tn_coherent (snd (internal_element_copy (k, n))) \<and>
    tn_digest (snd (internal_element_copy (k, n))) = tn_digest n \<and>
    treenode_to_json (Some (snd (internal_element_copy (k, n)))) = treenode_to_json (Some n)"
  using copy_correct [OF assms] by (simp add: internal_element_copy_def)

lemma internal_element_copy_correct_witness:
  "tn_digest (snd (internal_element_copy (''k'', TN_number (Some ''stale'') 0))) = tn_digest (TN_number None 0)"
  using internal_element_copy_correct [of "TN_number (Some ''stale'') 0" "''k''"] by simp

end
