(* ===== verification/Cache.thy ===== *)
theory Cache
  imports Treenode
begin

text \<open>
  The local copy of the database (\<^verbatim>\<open>lib/datasync/cache/treenode_cache.c\<close>): setting and
  merging JSON documents and leaves at a path, and reading nodes back.

  The lemmas show that on well-formed data no operation runs into undefined behaviour, that
  every operation keeps the search order, the coherence of the cached hashes and the absence
  of null children, and that the cache refines a map from paths to values.
\<close>

section \<open>Pointers into the tree\<close>

text \<open>
  A node pointer that the C code holds is the list of keys that leads to the node.
  \<open>write_child\<close> is a write through the pointer to one child, \<open>node_write\<close> through
  a pointer obtained from \<^verbatim>\<open>data_cache_get_r\<close>; following a missing child is a use of
  \<^verbatim>\<open>NULL\<close>.
\<close>

fun write_child :: "string \<Rightarrow> (treenode \<Rightarrow> treenode res) \<Rightarrow> treenode \<Rightarrow> treenode res" where
  "write_child k f (TN_internal h t) = (case children_get t k of
      None \<Rightarrow> Inl NullDeref
    | Some (k', c) \<Rightarrow> rbind (f c) (\<lambda>c'.
        Inr (TN_internal h (avl_modify internal_element_key_cmp fst (map_prod id (\<lambda>_. c')) t k))))"
| "write_child k f _ = Inl NullDeref"

fun node_write :: "string list \<Rightarrow> (treenode \<Rightarrow> treenode res) \<Rightarrow> treenode \<Rightarrow> treenode res" where
  "node_write [] f n = f n"
| "node_write (k # ks) f n = write_child k (node_write ks f) n"

fun reset_hash :: "treenode \<Rightarrow> treenode" where
  "reset_hash (TN_internal h t) = TN_internal None t"
| "reset_hash (TN_number h d) = TN_number None d"
| "reset_hash (TN_string h s) = TN_string None s"
| "reset_hash n = n"

section \<open>The cache\<close>

text \<open>
  The root is \<open>None\<close> only in the transient state after \<^verbatim>\<open>data_cache_empty\<close>. The
  subscription registry that the structure also holds is not used by these operations.
\<close>

record data_cache =
  dc_root :: "treenode option"

definition data_cache_new :: data_cache where
  "data_cache_new = \<lparr>dc_root = Some treenode_new_null\<rparr>"

definition data_cache_empty :: "data_cache \<Rightarrow> data_cache" where
  "data_cache_empty cache = cache\<lparr>dc_root := None\<rparr>"

text \<open>The list argument is the rest of the path from \<^verbatim>\<open>depth\<close> on.\<close>

fun data_cache_get_r :: "treenode \<Rightarrow> string list \<Rightarrow> treenode option" where
  "data_cache_get_r node [] = Some node"
| "data_cache_get_r node (key # ks) =
     (if tn_is_internal node
      then case internal_get node key of Inr (Some n) \<Rightarrow> data_cache_get_r n ks | _ \<Rightarrow> None
      else None)"

definition data_cache_get_parsed :: "data_cache \<Rightarrow> wc_ds_path \<Rightarrow> treenode option res" where
  "data_cache_get_parsed cache path = (case dc_root cache of
      None \<Rightarrow> if p_nparts path = 0 then Inr None else Inl NullDeref
    | Some root \<Rightarrow> Inr (data_cache_get_r root (path_parts path)))"

definition data_cache_get :: "data_cache \<Rightarrow> string \<Rightarrow> treenode option res" where
  "data_cache_get cache path = data_cache_get_parsed cache (wc_datasync_path_new path)"

text \<open>The loop of \<^verbatim>\<open>data_cache_mkpath_w\<close>, seen from the node \<^verbatim>\<open>prev\<close>.\<close>

definition mkpath_add :: "string \<Rightarrow> (treenode \<Rightarrow> treenode res) \<Rightarrow> treenode \<Rightarrow> treenode res" where
  "mkpath_add key cont prev =
     rbind (internal_add_new_internal prev key) (\<lambda>(ok, prev).
       if ok then write_child key cont prev else Inl NullDeref)"

fun mkpath_loop :: "bool \<Rightarrow> bool \<Rightarrow> string list \<Rightarrow> treenode \<Rightarrow> treenode res" where
  "mkpath_loop reset empty_target [] prev =
     (if empty_target
      then case prev of
          TN_internal h t \<Rightarrow> Inr (TN_internal h (snd (avl_remove_all (\<lambda>e s. s) t ())))
        | _ \<Rightarrow> Inl NullDeref
      else Inr prev)"
| "mkpath_loop reset empty_target (key # ks) prev =
     rbind (internal_get prev key) (\<lambda>cur. case cur of
         None \<Rightarrow> mkpath_add key (mkpath_loop reset empty_target ks) prev
       | Some cur \<Rightarrow>
           if \<not> tn_is_internal cur
           then rbind (internal_remove prev key) (mkpath_add key (mkpath_loop reset empty_target ks))
           else write_child key (\<lambda>cur. mkpath_loop reset empty_target ks (if reset then reset_hash cur else cur)) prev)"

definition data_cache_mkpath_w :: "data_cache \<Rightarrow> string list \<Rightarrow> bool \<Rightarrow> bool \<Rightarrow> data_cache res" where
  "data_cache_mkpath_w cache parts reset empty_target = (case dc_root cache of
      None \<Rightarrow> Inl NullDeref
    | Some root \<Rightarrow>
        let root = (if \<not> tn_is_internal root then treenode_new_internal else root);
            root = (if reset then reset_hash root else root)
        in rbind (mkpath_loop reset empty_target parts root) (\<lambda>root. Inr (cache\<lparr>dc_root := Some root\<rparr>)))"

definition data_cache_mkpath :: "data_cache \<Rightarrow> string \<Rightarrow> data_cache res" where
  "data_cache_mkpath cache path = data_cache_mkpath_w cache (path_parts (wc_datasync_path_new path)) True False"

text \<open>The write through the pointer that \<open>data_cache_get_r (cache->root, path, 0)\<close> yields.\<close>

definition cache_write :: "data_cache \<Rightarrow> string list \<Rightarrow> (treenode \<Rightarrow> treenode res) \<Rightarrow> data_cache res" where
  "cache_write cache parts f = (case dc_root cache of
      None \<Rightarrow> Inl NullDeref
    | Some root \<Rightarrow> rbind (node_write parts f root) (\<lambda>root. Inr (cache\<lparr>dc_root := Some root\<rparr>)))"

text \<open>The leaf is given as the node that holds it; its type must not be internal.\<close>

definition data_cache_set_leaf :: "data_cache \<Rightarrow> string \<Rightarrow> treenode \<Rightarrow> data_cache res" where
  "data_cache_set_leaf cache path leaf =
     (if tn_is_internal leaf then Inl AssertFail
      else let parts = path_parts (wc_datasync_path_new path)
           in if parts = [] then Inr ((data_cache_empty cache)\<lparr>dc_root := Some (treenode_copy leaf)\<rparr>)
              else rbind (data_cache_mkpath_w cache (butlast parts) True False) (\<lambda>cache.
                cache_write cache (butlast parts) (\<lambda>n.
                  rbind (internal_remove n (last parts)) (\<lambda>n.
                  rbind (internal_add_new n (last parts) leaf) (\<lambda>(ok, n). Inr n)))))"

section \<open>JSON documents\<close>

definition json_is_container :: "json \<Rightarrow> bool" where
  "json_is_container j = (case j of JArray js \<Rightarrow> True | JObject ms \<Rightarrow> True | _ \<Rightarrow> False)"

fun treenode_from_json_val :: "json \<Rightarrow> treenode res" where
  "treenode_from_json_val (JBool b) = Inr (treenode_new_bool b)"
| "treenode_from_json_val (JDouble d) = Inr (treenode_new_number d)"
| "treenode_from_json_val (JInt i) = Inr (treenode_new_number (double_of_int i))"
| "treenode_from_json_val (JString s) = Inr (treenode_new_string (c_str s 0))"
| "treenode_from_json_val JNull = Inr treenode_new_null"
| "treenode_from_json_val _ = Inl AssertFail"

fun internal_add_from_json_val :: "treenode \<Rightarrow> string \<Rightarrow> json \<Rightarrow> treenode res" where
  "internal_add_from_json_val root key val =
     (if \<not> tn_is_internal root \<or> json_is_container val then Inl AssertFail
      else case val of
          JBool b \<Rightarrow> rbind (internal_add_new_bool root key b) (\<lambda>(ok, root). Inr root)
        | JDouble d \<Rightarrow> rbind (internal_add_new_number root key d) (\<lambda>(ok, root). Inr root)
        | JInt i \<Rightarrow> rbind (internal_add_new_number root key (double_of_int i)) (\<lambda>(ok, root). Inr root)
        | JString s \<Rightarrow> rbind (internal_add_new_string root key (c_str s 0)) (\<lambda>(ok, root). Inr root)
        | JNull \<Rightarrow> internal_remove root key
        | _ \<Rightarrow> Inr root)"

text \<open>
  \<^verbatim>\<open>data_cache_set_r\<close> below an existing node \<open>root\<close>: the document becomes its child
  \<open>key\<close>. When the key is present already, the new internal node's pointer is not usable,
  and the first element stored through it is undefined behaviour.
\<close>

definition set_members :: "(string \<times> (treenode \<Rightarrow> string \<Rightarrow> treenode res)) list \<Rightarrow> treenode \<Rightarrow> treenode res" where
  "set_members ms sub = fold (\<lambda>(k, setter) r. rbind r (\<lambda>sub. setter sub k)) ms (Inr sub)"

definition set_container :: "(string \<times> (treenode \<Rightarrow> string \<Rightarrow> treenode res)) list \<Rightarrow> treenode \<Rightarrow> string \<Rightarrow> treenode res" where
  "set_container ms root key =
     rbind (internal_add_new_internal root key) (\<lambda>(ok, root).
       if ok then write_child key (set_members ms) root
       else if ms = [] then Inr root else Inl NullDeref)"

definition array_keys :: "'a list \<Rightarrow> string list" where
  "array_keys js = map (\<lambda>i. dec_int (int i)) [0..<length js]"

function data_cache_set_r :: "json \<Rightarrow> treenode \<Rightarrow> string \<Rightarrow> treenode res" where
  "data_cache_set_r (JArray js) = set_container (zip (array_keys js) (map data_cache_set_r js))"
| "data_cache_set_r (JObject ms) = set_container (map (map_prod id data_cache_set_r) ms)"
| "data_cache_set_r (JBool b) = (\<lambda>root key. internal_add_from_json_val root key (JBool b))"
| "data_cache_set_r (JDouble d) = (\<lambda>root key. internal_add_from_json_val root key (JDouble d))"
| "data_cache_set_r (JInt i) = (\<lambda>root key. internal_add_from_json_val root key (JInt i))"
| "data_cache_set_r JNull = (\<lambda>root key. internal_add_from_json_val root key JNull)"
| "data_cache_set_r (JString s) = (\<lambda>root key. internal_add_from_json_val root key (JString s))"
  by pat_completeness auto
termination
  by (relation "measure size") (auto elim!: snds.cases dest: size_json_member)

text \<open>\<^verbatim>\<open>data_cache_set_r (cache, NULL, NULL, value)\<close>: the document becomes the root.\<close>

definition data_cache_set_root :: "json \<Rightarrow> treenode res" where
  "data_cache_set_root value = (case value of
      JArray js \<Rightarrow> set_members (zip (array_keys js) (map data_cache_set_r js)) treenode_new_internal
    | JObject ms \<Rightarrow> set_members (map (map_prod id data_cache_set_r) ms) treenode_new_internal
    | _ \<Rightarrow> treenode_from_json_val value)"

text \<open>Lowering \<^verbatim>\<open>nparts\<close> by one for the parent's path leaves all parts but the last.\<close>

definition data_cache_set_ex :: "data_cache \<Rightarrow> wc_ds_path \<Rightarrow> json \<Rightarrow> data_cache res" where
  "data_cache_set_ex cache path value =
     (let parts = path_parts path in if parts = []
      then rbind (data_cache_set_root value) (\<lambda>root. Inr ((data_cache_empty cache)\<lparr>dc_root := Some root\<rparr>))
      else rbind (data_cache_mkpath_w cache (butlast parts) True False) (\<lambda>cache.
        cache_write cache (butlast parts) (\<lambda>n.
          rbind (internal_remove n (last parts)) (\<lambda>n. data_cache_set_r value n (last parts)))))"

definition json_of :: "json option \<Rightarrow> json" where
  "json_of j = (case j of None \<Rightarrow> JNull | Some j \<Rightarrow> j)"

definition data_cache_set :: "(string \<Rightarrow> json option) \<Rightarrow> data_cache \<Rightarrow> string \<Rightarrow> string \<Rightarrow> data_cache res" where
  "data_cache_set tokener cache path json_doc =
     data_cache_set_ex cache (wc_datasync_path_new path) (json_of (tokener json_doc))"

definition WC_DS_MAX_PATH_ELEMENT_LEN :: nat where "WC_DS_MAX_PATH_ELEMENT_LEN = 256"

definition data_cache_merge :: "(string \<Rightarrow> json option) \<Rightarrow> data_cache \<Rightarrow> string \<Rightarrow> string \<Rightarrow> data_cache res" where
  "data_cache_merge tokener cache path json_doc =
     (let merge_path_max_len = length path + 1 + WC_DS_MAX_PATH_ELEMENT_LEN
      in case json_of (tokener json_doc) of
          JObject ms \<Rightarrow> fold (\<lambda>(key, val) r. rbind r (\<lambda>cache.
              let merge_path = take merge_path_max_len (path @ ''/'' @ key)
              in data_cache_set_ex cache (wc_datasync_path_new merge_path) val)) ms (Inr cache)
        | _ \<Rightarrow> Inr cache)"

definition data_cache_merge_ex :: "data_cache \<Rightarrow> wc_ds_path \<Rightarrow> json \<Rightarrow> data_cache res" where
  "data_cache_merge_ex cache path value = (case value of
      JObject ms \<Rightarrow>
        let parts = path_parts path in if parts = []
        then rbind (data_cache_set_root value) (\<lambda>root. Inr ((data_cache_empty cache)\<lparr>dc_root := Some root\<rparr>))
        else rbind (data_cache_mkpath_w cache parts True False) (\<lambda>cache.
          cache_write cache parts (\<lambda>n.
            fold (\<lambda>(key, val) r. rbind r (\<lambda>n. rbind (internal_remove n key) (\<lambda>n. data_cache_set_r val n key))) ms (Inr n)))
    | _ \<Rightarrow> Inl AssertFail)"

section \<open>Children as a map\<close>

definition child :: "children \<Rightarrow> string \<Rightarrow> treenode option" where
  "child t k = map_option snd (children_get t k)"

lemma children_get_child:
  assumes "children_wf t" "key_canonical k"
  shows "children_get t k = map_option (Pair k) (child t k)"
proof (cases "children_get t k")
  case (Some x)
  then have "fst x = k" using tchild.get_matches [of t k x] assms by (cases x) auto
  then show ?thesis using Some by (cases x) (simp add: child_def)
qed (simp add: child_def)

lemma child_elems:
  assumes "children_wf t"
  shows "(k, n) \<in> set_avl t \<longleftrightarrow> key_canonical k \<and> child t k = Some n"
proof -
  have "key_canonical k" if "(k, n) \<in> set_avl t"
    using tchild.wf_elems [OF assms] that by force
  moreover have "(k, n) \<in> set_avl t \<longleftrightarrow> child t k = Some n" if k: "key_canonical k"
  proof -
    have "(k, n) \<in> set_avl t \<longleftrightarrow> children_get t k = Some (k, n)"
      using tchild.get_elem [OF assms, of k "(k, n)"] k by simp
    also have "\<dots> \<longleftrightarrow> child t k = Some n"
      by (simp only: children_get_child [OF assms k]) auto
    finally show ?thesis .
  qed
  ultimately show ?thesis by blast
qed

lemma all_children:
  "children_wf t \<Longrightarrow> list_all (\<lambda>(k, n). P n) (avl_elems t) \<longleftrightarrow>
     (\<forall>k n. key_canonical k \<longrightarrow> child t k = Some n \<longrightarrow> P n)"
  by (auto simp: list_all_iff child_elems)

lemma child_new [simp]: "child avl_new k = None"
  by (simp add: child_def avl_get_def avl_new_def)

lemma child_insert:
  assumes "children_wf t" "key_canonical key" "key_canonical k"
  shows "child (snd (avl_insert internal_element_key_cmp fst internal_element_copy t (key, n))) k =
    (if child t key = None \<and> k = key then Some (treenode_copy n) else child t k)"
proof (cases "children_get t key")
  case None
  then show ?thesis
    using tchild.get_insert [OF assms(1), of "(key, n)" k] assms
    by (auto simp: child_def internal_element_copy_def)
next
  case (Some x)
  then show ?thesis using tchild.ins_present [of t "(key, n)"] by (simp add: child_def)
qed

lemma child_remove:
  assumes "children_wf t" "key_canonical key" "key_canonical k"
  shows "child (avl_remove internal_element_key_cmp fst t key) k = (if k = key then None else child t k)"
  using tchild.get_remove [OF assms(1), of key k] assms by (auto simp: child_def)

lemma child_modify:
  assumes "children_wf t" "key_canonical key" "key_canonical k"
  shows "child (avl_modify internal_element_key_cmp fst (map_prod id f) t key) k =
    (if k = key then map_option f (child t k) else child t k)"
  using tchild.get_modify [OF assms(1), of key k "map_prod id f"] assms
  by (auto simp: child_def option.map_comp comp_def map_prod_def case_prod_beta)

text \<open>The three predicates on nodes, in terms of the map of children.\<close>

lemma tn_wf_child:
  "tn_wf (TN_internal h t) \<longleftrightarrow> children_wf t \<and> (\<forall>k n. key_canonical k \<longrightarrow> child t k = Some n \<longrightarrow> tn_wf n)"
  using all_children [of t tn_wf] by auto

lemma tn_coherent_child:
  "children_wf t \<Longrightarrow> tn_coherent (TN_internal None t) \<longleftrightarrow> (\<forall>k n. key_canonical k \<longrightarrow> child t k = Some n \<longrightarrow> tn_coherent n)"
  using all_children [of t tn_coherent] by simp

lemma tn_no_null_child:
  "children_wf t \<Longrightarrow> tn_no_null (TN_internal h t) \<longleftrightarrow>
     (\<forall>k n. key_canonical k \<longrightarrow> child t k = Some n \<longrightarrow> n \<noteq> TN_null \<and> tn_no_null n)"
  using all_children [of t "\<lambda>n. n \<noteq> TN_null \<and> tn_no_null n"] by simp

text \<open>What the operations need of a node, besides the absence of null children.\<close>

definition tn_good :: "treenode \<Rightarrow> bool" where
  "tn_good n \<longleftrightarrow> tn_wf n \<and> tn_coherent n"

lemma tn_good_leaf [simp]:
  "tn_good TN_null" "tn_good (TN_bool b)" "tn_good (TN_number None d)" "tn_good (TN_string None s)"
  by (simp_all add: tn_good_def)

lemma tn_good_internal:
  "tn_good (TN_internal None t) \<longleftrightarrow> children_wf t \<and> (\<forall>k n. key_canonical k \<longrightarrow> child t k = Some n \<longrightarrow> tn_good n)"
  unfolding tn_good_def tn_wf_child using tn_coherent_child [of t] by auto

lemma tn_good_reset: "tn_good n \<Longrightarrow> tn_good (reset_hash n)"
  by (cases n) (auto simp: tn_good_def)

lemma tn_good_childD: "tn_good (TN_internal h t) \<Longrightarrow> key_canonical k \<Longrightarrow> child t k = Some n \<Longrightarrow> tn_good n"
  using child_elems [of t k n] by (auto simp: tn_good_def list_all_iff)

section \<open>The values in a tree\<close>

datatype leaf = L_bool bool | L_number double | L_string string

fun tn_leaf :: "treenode \<Rightarrow> string list \<Rightarrow> leaf option" where
  "tn_leaf (TN_internal h t) (k # ks) = (case child t k of None \<Rightarrow> None | Some n \<Rightarrow> tn_leaf n ks)"
| "tn_leaf (TN_bool b) [] = Some (L_bool b)"
| "tn_leaf (TN_number h d) [] = Some (L_number d)"
| "tn_leaf (TN_string h s) [] = Some (L_string s)"
| "tn_leaf _ _ = None"

lemma tn_leaf_simple [simp]:
  "tn_leaf (TN_bool b) qs = (if qs = [] then Some (L_bool b) else None)"
  "tn_leaf (TN_number h d) qs = (if qs = [] then Some (L_number d) else None)"
  "tn_leaf (TN_string h s) qs = (if qs = [] then Some (L_string s) else None)"
  "tn_leaf TN_null qs = None"
  by (cases qs; simp)+

function json_leaf :: "json \<Rightarrow> string list \<Rightarrow> leaf option" where
  "json_leaf (JObject ms) (k # ks) =
     (case map_of ms k of None \<Rightarrow> None | Some j \<Rightarrow> json_leaf j ks)"
| "json_leaf (JArray js) (k # ks) =
     (case map_of (zip (array_keys js) js) k of None \<Rightarrow> None | Some j \<Rightarrow> json_leaf j ks)"
| "json_leaf (JBool b) ps = (if ps = [] then Some (L_bool b) else None)"
| "json_leaf (JInt i) ps = (if ps = [] then Some (L_number (double_of_int i)) else None)"
| "json_leaf (JDouble d) ps = (if ps = [] then Some (L_number d) else None)"
| "json_leaf (JString s) ps = (if ps = [] then Some (L_string (c_str s 0)) else None)"
| "json_leaf JNull ps = None"
| "json_leaf (JObject ms) [] = None"
| "json_leaf (JArray js) [] = None"
  by pat_completeness auto
termination
  by (relation "measure (\<lambda>(j, ps). length ps)") auto

text \<open>Documents whose object keys are canonical and distinct.\<close>

function json_ok :: "json \<Rightarrow> bool" where
  "json_ok (JObject ms) \<longleftrightarrow> distinct (map fst ms) \<and> list_all (\<lambda>(k, j). key_canonical k \<and> json_ok j) ms"
| "json_ok (JArray js) \<longleftrightarrow> length js < 2 ^ 30 \<and> list_all json_ok js"
| "json_ok (JBool b) = True"
| "json_ok (JInt i) = True"
| "json_ok (JDouble d) = True"
| "json_ok (JString s) = True"
| "json_ok JNull = True"
  by pat_completeness auto
termination
  by (relation "measure size") (auto dest: size_json_member)

section \<open>Single updates\<close>

text \<open>
  \<open>n'\<close> is the node \<open>n\<close> with the child at \<open>k\<close> set to \<open>v\<close> (or removed),
  both with no cached hash and good.
\<close>

definition child_update :: "treenode \<Rightarrow> treenode \<Rightarrow> string \<Rightarrow> treenode option \<Rightarrow> bool" where
  "child_update n n' k v \<longleftrightarrow> (\<exists>t t'. n = TN_internal None t \<and> n' = TN_internal None t' \<and> tn_good n' \<and>
     (\<forall>q. key_canonical q \<longrightarrow> child t' q = ((child t)(k := v)) q))"

definition tn_children :: "treenode \<Rightarrow> children" where
  "tn_children n = (case n of TN_internal h t \<Rightarrow> t | _ \<Rightarrow> avl_new)"

definition good_internal :: "treenode \<Rightarrow> bool" where
  "good_internal n \<longleftrightarrow> (\<exists>t. n = TN_internal None t) \<and> tn_good n"

lemma good_internalE:
  assumes "good_internal n"
  obtains t where "n = TN_internal None t" "children_wf t" "tn_good (TN_internal None t)" "tn_children n = t"
  using assms by (auto simp: good_internal_def tn_good_internal tn_children_def)

lemma child_updateE:
  assumes "child_update n n' k v"
  shows "good_internal n'" "\<And>q. key_canonical q \<Longrightarrow> child (tn_children n') q = ((child (tn_children n))(k := v)) q"
  using assms by (auto simp: child_update_def good_internal_def tn_children_def)

lemma child_update_no_null:
  assumes "child_update n n' k v" "good_internal n" "tn_no_null n" "\<And>c. v = Some c \<Longrightarrow> c \<noteq> TN_null \<and> tn_no_null c"
  shows "tn_no_null n'"
proof -
  obtain t t' where t: "n = TN_internal None t" "n' = TN_internal None t'" "tn_good n'"
    "\<And>q. key_canonical q \<Longrightarrow> child t' q = ((child t)(k := v)) q"
    using assms(1) by (auto simp: child_update_def)
  moreover have "children_wf t" "children_wf t'"
    using assms(2) t by (auto simp: good_internal_def tn_good_internal)
  ultimately show ?thesis
    using assms(3,4) tn_no_null_child [of t None] tn_no_null_child [of t' None] by (auto simp: fun_upd_def split: if_splits)
qed

lemma internal_add_new_update:
  assumes "good_internal n" "key_canonical k" "child (tn_children n) k = None" "tn_good v"
  shows "\<exists>n'. internal_add_new n k v = Inr (True, n') \<and> child_update n n' k (Some (treenode_copy v))"
proof -
  obtain t where n: "n = TN_internal None t" "tn_children n = t" and wf: "children_wf t" and g: "tn_good (TN_internal None t)"
    using assms(1) by (rule good_internalE)
  let ?t = "snd (avl_insert internal_element_key_cmp fst internal_element_copy t (k, v))"
  have "children_get t k = None" using assms(3) n by (simp add: child_def)
  then have ok: "fst (avl_insert internal_element_key_cmp fst internal_element_copy t (k, v)) \<noteq> None"
    using tchild.ins_absent [of t "(k, v)"] by simp
  have ch: "child ?t q = ((child t)(k \<mapsto> treenode_copy v)) q" if "key_canonical q" for q
    using child_insert [OF wf assms(2) that] assms(3) n by simp
  moreover have "children_wf ?t" using tchild.wf_insert [OF wf, of "(k, v)"] assms(2) by simp
  moreover have "tn_good (treenode_copy v)" using copy_correct assms(4) by (simp add: tn_good_def)
  ultimately have "tn_good (TN_internal None ?t)"
    using g by (auto simp: tn_good_internal split: if_splits)
  with ch ok show ?thesis
    unfolding n(1) child_update_def by (auto simp: case_prod_beta)
qed

lemma internal_remove_update:
  assumes "good_internal n" "key_canonical k"
  shows "\<exists>n'. internal_remove n k = Inr n' \<and> child_update n n' k None"
proof -
  obtain t where n: "n = TN_internal None t" and wf: "children_wf t" and g: "tn_good (TN_internal None t)"
    using assms(1) by (rule good_internalE)
  let ?t = "avl_remove internal_element_key_cmp fst t k"
  have ch: "child ?t q = ((child t)(k := None)) q" if "key_canonical q" for q
    using child_remove [OF wf assms(2) that] by simp
  moreover have "children_wf ?t" using tchild.wf_remove [OF wf, of k] assms(2) by simp
  ultimately have "tn_good (TN_internal None ?t)"
    using g by (auto simp: tn_good_internal split: if_splits)
  with ch show ?thesis unfolding n child_update_def by auto
qed

lemma write_child_update:
  assumes "good_internal n" "key_canonical k" "child (tn_children n) k = Some c" "f c = Inr c'" "tn_good c'"
  shows "\<exists>n'. write_child k f n = Inr n' \<and> child_update n n' k (Some c')"
proof -
  obtain t where n: "n = TN_internal None t" "tn_children n = t" and wf: "children_wf t" and g: "tn_good (TN_internal None t)"
    using assms(1) by (rule good_internalE)
  let ?t = "avl_modify internal_element_key_cmp fst (map_prod id (\<lambda>_. c')) t k"
  have ch: "child ?t q = ((child t)(k \<mapsto> c')) q" if "key_canonical q" for q
    using child_modify [OF wf assms(2) that] assms(3) n by simp
  moreover have "children_wf ?t"
    using tchild.wf_modify [OF wf, of k "map_prod id (\<lambda>_. c')"] assms(2) by simp
  ultimately have "tn_good (TN_internal None ?t)"
    using g assms(5) by (auto simp: tn_good_internal split: if_splits)
  moreover have "children_get t k = Some (k, c)" using children_get_child [OF wf assms(2)] assms(3) n by simp
  ultimately show ?thesis
    unfolding n(1) child_update_def using ch assms(4) by auto
qed

lemma child_update_leaf:
  assumes "child_update n n' k v" "key_canonical q"
  shows "tn_leaf n' (q # qs) = (if q = k then (case v of None \<Rightarrow> None | Some c \<Rightarrow> tn_leaf c qs) else tn_leaf n (q # qs))"
  using assms by (auto simp: child_update_def)

lemma good_internal_leaf_Nil: "good_internal n \<Longrightarrow> tn_leaf n [] = None"
  by (auto simp: good_internal_def)

section \<open>Making a path\<close>

abbreviation canonical :: "string list \<Rightarrow> bool" where
  "canonical \<equiv> list_all key_canonical"

text \<open>The node at a path, and paths all of whose nodes are internal, good and without cached hash.\<close>

fun node_at :: "treenode \<Rightarrow> string list \<Rightarrow> treenode option" where
  "node_at r [] = Some r"
| "node_at r (k # ks) = (case child (tn_children r) k of None \<Rightarrow> None | Some c \<Rightarrow> node_at c ks)"

fun path_open :: "treenode \<Rightarrow> string list \<Rightarrow> bool" where
  "path_open r [] = good_internal r"
| "path_open r (k # ks) \<longleftrightarrow> good_internal r \<and> (\<exists>c. child (tn_children r) k = Some c \<and> path_open c ks)"

lemma path_open_good: "path_open r ks \<Longrightarrow> good_internal r"
  by (cases ks) auto

lemma good_internal_tn_good: "good_internal n \<Longrightarrow> tn_good n"
  by (simp add: good_internal_def)

lemma good_internal_new [simp]: "good_internal (TN_internal None avl_new)"
  by (simp add: good_internal_def tn_good_internal)

lemma leaf_new [simp]: "tn_leaf (TN_internal None avl_new) qs = None"
  by (cases qs) auto

lemma copy_new [simp]: "treenode_copy (TN_internal None avl_new) = TN_internal None avl_new"
  by simp

text \<open>What making the path \<open>ks\<close> below \<open>r\<close> promises.\<close>

definition mkpath_result :: "treenode \<Rightarrow> string list \<Rightarrow> treenode \<Rightarrow> bool" where
  "mkpath_result r ks r' \<longleftrightarrow> path_open r' ks \<and> (tn_no_null r \<longrightarrow> tn_no_null r') \<and>
     (\<forall>q. canonical q \<longrightarrow> tn_leaf r' q = (if prefix q ks then None else tn_leaf r q))"

lemma mkpath_result_Cons:
  assumes u: "child_update r r' k (Some c')" and c: "mkpath_result c ks c'" and r: "good_internal r"
    and k: "key_canonical k"
    and old: "\<And>qs. canonical qs \<Longrightarrow> \<not> prefix qs ks \<Longrightarrow> tn_leaf c qs = tn_leaf r (k # qs)"
    and nn: "tn_no_null r \<Longrightarrow> tn_no_null c"
  shows "mkpath_result r (k # ks) r'"
  unfolding mkpath_result_def
proof (intro conjI impI allI)
  note u' = child_updateE [OF u]
  have po: "path_open c' ks" using c by (simp add: mkpath_result_def)
  then show "path_open r' (k # ks)" using u' k by simp
  have "c' \<noteq> TN_null" using path_open_good [OF po] by (auto simp: good_internal_def)
  then show "tn_no_null r'" if "tn_no_null r"
    using child_update_no_null [OF u r that] c nn [OF that] by (simp add: mkpath_result_def)
  fix q assume q: "canonical q"
  show "tn_leaf r' q = (if prefix q (k # ks) then None else tn_leaf r q)"
  proof (cases q)
    case Nil
    then show ?thesis using good_internal_leaf_Nil [OF u'(1)] by simp
  next
    case (Cons x xs)
    then have "key_canonical x" "canonical xs" using q by simp_all
    then show ?thesis
      using child_update_leaf [OF u, of x xs] c old Cons by (auto simp: mkpath_result_def)
  qed
qed

lemma child_update_trans:
  "child_update n n' k v \<Longrightarrow> child_update n' n'' k w \<Longrightarrow> child_update n n'' k w"
  by (auto simp: child_update_def)

lemma mkpath_add_result:
  assumes "good_internal n" "key_canonical k" "child (tn_children n) k = None"
    and "cont (TN_internal None avl_new) = Inr c'" "tn_good c'"
  shows "\<exists>n'. mkpath_add k cont n = Inr n' \<and> child_update n n' k (Some c')"
proof -
  obtain n1 where n1: "internal_add_new_internal n k = Inr (True, n1)"
    "child_update n n1 k (Some (TN_internal None avl_new))"
    using internal_add_new_update [OF assms(1-3), of "TN_internal None avl_new"]
    by (auto simp: internal_add_new_internal_def good_internal_tn_good [OF good_internal_new])
  have "good_internal n1" "child (tn_children n1) k = Some (TN_internal None avl_new)"
    using child_updateE [OF n1(2)] assms(2) by simp_all
  then obtain n2 where "write_child k cont n1 = Inr n2" "child_update n1 n2 k (Some c')"
    using write_child_update [of n1 k "TN_internal None avl_new" cont c'] assms(2,4,5) by blast
  then show ?thesis using n1 child_update_trans by (auto simp: mkpath_add_def)
qed

lemma leaf_reset [simp]: "tn_leaf (reset_hash c) qs = tn_leaf c qs"
  by (cases c; cases qs) auto

lemma no_null_reset [simp]: "tn_no_null (reset_hash c) = tn_no_null c"
  by (cases c) auto

lemma good_internal_reset: "tn_good c \<Longrightarrow> tn_is_internal c \<Longrightarrow> good_internal (reset_hash c)"
  using tn_good_reset [of c] by (cases c) (auto simp: good_internal_def)

lemma mkpath_loop_result:
  "good_internal r \<Longrightarrow> canonical ks \<Longrightarrow> \<exists>r'. mkpath_loop True False ks r = Inr r' \<and> mkpath_result r ks r'"
proof (induction ks arbitrary: r)
  case Nil
  then show ?case using good_internal_leaf_Nil [of r] by (simp add: mkpath_result_def)
next
  case (Cons k ks)
  have k: "key_canonical k" "canonical ks" using Cons.prems by simp_all
  obtain t where r: "r = TN_internal None t" "tn_children r = t" and wf: "children_wf t" "tn_good (TN_internal None t)"
    using Cons.prems(1) by (rule good_internalE)
  obtain e' where e': "mkpath_loop True False ks (TN_internal None avl_new) = Inr e'"
    "mkpath_result (TN_internal None avl_new) ks e'"
    using Cons.IH [OF good_internal_new k(2)] by blast
  then have ge: "tn_good e'" using path_open_good good_internal_tn_good by (auto simp: mkpath_result_def)
  have get: "internal_get r k = Inr (child t k)" by (simp add: r child_def)
  show ?case
  proof (cases "child t k")
    case None
    then obtain n' where "mkpath_add k (mkpath_loop True False ks) r = Inr n'" "child_update r n' k (Some e')"
      using mkpath_add_result [OF Cons.prems(1) k(1) _ _ ge, where cont = "mkpath_loop True False ks"] e'(1) r by auto
    moreover from this have "mkpath_result r (k # ks) n'"
      using mkpath_result_Cons [OF _ e'(2) Cons.prems(1) k(1)] None r by simp
    ultimately show ?thesis using get None by simp
  next
    case (Some c)
    have c: "tn_good c" using tn_good_childD [OF wf(2) k(1) Some] .
    show ?thesis
    proof (cases "tn_is_internal c")
      case True
      then obtain c' where c': "mkpath_loop True False ks (reset_hash c) = Inr c'" "mkpath_result (reset_hash c) ks c'"
        using Cons.IH [OF good_internal_reset [OF c] k(2)] by blast
      then have "tn_good c'" using path_open_good good_internal_tn_good by (auto simp: mkpath_result_def)
      then obtain n' where "write_child k (\<lambda>cur. mkpath_loop True False ks (reset_hash cur)) r = Inr n'"
        "child_update r n' k (Some c')"
        using write_child_update [OF Cons.prems(1) k(1), of c "\<lambda>cur. mkpath_loop True False ks (reset_hash cur)" c']
          c'(1) Some r(2) by blast
      moreover from this have "mkpath_result r (k # ks) n'"
        using mkpath_result_Cons [OF _ c'(2) Cons.prems(1) k(1)] Some r k(1) tn_no_null_child [OF wf(1)] by auto
      ultimately show ?thesis using get Some True by simp
    next
      case False
      obtain n1 where n1: "internal_remove r k = Inr n1" "child_update r n1 k None"
        using internal_remove_update [OF Cons.prems(1) k(1)] by blast
      then obtain n' where n': "mkpath_add k (mkpath_loop True False ks) n1 = Inr n'" "child_update n1 n' k (Some e')"
        using mkpath_add_result [OF child_updateE(1) [OF n1(2)] k(1) _ _ ge, where cont = "mkpath_loop True False ks"]
          e'(1) child_updateE(2) [OF n1(2) k(1)] by auto
      have "tn_leaf (TN_internal None avl_new) qs = tn_leaf r (k # qs)" if "\<not> prefix qs ks" for qs
        using that False Some r by (cases c; cases qs) auto
      then have "mkpath_result r (k # ks) n'"
        using mkpath_result_Cons [OF child_update_trans [OF n1(2) n'(2)] e'(2) Cons.prems(1) k(1)] by auto
      then show ?thesis using get Some False n1(1) n'(1) by simp
    qed
  qed
qed

section \<open>Writing at a path\<close>

lemma path_open_node:
  "path_open r ps \<Longrightarrow> canonical ps \<Longrightarrow> \<exists>n. node_at r ps = Some n \<and> good_internal n \<and> (tn_no_null r \<longrightarrow> tn_no_null n)"
proof (induction ps arbitrary: r)
  case (Cons k ks)
  then obtain c where c: "child (tn_children r) k = Some c" "path_open c ks" and g: "good_internal r" by auto
  obtain t where r: "r = TN_internal None t" "tn_children r = t" "children_wf t" using g by (rule good_internalE)
  have "tn_no_null c" if "tn_no_null r"
    using that tn_no_null_child [OF r(3)] c(1) r Cons.prems(2) by auto
  then show ?case using Cons.IH [OF c(2)] Cons.prems(2) c(1) by auto
qed simp

lemma node_write_result:
  "path_open r ps \<Longrightarrow> canonical ps \<Longrightarrow> node_at r ps = Some n \<Longrightarrow> f n = Inr n' \<Longrightarrow> good_internal n' \<Longrightarrow>
   \<exists>r'. node_write ps f r = Inr r' \<and> good_internal r' \<and> (tn_no_null r \<longrightarrow> tn_no_null n' \<longrightarrow> tn_no_null r') \<and>
     (\<forall>q. canonical q \<longrightarrow> tn_leaf r' q = (if prefix ps q then tn_leaf n' (drop (length ps) q) else tn_leaf r q))"
proof (induction ps arbitrary: r)
  case Nil
  then show ?case by simp
next
  case (Cons k ks)
  then obtain c where c: "child (tn_children r) k = Some c" "path_open c ks" and g: "good_internal r" by auto
  have k: "key_canonical k" "canonical ks" using Cons.prems(2) by simp_all
  obtain c' where c': "node_write ks f c = Inr c'" "good_internal c'" "tn_no_null c \<Longrightarrow> tn_no_null n' \<Longrightarrow> tn_no_null c'"
    "\<And>q. canonical q \<Longrightarrow> tn_leaf c' q = (if prefix ks q then tn_leaf n' (drop (length ks) q) else tn_leaf c q)"
    using Cons.IH [OF c(2) k(2)] Cons.prems(3-5) c(1) by auto
  obtain r' where r': "write_child k (node_write ks f) r = Inr r'" and u: "child_update r r' k (Some c')"
    using write_child_update [where f = "node_write ks f", OF g k(1) c(1) c'(1) good_internal_tn_good [OF c'(2)]] by blast
  have "tn_no_null c" if "tn_no_null r"
    using good_internalE [OF g] that tn_no_null_child c(1) k(1) by metis
  moreover have "c' \<noteq> TN_null" using c'(2) by (auto simp: good_internal_def)
  ultimately have nn: "tn_no_null r'" if "tn_no_null r" "tn_no_null n'"
    using child_update_no_null [OF u g] that c'(3) by simp
  have leaf: "tn_leaf r' q = (if prefix (k # ks) q then tn_leaf n' (drop (length (k # ks)) q) else tn_leaf r q)"
    if q: "canonical q" for q
  proof (cases q)
    case Nil
    then show ?thesis using good_internal_leaf_Nil [OF g] good_internal_leaf_Nil [OF child_updateE(1) [OF u]] by simp
  next
    case (Cons x xs)
    have "tn_leaf r (k # xs) = tn_leaf c xs" using c(1) g by (auto simp: good_internal_def tn_children_def)
    then show ?thesis
      using child_update_leaf [OF u, of x xs] c'(4) [of xs] q Cons by auto
  qed
  show ?case using r' child_updateE(1) [OF u] nn leaf by auto
qed

section \<open>Storing documents\<close>

text \<open>The child \<open>v\<close> represents the document \<open>j\<close>.\<close>

definition represents :: "treenode option \<Rightarrow> json \<Rightarrow> bool" where
  "represents v j \<longleftrightarrow> (\<forall>c. v = Some c \<longrightarrow> c \<noteq> TN_null \<and> tn_no_null c) \<and>
     (\<forall>qs. canonical qs \<longrightarrow> (case v of None \<Rightarrow> None | Some c \<Rightarrow> tn_leaf c qs) = json_leaf j qs)"

definition stores :: "(treenode \<Rightarrow> string \<Rightarrow> treenode res) \<Rightarrow> json \<Rightarrow> bool" where
  "stores f j \<longleftrightarrow> (\<forall>n k. good_internal n \<longrightarrow> key_canonical k \<longrightarrow> child (tn_children n) k = None \<longrightarrow>
     (\<exists>n' v. f n k = Inr n' \<and> child_update n n' k v \<and> represents v j))"

lemma stores_new_leaf:
  assumes "\<And>n k. good_internal n \<Longrightarrow> f n k = rbind (internal_add_new n k v) (\<lambda>(ok, n'). Inr n')"
    and "tn_good v" "treenode_copy v \<noteq> TN_null" "tn_no_null (treenode_copy v)"
    and "\<And>qs. tn_leaf (treenode_copy v) qs = json_leaf j qs"
  shows "stores f j"
  unfolding stores_def
proof (intro allI impI)
  fix n k assume n: "good_internal n" "key_canonical k" "child (tn_children n) k = None"
  then obtain n' where "internal_add_new n k v = Inr (True, n')" "child_update n n' k (Some (treenode_copy v))"
    using internal_add_new_update assms(2) by blast
  moreover have "represents (Some (treenode_copy v)) j" using assms(3-5) by (simp add: represents_def)
  ultimately show "\<exists>n' v. f n k = Inr n' \<and> child_update n n' k v \<and> represents v j"
    using assms(1) [OF n(1)] by auto
qed

lemma set_members_result:
  assumes "list_all2 (\<lambda>(k, f) (k', j). k = k' \<and> stores f j) fs ms" "distinct (map fst ms)"
    and "list_all (\<lambda>(k, j). key_canonical k) ms" "good_internal n" "tn_no_null n"
    and "list_all (\<lambda>(k, j). child (tn_children n) k = None) ms"
  shows "\<exists>n'. set_members fs n = Inr n' \<and> good_internal n' \<and> tn_no_null n' \<and>
     (\<forall>q qs. canonical (q # qs) \<longrightarrow> tn_leaf n' (q # qs) =
        (case map_of ms q of None \<Rightarrow> tn_leaf n (q # qs) | Some j \<Rightarrow> json_leaf j qs))"
  using assms
proof (induction fs ms arbitrary: n rule: list_all2_induct)
  case Nil
  then show ?case by (auto simp: set_members_def)
next
  case (Cons kf fs kj ms)
  obtain k f j where kf: "kf = (k, f)" "kj = (k, j)" "stores f j" using Cons.hyps(1) by auto
  have k: "key_canonical k" "child (tn_children n) k = None" "k \<notin> fst ` set ms" using Cons.prems kf by auto
  then obtain n1 v where n1: "f n k = Inr n1" and u: "child_update n n1 k v" and v: "represents v j"
    using kf(3) Cons.prems(3) unfolding stores_def by blast
  note g1 = child_updateE [OF u]
  have nn: "tn_no_null n1"
    using child_update_no_null [OF u Cons.prems(3,4)] v by (simp add: represents_def)
  have "list_all (\<lambda>(k, j). child (tn_children n1) k = None) ms"
    unfolding list_all_iff
  proof (intro ballI, clarify)
    fix a b assume "(a, b) \<in> set ms"
    moreover from this have "key_canonical a" "child (tn_children n) a = None" "a \<noteq> k"
      using Cons.prems k(3) by (auto simp: list_all_iff rev_image_eqI)
    ultimately show "child (tn_children n1) a = None" using g1(2) by simp
  qed
  then obtain n' where n': "set_members fs n1 = Inr n'" "good_internal n'" "tn_no_null n'"
    and leaf: "\<And>q qs. canonical (q # qs) \<Longrightarrow> tn_leaf n' (q # qs) =
        (case map_of ms q of None \<Rightarrow> tn_leaf n1 (q # qs) | Some j \<Rightarrow> json_leaf j qs)"
    using Cons.IH [of n1] Cons.prems g1(1) nn by auto
  have "set_members (kf # fs) n = set_members fs n1" by (simp add: set_members_def kf n1)
  moreover have "tn_leaf n' (q # qs) = (case map_of (kj # ms) q of None \<Rightarrow> tn_leaf n (q # qs) | Some j \<Rightarrow> json_leaf j qs)"
    if q: "canonical (q # qs)" for q qs
  proof (cases "q = k")
    case True
    then have "map_of ms q = None" using k(3) by (simp add: map_of_eq_None_iff)
    then show ?thesis using leaf [OF q] child_update_leaf [OF u, of q qs] q v True kf by (simp add: represents_def)
  next
    case False
    then show ?thesis using leaf [OF q] child_update_leaf [OF u, of q qs] q kf by (simp split: option.split)
  qed
  ultimately show ?case using n' by metis
qed

lemma set_container_stores:
  assumes fs: "list_all2 (\<lambda>(k, f) (k', j). k = k' \<and> stores f j) fs ms" "distinct (map fst ms)"
    "list_all (\<lambda>(k, j). key_canonical k) ms"
    and j: "json_leaf j [] = None"
      "\<And>q qs. json_leaf j (q # qs) = (case map_of ms q of None \<Rightarrow> None | Some j \<Rightarrow> json_leaf j qs)"
  shows "stores (set_container fs) j"
  unfolding stores_def
proof (intro allI impI)
  fix n k assume n: "good_internal n" "key_canonical k" "child (tn_children n) k = None"
  let ?e = "TN_internal None avl_new"
  obtain n1 where n1: "internal_add_new_internal n k = Inr (True, n1)" "child_update n n1 k (Some ?e)"
    using internal_add_new_update [OF n, of ?e] good_internal_tn_good [OF good_internal_new]
    by (auto simp: internal_add_new_internal_def)
  obtain c' where c': "set_members fs ?e = Inr c'" "good_internal c'" "tn_no_null c'"
    "\<And>q qs. canonical (q # qs) \<Longrightarrow> tn_leaf c' (q # qs) = (case map_of ms q of None \<Rightarrow> None | Some j \<Rightarrow> json_leaf j qs)"
    using set_members_result [OF fs good_internal_new] by (auto simp: tn_children_def list_all_iff cong: option.case_cong)
  obtain n2 where n2: "write_child k (set_members fs) n1 = Inr n2" "child_update n1 n2 k (Some c')"
    using write_child_update [where f = "set_members fs", OF child_updateE(1) [OF n1(2)] n(2) _ c'(1) good_internal_tn_good [OF c'(2)]]
      child_updateE(2) [OF n1(2) n(2)] by auto
  have "tn_leaf c' qs = json_leaf j qs" if "canonical qs" for qs
    using that c'(2,4) j good_internal_leaf_Nil by (cases qs) auto
  then have "represents (Some c') j"
    using c'(2,3) by (auto simp: represents_def good_internal_def)
  then show "\<exists>n' v. set_container fs n k = Inr n' \<and> child_update n n' k v \<and> represents v j"
    using n1 n2 child_update_trans [OF n1(2) n2(2)] by (auto simp: set_container_def)
qed

lemma dec_int_inj: "- (2 ^ 63) \<le> v \<Longrightarrow> v < 2 ^ 63 \<Longrightarrow> - (2 ^ 63) \<le> w \<Longrightarrow> w < 2 ^ 63 \<Longrightarrow> dec_int v = dec_int w \<Longrightarrow> v = w"
  by (metis key_number_dec_int option.inject)

lemma array_keys_ok:
  assumes "length js < 2 ^ 30"
  shows "distinct (array_keys js)" "list_all key_canonical (array_keys js)"
proof -
  have "inj_on (\<lambda>i. dec_int (int i)) {0..<length js}"
    using assms by (intro inj_onI) (auto dest!: dec_int_inj [rotated 4])
  then show "distinct (array_keys js)" by (simp add: array_keys_def distinct_map)
  show "list_all key_canonical (array_keys js)"
    using assms by (auto simp: array_keys_def list_all_iff intro!: key_canonical_dec_int)
qed

lemma length_array_keys [simp]: "length (array_keys js) = length js"
  by (simp add: array_keys_def)

text \<open>The keys and documents that a container stores.\<close>

definition json_members_of :: "json \<Rightarrow> (string \<times> json) list" where
  "json_members_of j = (case j of JObject ms \<Rightarrow> ms | JArray js \<Rightarrow> zip (array_keys js) js | _ \<Rightarrow> [])"

lemma json_members_ok:
  assumes "json_ok j"
  shows "distinct (map fst (json_members_of j))" "list_all (\<lambda>(k, j). key_canonical k \<and> json_ok j) (json_members_of j)"
proof -
  show "distinct (map fst (json_members_of j))"
  proof (cases j)
    case (JArray js)
    with assms have "length js < 2 ^ 30" by simp
    from array_keys_ok(1) [OF this] show ?thesis by (simp add: json_members_of_def JArray)
  qed (use assms in \<open>simp_all add: json_members_of_def\<close>)
  show "list_all (\<lambda>(k, j). key_canonical k \<and> json_ok j) (json_members_of j)"
  proof (cases j)
    case (JArray js)
    with assms have "length js < 2 ^ 30" "list_all json_ok js" by simp_all
    with array_keys_ok(2) [OF this(1)] show ?thesis
      by (auto simp: json_members_of_def JArray list_all_iff dest: set_zip_leftD set_zip_rightD)
  qed (use assms in \<open>simp_all add: json_members_of_def\<close>)
qed

lemma json_leaf_container:
  "json_is_container j \<Longrightarrow> json_leaf j [] = None \<and>
     json_leaf j (q # qs) = (case map_of (json_members_of j) q of None \<Rightarrow> None | Some j \<Rightarrow> json_leaf j qs)"
  by (cases j) (auto simp: json_is_container_def json_members_of_def)

lemma set_r_container:
  "json_is_container j \<Longrightarrow> data_cache_set_r j = set_container (map (map_prod id data_cache_set_r) (json_members_of j))"
  "json_is_container j \<Longrightarrow> data_cache_set_root j =
     set_members (map (map_prod id data_cache_set_r) (json_members_of j)) treenode_new_internal"
  by (cases j; simp add: json_is_container_def json_members_of_def data_cache_set_root_def zip_map2 map_prod_def id_def)+

lemma members_size: "(k, x) \<in> set (json_members_of j) \<Longrightarrow> size x < size j"
proof (cases j)
  case (JArray js)
  assume "(k, x) \<in> set (json_members_of j)"
  then have "x \<in> set js" by (auto simp: JArray json_members_of_def dest: set_zip_rightD)
  then show ?thesis unfolding JArray by (rule size_json_member)
next
  case (JObject ms)
  assume "(k, x) \<in> set (json_members_of j)"
  then have "(k, x) \<in> set ms" by (simp add: JObject json_members_of_def)
  then show ?thesis unfolding JObject by (rule size_json_member)
qed (simp_all add: json_members_of_def)

lemma members_setters:
  "(\<And>k x. (k, x) \<in> set ms \<Longrightarrow> stores (data_cache_set_r x) x) \<Longrightarrow>
   list_all2 (\<lambda>(k, f) (k', j). k = k' \<and> stores f j) (map (map_prod id data_cache_set_r) ms) ms"
  by (auto simp: list_all2_map1 list_all2_same)

lemma set_r_stores: "json_ok j \<Longrightarrow> stores (data_cache_set_r j) j"
proof (induction j rule: measure_induct_rule [where f = size])
  case (less j)
  show ?case
  proof (cases "json_is_container j")
    case True
    note ok = json_members_ok [OF less.prems]
    have "stores (data_cache_set_r x) x" if "(k, x) \<in> set (json_members_of j)" for k x
      using less.IH [OF members_size [OF that]] ok(2) that by (auto simp: list_all_iff)
    then have "list_all2 (\<lambda>(k, f) (k', j). k = k' \<and> stores f j)
        (map (map_prod id data_cache_set_r) (json_members_of j)) (json_members_of j)"
      by (rule members_setters)
    moreover have "list_all (\<lambda>(k, j). key_canonical k) (json_members_of j)" using ok(2) by (auto simp: list_all_iff)
    ultimately show ?thesis
      using set_container_stores [OF _ ok(1)] json_leaf_container [OF True] set_r_container(1) [OF True] by simp
  next
    case False
    note leaf = stores_new_leaf [where f = "data_cache_set_r j"]
    show ?thesis
    proof (cases j)
      case JNull
      have "represents None JNull" by (simp add: represents_def)
      then show ?thesis
        unfolding JNull stores_def using internal_remove_update
        by (fastforce simp: json_is_container_def good_internal_def)
    next
      case (JBool b)
      show ?thesis by (rule leaf [where v = "TN_bool b"])
        (auto simp: JBool json_is_container_def good_internal_def internal_add_new_bool_def)
    next
      case (JInt i)
      show ?thesis by (rule leaf [where v = "TN_number None (double_of_int i)"])
        (auto simp: JInt json_is_container_def good_internal_def internal_add_new_number_def)
    next
      case (JDouble d)
      show ?thesis by (rule leaf [where v = "TN_number None d"])
        (auto simp: JDouble json_is_container_def good_internal_def internal_add_new_number_def)
    next
      case (JString s)
      show ?thesis by (rule leaf [where v = "TN_string None (c_str s 0)"])
        (auto simp: JString json_is_container_def good_internal_def internal_add_new_string_def)
    qed (use False in \<open>simp_all add: json_is_container_def\<close>)
  qed
qed

section \<open>The cache as a map from paths to values\<close>

definition cache_wf :: "data_cache \<Rightarrow> bool" where
  "cache_wf cache \<longleftrightarrow> (case dc_root cache of None \<Rightarrow> False | Some root \<Rightarrow> tn_wf root \<and> tn_coherent root)"

definition cache_no_null :: "data_cache \<Rightarrow> bool" where
  "cache_no_null cache \<longleftrightarrow> (case dc_root cache of None \<Rightarrow> False | Some root \<Rightarrow> tn_no_null root)"

definition cache_value :: "data_cache \<Rightarrow> string list \<Rightarrow> leaf option" where
  "cache_value cache q = (case dc_root cache of None \<Rightarrow> None | Some root \<Rightarrow> tn_leaf root q)"

text \<open>The abstract operations on the map of values.\<close>

definition set_value :: "string list \<Rightarrow> (string list \<Rightarrow> leaf option) \<Rightarrow> (string list \<Rightarrow> leaf option) \<Rightarrow> string list \<Rightarrow> leaf option" where
  "set_value p new m q =
     (if prefix p q then new (drop (length p) q) else if prefix q p then None else m q)"

definition merge_value :: "string list \<Rightarrow> (string \<times> json) list \<Rightarrow> (string list \<Rightarrow> leaf option) \<Rightarrow> string list \<Rightarrow> leaf option" where
  "merge_value p ms m q =
     (if prefix q p then None
      else if prefix p q
      then case map_of ms (q ! length p) of None \<Rightarrow> m q | Some j \<Rightarrow> json_leaf j (drop (length p + 1) q)
      else m q)"

lemma set_value_snoc:
  "set_value (bl @ [k]) new m q =
     (if prefix q bl then None
      else if prefix bl q then (if q ! length bl = k then new (drop (length bl + 1) q) else m q)
      else m q)"
proof (cases "prefix bl q")
  case True
  then obtain zs where "q = bl @ zs" by (auto simp: prefix_def)
  then show ?thesis by (cases zs) (auto simp: set_value_def)
next
  case False
  then have "\<not> prefix (bl @ [k]) q" using append_prefixD by blast
  moreover have "prefix q (bl @ [k]) \<longleftrightarrow> prefix q bl" using False by (auto simp: prefix_snoc)
  ultimately show ?thesis using False by (simp add: set_value_def)
qed

lemma mkpath_w_result:
  assumes "dc_root cache = Some root" "tn_good root" "canonical ks"
  shows "\<exists>r'. data_cache_mkpath_w cache ks True False = Inr (cache\<lparr>dc_root := Some r'\<rparr>) \<and> path_open r' ks \<and>
    (tn_no_null root \<longrightarrow> tn_no_null r') \<and>
    (\<forall>q. canonical q \<longrightarrow> tn_leaf r' q = (if prefix q ks then None else tn_leaf root q))"
proof -
  let ?root = "reset_hash (if tn_is_internal root then root else treenode_new_internal)"
  have "good_internal ?root"
    using assms(2) good_internal_reset by (auto simp: treenode_new_internal_def)
  then obtain r' where r': "mkpath_loop True False ks ?root = Inr r'" "mkpath_result ?root ks r'"
    using mkpath_loop_result assms(3) by blast
  have leaf: "tn_leaf ?root q = tn_leaf root q" if "\<not> prefix q ks" for q
    using that by (cases root; cases q) (auto simp: treenode_new_internal_def)
  have nn: "tn_no_null ?root" if "tn_no_null root"
    using that by (simp add: treenode_new_internal_def avl_elems_def avl_new_def)
  have "data_cache_mkpath_w cache ks True False = Inr (cache\<lparr>dc_root := Some r'\<rparr>)"
    using r'(1) assms(1) by (simp add: data_cache_mkpath_w_def Let_def split: if_splits)
  then show ?thesis using r'(2) leaf nn by (auto simp: mkpath_result_def)
qed

lemma leaf_node_at: "path_open r ps \<Longrightarrow> node_at r ps = Some n \<Longrightarrow> tn_leaf r (ps @ qs) = tn_leaf n qs"
  by (induction ps arbitrary: r) (auto simp: good_internal_def tn_children_def)

text \<open>Writing at a path that has just been made.\<close>

lemma cache_write_result:
  assumes root: "dc_root cache = Some root" "tn_good root" and ks: "canonical ks"
    and f: "\<And>n. good_internal n \<Longrightarrow> \<exists>n'. f n = Inr n' \<and> good_internal n' \<and> (nn \<longrightarrow> tn_no_null n \<longrightarrow> tn_no_null n') \<and>
        (\<forall>q qs. canonical (q # qs) \<longrightarrow> tn_leaf n' (q # qs) = g q qs (tn_leaf n (q # qs)))"
  shows "\<exists>cache' r'. rbind (data_cache_mkpath_w cache ks True False) (\<lambda>cache. cache_write cache ks f) = Inr cache' \<and>
    dc_root cache' = Some r' \<and> good_internal r' \<and> (nn \<longrightarrow> tn_no_null root \<longrightarrow> tn_no_null r') \<and>
    (\<forall>q. canonical q \<longrightarrow> tn_leaf r' q =
      (if prefix q ks then None
       else if prefix ks q then g (q ! length ks) (drop (length ks + 1) q) (tn_leaf root q)
       else tn_leaf root q))"
proof -
  obtain r1 where r1: "data_cache_mkpath_w cache ks True False = Inr (cache\<lparr>dc_root := Some r1\<rparr>)" "path_open r1 ks"
    "tn_no_null root \<longrightarrow> tn_no_null r1"
    "\<And>q. canonical q \<Longrightarrow> tn_leaf r1 q = (if prefix q ks then None else tn_leaf root q)"
    using mkpath_w_result [OF root ks] by blast
  obtain n where n: "node_at r1 ks = Some n" "good_internal n" "tn_no_null r1 \<longrightarrow> tn_no_null n"
    using path_open_node [OF r1(2) ks] by blast
  obtain n' where n': "f n = Inr n'" "good_internal n'" "nn \<longrightarrow> tn_no_null n \<longrightarrow> tn_no_null n'"
    "\<And>q qs. canonical (q # qs) \<Longrightarrow> tn_leaf n' (q # qs) = g q qs (tn_leaf n (q # qs))"
    using f [OF n(2)] by blast
  obtain r' where r': "node_write ks f r1 = Inr r'" "good_internal r'" "tn_no_null r1 \<longrightarrow> tn_no_null n' \<longrightarrow> tn_no_null r'"
    "\<And>q. canonical q \<Longrightarrow> tn_leaf r' q = (if prefix ks q then tn_leaf n' (drop (length ks) q) else tn_leaf r1 q)"
    using node_write_result [where f = f, OF r1(2) ks n(1) n'(1,2)] by blast
  have leaf: "tn_leaf r' q = (if prefix q ks then None
       else if prefix ks q then g (q ! length ks) (drop (length ks + 1) q) (tn_leaf root q)
       else tn_leaf root q)" if q: "canonical q" for q
  proof (cases "prefix ks q")
    case True
    then obtain qs where qs: "q = ks @ qs" by (auto simp: prefix_def)
    show ?thesis
    proof (cases qs)
      case Nil
      then show ?thesis using r'(4) [OF q] qs good_internal_leaf_Nil [OF n'(2)] by simp
    next
      case (Cons x xs)
      have "tn_leaf n (x # xs) = tn_leaf root q"
        using leaf_node_at [OF r1(2) n(1), of qs] r1(4) [OF q] qs Cons by simp
      moreover have "canonical (x # xs)" using q qs Cons by simp
      ultimately show ?thesis using r'(4) [OF q] n'(4) [of x xs] qs Cons by simp
    qed
  next
    case False
    then show ?thesis using r'(4) [OF q] r1(4) [OF q] by simp
  qed
  show ?thesis
    using r1(1,3) n(3) n'(3) r'(1-3) leaf by (auto simp: cache_write_def)
qed

lemma replace_child_result:
  assumes "stores f j" "good_internal n" "key_canonical k"
  shows "\<exists>n' v. rbind (internal_remove n k) (\<lambda>n. f n k) = Inr n' \<and> child_update n n' k v \<and> represents v j"
proof -
  obtain n1 where n1: "internal_remove n k = Inr n1" "child_update n n1 k None"
    using internal_remove_update [OF assms(2,3)] by blast
  then obtain n' v where "f n1 k = Inr n'" "child_update n1 n' k v" "represents v j"
    using assms(1,3) child_updateE [OF n1(2)] unfolding stores_def by fastforce
  then show ?thesis using n1 child_update_trans [OF n1(2)] by auto
qed

lemma merge_members_result:
  "list_all (\<lambda>(k, j). key_canonical k \<and> json_ok j) ms \<Longrightarrow> distinct (map fst ms) \<Longrightarrow> good_internal n \<Longrightarrow>
   \<exists>n'. fold (\<lambda>(key, val) r. rbind r (\<lambda>n. rbind (internal_remove n key) (\<lambda>n. data_cache_set_r val n key))) ms (Inr n) = Inr n' \<and>
     good_internal n' \<and> (tn_no_null n \<longrightarrow> tn_no_null n') \<and>
     (\<forall>q qs. canonical (q # qs) \<longrightarrow> tn_leaf n' (q # qs) =
        (case map_of ms q of None \<Rightarrow> tn_leaf n (q # qs) | Some j \<Rightarrow> json_leaf j qs))"
proof (induction ms arbitrary: n)
  case Nil
  then show ?case by auto
next
  case (Cons m ms)
  obtain k j where m: "m = (k, j)" "key_canonical k" "json_ok j" "k \<notin> fst ` set ms" using Cons.prems by (cases m) auto
  obtain n1 v where n1: "rbind (internal_remove n k) (\<lambda>n. data_cache_set_r j n k) = Inr n1" and u: "child_update n n1 k v"
    and v: "represents v j"
    using replace_child_result [OF set_r_stores [OF m(3)] Cons.prems(3) m(2)] by blast
  obtain n' where n': "fold (\<lambda>(key, val) r. rbind r (\<lambda>n. rbind (internal_remove n key) (\<lambda>n. data_cache_set_r val n key))) ms (Inr n1) = Inr n'"
    "good_internal n'" "tn_no_null n1 \<longrightarrow> tn_no_null n'"
    and leaf: "\<And>q qs. canonical (q # qs) \<Longrightarrow> tn_leaf n' (q # qs) =
        (case map_of ms q of None \<Rightarrow> tn_leaf n1 (q # qs) | Some j \<Rightarrow> json_leaf j qs)"
    using Cons.IH [of n1] Cons.prems child_updateE(1) [OF u] by auto
  have nn: "tn_no_null n \<longrightarrow> tn_no_null n1"
    using child_update_no_null [OF u Cons.prems(3)] v by (simp add: represents_def)
  have "tn_leaf n' (q # qs) = (case map_of (m # ms) q of None \<Rightarrow> tn_leaf n (q # qs) | Some j \<Rightarrow> json_leaf j qs)"
    if q: "canonical (q # qs)" for q qs
  proof (cases "q = k")
    case True
    then have "map_of ms q = None" using m(4) by (simp add: map_of_eq_None_iff)
    then show ?thesis using leaf [OF q] child_update_leaf [OF u, of q qs] q v True m(1) by (simp add: represents_def)
  next
    case False
    then show ?thesis using leaf [OF q] child_update_leaf [OF u, of q qs] q m(1) by (simp split: option.split)
  qed
  then show ?case using n' nn n1 m(1) by (auto simp del: tn_leaf.simps)
qed

lemma set_root_result:
  assumes "json_ok j"
  shows "\<exists>r. data_cache_set_root j = Inr r \<and> tn_good r \<and> tn_no_null r \<and>
    (\<forall>q. canonical q \<longrightarrow> tn_leaf r q = json_leaf j q)"
proof (cases "json_is_container j")
  case True
  note ok = json_members_ok [OF assms]
  let ?ms = "json_members_of j"
  have "list_all2 (\<lambda>(k, f) (k', j). k = k' \<and> stores f j) (map (map_prod id data_cache_set_r) ?ms) ?ms"
    by (rule members_setters) (use ok(2) set_r_stores in \<open>auto simp: list_all_iff\<close>)
  then obtain r where r: "data_cache_set_root j = Inr r" "good_internal r" "tn_no_null r"
    "\<And>q qs. canonical (q # qs) \<Longrightarrow> tn_leaf r (q # qs) = (case map_of ?ms q of None \<Rightarrow> None | Some j \<Rightarrow> json_leaf j qs)"
    using set_members_result [OF _ ok(1) _ good_internal_new, of "map (map_prod id data_cache_set_r) ?ms"] ok(2)
      set_r_container(2) [OF True]
    by (auto simp: tn_children_def list_all_iff treenode_new_internal_def case_prod_beta cong: option.case_cong)
  have "tn_leaf r q = json_leaf j q" if "canonical q" for q
    using that r(4) json_leaf_container [OF True] good_internal_leaf_Nil [OF r(2)] by (cases q) auto
  then show ?thesis using r good_internal_tn_good by blast
next
  case False
  then show ?thesis
    by (cases j) (auto simp: json_is_container_def data_cache_set_root_def treenode_new_bool_def
        treenode_new_number_def treenode_new_string_def treenode_new_null_def)
qed

section \<open>Properties\<close>

lemma cache_wfE:
  assumes "cache_wf cache"
  obtains root where "dc_root cache = Some root" "tn_good root"
  using assms by (auto simp: cache_wf_def tn_good_def split: option.splits)

lemma set_ex_result:
  assumes "cache_wf cache" "canonical (path_parts path)" "json_ok j"
  shows "\<exists>cache'. data_cache_set_ex cache path j = Inr cache' \<and> cache_wf cache' \<and>
    (cache_no_null cache \<longrightarrow> cache_no_null cache') \<and>
    (\<forall>q. canonical q \<longrightarrow> cache_value cache' q = set_value (path_parts path) (json_leaf j) (cache_value cache) q)"
proof (cases "path_parts path = []")
  case True
  then show ?thesis
    using set_root_result [OF assms(3)]
    by (auto simp: data_cache_set_ex_def data_cache_empty_def cache_wf_def tn_good_def cache_no_null_def
        cache_value_def set_value_def)
next
  case False
  define bl k where "bl = butlast (path_parts path)" and "k = last (path_parts path)"
  have p: "path_parts path = bl @ [k]" using False by (simp add: bl_def k_def)
  then have can: "canonical bl" "key_canonical k" using assms(2) by simp_all
  obtain root where root: "dc_root cache = Some root" "tn_good root" using assms(1) by (rule cache_wfE)
  let ?g = "\<lambda>q qs old. if q = k then json_leaf j qs else old"
  let ?f = "\<lambda>n. rbind (internal_remove n k) (\<lambda>n. data_cache_set_r j n k)"
  have f: "\<exists>n'. ?f n = Inr n' \<and> good_internal n' \<and> (True \<longrightarrow> tn_no_null n \<longrightarrow> tn_no_null n') \<and>
      (\<forall>q qs. canonical (q # qs) \<longrightarrow> tn_leaf n' (q # qs) = ?g q qs (tn_leaf n (q # qs)))"
    if n: "good_internal n" for n
    using replace_child_result [OF set_r_stores [OF assms(3)] n can(2)] child_updateE(1)
      child_update_no_null [OF _ n] child_update_leaf by (fastforce simp: represents_def simp del: tn_leaf.simps)
  obtain cache' r' where c: "rbind (data_cache_mkpath_w cache bl True False) (\<lambda>cache. cache_write cache bl ?f) = Inr cache'"
    "dc_root cache' = Some r'" "good_internal r'" "tn_no_null root \<longrightarrow> tn_no_null r'"
    "\<And>q. canonical q \<Longrightarrow> tn_leaf r' q = (if prefix q bl then None
       else if prefix bl q then ?g (q ! length bl) (drop (length bl + 1) q) (tn_leaf root q) else tn_leaf root q)"
    using cache_write_result [where g = ?g and nn = True and f = ?f, OF root can(1) f] by auto
  have "cache_value cache' q = set_value (path_parts path) (json_leaf j) (cache_value cache) q" if "canonical q" for q
    using c(5) [OF that] root(1) c(2) by (simp add: cache_value_def p set_value_snoc)
  then show ?thesis
    using c(1-4) root False good_internal_tn_good [OF c(3)]
    by (auto simp: data_cache_set_ex_def Let_def bl_def k_def cache_wf_def tn_good_def cache_no_null_def)
qed


text \<open>The empty cache and a document to fill it with.\<close>

definition path_of :: "string list \<Rightarrow> wc_ds_path" where
  "path_of ps = wc_datasync_path_new (norm_of ps)"

definition sample_doc :: json where
  "sample_doc = JObject [(''x'', JInt 3), (''y'', JArray [JBool True, JNull])]"


text \<open>
  Claim C4: merging an object at a path below the root always succeeds on a well-formed cache
  and refines the merge of the map of values: each member of the object replaces the value
  below its key, the other keys and all paths that are not below the path keep their values,
  and no ancestor of the path holds a value any more. The invariants are kept.
\<close>

theorem data_cache_merge_refines:
  assumes "cache_wf cache" "canonical (path_parts path)" "path_parts path \<noteq> []" "json_ok (JObject ms)"
  shows "\<exists>cache'. data_cache_merge_ex cache path (JObject ms) = Inr cache' \<and> cache_wf cache' \<and>
    (cache_no_null cache \<longrightarrow> cache_no_null cache') \<and>
    (\<forall>q. canonical q \<longrightarrow> cache_value cache' q = merge_value (path_parts path) ms (cache_value cache) q)"
proof -
  obtain root where root: "dc_root cache = Some root" "tn_good root" using assms(1) by (rule cache_wfE)
  let ?p = "path_parts path"
  let ?g = "\<lambda>q qs old. case map_of ms q of None \<Rightarrow> old | Some j \<Rightarrow> json_leaf j qs"
  have ok: "list_all (\<lambda>(k, j). key_canonical k \<and> json_ok j) ms" "distinct (map fst ms)" using assms(4) by simp_all
  let ?f = "\<lambda>n. fold (\<lambda>(key, val) r. rbind r (\<lambda>n. rbind (internal_remove n key) (\<lambda>n. data_cache_set_r val n key))) ms (Inr n)"
  have f: "\<exists>n'. ?f n = Inr n' \<and> good_internal n' \<and> (True \<longrightarrow> tn_no_null n \<longrightarrow> tn_no_null n') \<and>
      (\<forall>q qs. canonical (q # qs) \<longrightarrow> tn_leaf n' (q # qs) = ?g q qs (tn_leaf n (q # qs)))" if "good_internal n" for n
    using merge_members_result [OF ok that] by simp
  have "data_cache_merge_ex cache path (JObject ms) =
      rbind (data_cache_mkpath_w cache ?p True False) (\<lambda>cache. cache_write cache ?p ?f)"
    using assms(3) by (simp add: data_cache_merge_ex_def Let_def)
  then obtain cache' r' where c: "data_cache_merge_ex cache path (JObject ms) = Inr cache'"
    "dc_root cache' = Some r'" "good_internal r'" "tn_no_null root \<longrightarrow> tn_no_null r'"
    "\<And>q. canonical q \<Longrightarrow> tn_leaf r' q = (if prefix q ?p then None
       else if prefix ?p q then ?g (q ! length ?p) (drop (length ?p + 1) q) (tn_leaf root q) else tn_leaf root q)"
    using cache_write_result [where g = ?g and nn = True and f = ?f, OF root assms(2) f] by auto
  show ?thesis
    using c root good_internal_tn_good [OF c(3)]
    by (auto simp: cache_wf_def tn_good_def cache_no_null_def cache_value_def merge_value_def cong: option.case_cong)
qed

theorem data_cache_merge_refines_witness:
  "\<exists>cache'. data_cache_merge_ex data_cache_new (wc_datasync_path_new ''/a'') sample_doc = Inr cache' \<and>
     cache_value cache' [''a'', ''x''] = Some (L_number (double_of_int 3))"
proof -
  have wf: "cache_wf data_cache_new"
    by (simp add: cache_wf_def data_cache_new_def treenode_new_null_def)
  have parts: "path_parts (wc_datasync_path_new ''/a'') = [''a'']" by code_simp
  have keys: "key_canonical ''a''" "key_canonical ''x''" "key_canonical ''y''" by code_simp+
  have ok: "json_ok sample_doc" using keys by (simp add: sample_doc_def)
  show ?thesis
    using data_cache_merge_refines [OF wf _ _ ok [unfolded sample_doc_def], of "wc_datasync_path_new ''/a''"] keys
    by (auto simp: parts merge_value_def sample_doc_def)
qed

text \<open>
  A merge at the root is not a merge: it drops everything the cache holds and keeps
  only the merged object.
\<close>

lemma data_cache_merge_root_replaces:
  assumes "path_parts path = []" "json_ok (JObject ms)"
  shows "\<exists>cache'. data_cache_merge_ex cache path (JObject ms) = Inr cache' \<and>
    (\<forall>q. canonical q \<longrightarrow> cache_value cache' q = json_leaf (JObject ms) q)"
  using set_root_result [OF assms(2)] assms(1)
  by (auto simp: data_cache_merge_ex_def data_cache_empty_def cache_value_def)

theorem data_cache_merge_root_replaces_witness:
  "\<exists>cache'. data_cache_merge_ex \<lparr>dc_root = Some (TN_internal None (AVL (Node NIL (''a'', TN_bool True) 1 NIL) 1))\<rparr>
     (wc_datasync_path_new ''/'') (JObject [(''b'', JBool True)]) = Inr cache' \<and>
     cache_value \<lparr>dc_root = Some (TN_internal None (AVL (Node NIL (''a'', TN_bool True) 1 NIL) 1))\<rparr> [''a''] = Some (L_bool True) \<and>
     cache_value cache' [''a''] = None"
proof -
  have parts: "path_parts (wc_datasync_path_new ''/'') = []" by code_simp
  have keys: "key_canonical ''a''" "key_canonical ''b''" by code_simp+
  have self: "internal_element_key_cmp ''a'' ''a'' = 0" using keys by simp
  show ?thesis
    using data_cache_merge_root_replaces [OF parts, of "[(''b'', JBool True)]"] keys self
    by (fastforce simp: cache_value_def child_def avl_get_def)
qed

lemma get_r_leaf:
  "tn_leaf n (ps @ qs) = (case data_cache_get_r n ps of None \<Rightarrow> None | Some m \<Rightarrow> tn_leaf m qs)"
proof (induction ps arbitrary: n)
  case (Cons k ks)
  then show ?case by (cases n) (auto simp: child_def split: option.splits)
qed simp

lemma get_r_good: "tn_good n \<Longrightarrow> canonical ps \<Longrightarrow> data_cache_get_r n ps = Some m \<Longrightarrow> tn_good m"
proof (induction ps arbitrary: n)
  case (Cons k ks)
  then obtain h t where n: "n = TN_internal h t" by (cases n) auto
  with Cons.prems obtain c where "child t k = Some c" "data_cache_get_r c ks = Some m"
    by (auto simp: child_def split: option.splits)
  then show ?case using Cons.IH tn_good_childD [of h t k c] Cons.prems n by auto
qed simp

text \<open>
  Claim C19: reading a path never fails on a well-formed cache; the node it returns is well
  formed with coherent hashes and holds exactly the values that the cache has below the path,
  and when nothing is returned the cache has no value there.
\<close>

theorem data_cache_get_reads:
  assumes "cache_wf cache" "canonical (path_parts path)"
  shows "\<exists>r. data_cache_get_parsed cache path = Inr r \<and>
    (\<forall>n. r = Some n \<longrightarrow> tn_wf n \<and> tn_coherent n) \<and>
    (\<forall>q. cache_value cache (path_parts path @ q) = (case r of None \<Rightarrow> None | Some n \<Rightarrow> tn_leaf n q))"
proof -
  obtain root where root: "dc_root cache = Some root" "tn_good root" using assms(1) by (rule cache_wfE)
  then show ?thesis
    using get_r_good [OF root(2) assms(2)] get_r_leaf [of root "path_parts path"]
    by (auto simp: data_cache_get_parsed_def cache_value_def tn_good_def)
qed

theorem data_cache_get_reads_witness:
  "\<exists>r. data_cache_get_parsed \<lparr>dc_root = Some (TN_string None ''v'')\<rparr> (wc_datasync_path_new ''/'') = Inr r \<and>
     (case r of None \<Rightarrow> None | Some n \<Rightarrow> tn_leaf n []) = Some (L_string ''v'')"
proof -
  have parts: "path_parts (wc_datasync_path_new ''/'') = []" by code_simp
  have wf: "cache_wf \<lparr>dc_root = Some (TN_string None ''v'')\<rparr>" by (simp add: cache_wf_def)
  show ?thesis
    using data_cache_get_reads [OF wf, of "wc_datasync_path_new ''/''"]
    by (auto simp: cache_value_def parts dest: spec [of _ "[]"])
qed

text \<open>
  Setting a leaf at a path succeeds and refines the same update of the map of values;
  the path of the parents is created on the way. (Setting a null leaf stores a null child, so
  that only the other invariants are kept.)
\<close>

lemma data_cache_set_leaf_refines:
  assumes "cache_wf cache" "canonical (path_parts (wc_datasync_path_new path))" "\<not> tn_is_internal leaf" "tn_good leaf"
  shows "\<exists>cache'. data_cache_set_leaf cache path leaf = Inr cache' \<and> cache_wf cache' \<and>
    (\<forall>q. canonical q \<longrightarrow> cache_value cache' q =
       set_value (path_parts (wc_datasync_path_new path)) (tn_leaf leaf) (cache_value cache) q)"
proof -
  let ?p = "path_parts (wc_datasync_path_new path)"
  have cp: "tn_leaf (treenode_copy leaf) qs = tn_leaf leaf qs" for qs using assms(3) by (cases leaf) auto
  have gcp: "tn_good (treenode_copy leaf)" using copy_correct assms(4) by (simp add: tn_good_def)
  show ?thesis
  proof (cases "?p = []")
    case True
    then show ?thesis using assms(3) gcp cp
      by (auto simp: data_cache_set_leaf_def Let_def data_cache_empty_def cache_wf_def tn_good_def cache_value_def set_value_def)
  next
    case False
    define bl k where "bl = butlast ?p" and "k = last ?p"
    have p: "?p = bl @ [k]" using False by (simp add: bl_def k_def)
    then have can: "canonical bl" "key_canonical k" using assms(2) by simp_all
    obtain root where root: "dc_root cache = Some root" "tn_good root" using assms(1) by (rule cache_wfE)
    let ?f = "\<lambda>n. rbind (internal_remove n k) (\<lambda>n. rbind (internal_add_new n k leaf) (\<lambda>(ok, n). Inr n))"
    let ?g = "\<lambda>q qs old. if q = k then tn_leaf leaf qs else old"
    have "\<exists>n'. ?f n = Inr n' \<and> child_update n n' k (Some (treenode_copy leaf))" if n: "good_internal n" for n
    proof -
      obtain n1 where n1: "internal_remove n k = Inr n1" "child_update n n1 k None"
        using internal_remove_update [OF n can(2)] by blast
      then obtain n2 where "internal_add_new n1 k leaf = Inr (True, n2)" "child_update n1 n2 k (Some (treenode_copy leaf))"
        using internal_add_new_update [OF child_updateE(1) [OF n1(2)] can(2) _ assms(4)] child_updateE(2) [OF n1(2) can(2)] by auto
      then show ?thesis using n1 child_update_trans by auto
    qed
    then have f: "\<exists>n'. ?f n = Inr n' \<and> good_internal n' \<and>
        (\<forall>q qs. canonical (q # qs) \<longrightarrow> tn_leaf n' (q # qs) = ?g q qs (tn_leaf n (q # qs)))" if n: "good_internal n" for n
      using child_updateE(1) child_update_leaf cp n by (fastforce simp del: tn_leaf.simps)
    then obtain cache' r' where c: "rbind (data_cache_mkpath_w cache bl True False) (\<lambda>cache. cache_write cache bl ?f) = Inr cache'"
      "dc_root cache' = Some r'" "good_internal r'"
      "\<And>q. canonical q \<Longrightarrow> tn_leaf r' q = (if prefix q bl then None
         else if prefix bl q then ?g (q ! length bl) (drop (length bl + 1) q) (tn_leaf root q) else tn_leaf root q)"
      using cache_write_result [where g = ?g and nn = False and f = ?f, OF root can(1)] by auto
    have "cache_value cache' q = set_value ?p (tn_leaf leaf) (cache_value cache) q" if "canonical q" for q
      using c(4) [OF that] root(1) c(2) by (simp add: cache_value_def p set_value_snoc)
    moreover have "data_cache_set_leaf cache path leaf = Inr cache'"
      using c(1) False assms(3) by (simp add: data_cache_set_leaf_def Let_def bl_def k_def)
    ultimately show ?thesis
      using c(2) good_internal_tn_good [OF c(3)] by (auto simp: cache_wf_def tn_good_def)
  qed
qed

lemma data_cache_set_leaf_refines_witness:
  "\<exists>cache'. data_cache_set_leaf data_cache_new ''/a/b'' (TN_bool True) = Inr cache' \<and>
     cache_value cache' [''a'', ''b''] = Some (L_bool True)"
proof -
  have wf: "cache_wf data_cache_new"
    by (simp add: cache_wf_def data_cache_new_def treenode_new_null_def)
  have parts: "path_parts (wc_datasync_path_new ''/a/b'') = [''a'', ''b'']" by code_simp
  have keys: "key_canonical ''a''" "key_canonical ''b''" by code_simp+
  show ?thesis
    using data_cache_set_leaf_refines [OF wf, of "''/a/b''" "TN_bool True"] keys
    by (auto simp: parts set_value_def)
qed

end
