(* ===== verification/Push_Id.thy ===== *)
theory Push_Id
  imports Base64
begin

text \<open>
  Push identifiers (\<^verbatim>\<open>lib/datasync/datasync_utils.c\<close>): the random bytes, the
  order-preserving base-64 encoding and the identifier made of a time stamp and of random bits
  that are incremented within a millisecond.

  The lemmas show that the encoding is the fixed-width base-64 numeral of its input and lead to
  the property identifiers are made for: later identifiers are greater as strings.
\<close>

section \<open>Random bytes\<close>

text \<open>
  \<open>lrand48\<close> stands for the C library's generator: from its buffer, the next random number
  and the buffer after it.
\<close>

definition RANDOM_BYTES_PER_LRAND48 :: nat where "RANDOM_BYTES_PER_LRAND48 = 3"

definition low_bytes :: "nat \<Rightarrow> int \<Rightarrow> byte list" where
  "low_bytes n rnd = map (\<lambda>j. word_of_int (drop_bit (8 * j) rnd)) [0..<n]"

fun rand_chunks :: "('g \<Rightarrow> int \<times> 'g) \<Rightarrow> nat \<Rightarrow> 'g \<Rightarrow> byte list \<times> 'g" where
  "rand_chunks lrand48 0 g = ([], g)"
| "rand_chunks lrand48 (Suc i) g =
     (let (rnd, g) = lrand48 g; (bs, g) = rand_chunks lrand48 i g
      in (low_bytes RANDOM_BYTES_PER_LRAND48 rnd @ bs, g))"

definition rand_bytes :: "('g \<Rightarrow> int \<times> 'g) \<Rightarrow> nat \<Rightarrow> 'g \<Rightarrow> byte list \<times> 'g" where
  "rand_bytes lrand48 num g =
     (let (bs, g) = rand_chunks lrand48 (num div RANDOM_BYTES_PER_LRAND48) g
      in if num mod RANDOM_BYTES_PER_LRAND48 > 0
         then let (rnd, g) = lrand48 g in (bs @ low_bytes (num mod RANDOM_BYTES_PER_LRAND48) rnd, g)
         else (bs, g))"

section \<open>Encoding\<close>

definition b64ish_base :: string where
  "b64ish_base = ''-0123456789ABCDEFGHIJKLMNOPQRSTUVWXYZ_abcdefghijklmnopqrstuvwxyz''"

definition b64ish_at :: "int \<Rightarrow> char" where
  "b64ish_at i = b64ish_base ! nat i"

text \<open>
  The input is consumed and the output written from the end: \<open>inp\<close> is the reversed input,
  \<open>out\<close> what has been written so far.
\<close>

fun b64ish_groups :: "nat \<Rightarrow> byte list \<Rightarrow> string \<Rightarrow> byte list \<times> string" where
  "b64ish_groups (Suc ndiv) (a # b # c # inp) out =
     (let tmp = uint a + push_bit 8 (uint b) + push_bit 16 (uint c)
      in b64ish_groups ndiv inp
           (b64ish_at (drop_bit 18 tmp AND 0x3f) # b64ish_at (drop_bit 12 tmp AND 0x3f) #
            b64ish_at (drop_bit 6 tmp AND 0x3f) # b64ish_at (tmp AND 0x3f) # out))"
| "b64ish_groups _ inp out = (inp, out)"

definition wc_b64ish_encode :: "byte list \<Rightarrow> string" where
  "wc_b64ish_encode bs =
     (let ndiv = length bs div 3; nmod = length bs mod 3;
          (inp, out) = b64ish_groups ndiv (rev bs) []
      in if nmod = 2
         then let tmp = uint (inp ! 0) + push_bit 8 (uint (inp ! 1))
              in b64ish_at (drop_bit 18 tmp AND 0x3f) # b64ish_at (drop_bit 6 tmp AND 0x3f) #
                 b64ish_at (tmp AND 0x3f) # out
         else if nmod = 1
         then let tmp = uint (inp ! 0)
              in b64ish_at (drop_bit 6 tmp AND 0x3f) # b64ish_at (tmp AND 0x3f) # out
         else out)"

section \<open>Identifiers\<close>

record 'g pushid_state =
  last_time :: "64 word"
  lastrand :: "byte list"
  rand_buffer :: 'g

text \<open>The bytes of a 64-bit value in big-endian order, and back.\<close>

definition be64_bytes :: "64 word \<Rightarrow> byte list" where
  "be64_bytes w = map (\<lambda>i. ucast (drop_bit (8 * i) w)) [7, 6, 5, 4, 3, 2, 1, 0]"

definition be64_value :: "byte list \<Rightarrow> 64 word" where
  "be64_value bs = foldl (\<lambda>acc b. push_bit 8 acc OR ucast b) 0 bs"

definition wc_datasync_push_id ::
    "('g \<Rightarrow> int \<times> 'g) \<Rightarrow> 'g pushid_state \<Rightarrow> 64 word \<Rightarrow> string \<times> 'g pushid_state" where
  "wc_datasync_push_id lrand48 s time =
     (let t = wc_b64ish_encode (drop 2 (be64_bytes time));
          s = (if last_time s \<noteq> time
               then let (r, g) = rand_bytes lrand48 9 (rand_buffer s)
                    in s\<lparr>last_time := time, lastrand := r, rand_buffer := g\<rparr>
               else let low = be64_value (drop 1 (lastrand s)) + 1;
                        hi = (if low = 0 then lastrand s ! 0 + 1 else lastrand s ! 0)
                    in s\<lparr>lastrand := hi # be64_bytes low\<rparr>)
      in (t @ wc_b64ish_encode (lastrand s), s))"

text \<open>
  The clock: \<open>tv\<close> is what \<^verbatim>\<open>gettimeofday\<close> returns (seconds and microseconds).
\<close>

definition wc_datasync_now :: "int \<times> int \<Rightarrow> 64 word" where
  "wc_datasync_now tv = word_of_int (fst tv * 1000 + snd tv div 1000)"

definition wc_datasync_server_now :: "int \<times> int \<Rightarrow> 64 word \<Rightarrow> 64 word" where
  "wc_datasync_server_now tv time_offset = wc_datasync_now tv - time_offset"

definition wc_datasync_gen_push_id ::
    "('g \<Rightarrow> int \<times> 'g) \<Rightarrow> int \<times> int \<Rightarrow> 64 word \<Rightarrow> 'g pushid_state \<Rightarrow> string \<times> 'g pushid_state" where
  "wc_datasync_gen_push_id lrand48 tv time_offset pids =
     wc_datasync_push_id lrand48 pids (wc_datasync_server_now tv time_offset)"

text \<open>The identifiers of a sequence of calls at the given times, with the states they leave.\<close>

fun push_ids ::
    "('g \<Rightarrow> int \<times> 'g) \<Rightarrow> 'g pushid_state \<Rightarrow> 64 word list \<Rightarrow> (string \<times> 'g pushid_state) list" where
  "push_ids lrand48 s [] = []"
| "push_ids lrand48 s (t # ts) =
     (let r = wc_datasync_push_id lrand48 s t in r # push_ids lrand48 (snd r) ts)"

section \<open>Numerals\<close>

definition bytes_value :: "byte list \<Rightarrow> int" where
  "bytes_value bs = foldl (\<lambda>acc b. acc * 256 + uint b) 0 bs"

text \<open>The \<open>w\<close> low base-64 digits of a number, most significant first.\<close>

fun b64_digits :: "nat \<Rightarrow> int \<Rightarrow> int list" where
  "b64_digits 0 n = []"
| "b64_digits (Suc w) n = b64_digits w (n div 64) @ [n mod 64]"

lemma bytes_value_snoc: "bytes_value (bs @ [b]) = bytes_value bs * 256 + uint b"
  by (simp add: bytes_value_def)

lemma bytes_value_Nil [simp]: "bytes_value [] = 0"
  by (simp add: bytes_value_def)

lemma bytes_value_range: "0 \<le> bytes_value bs \<and> bytes_value bs < 256 ^ length bs"
proof (induction bs rule: rev_induct)
  case (snoc b bs)
  have "bytes_value bs * 256 + uint b < 256 * 256 ^ length bs"
    using snoc byte_range [of b] by linarith
  then show ?case using snoc byte_range [of b] by (simp add: bytes_value_snoc)
qed simp

lemma and_63: "x AND 0x3f = x mod 64" for x :: int
  by (simp only: and_masks)

lemma group_sextets:
  fixes v t :: int
  shows "(v * 2 ^ 24 + t) mod 64 = t mod 64"
    "(v * 2 ^ 24 + t) div 64 mod 64 = t div 64 mod 64"
    "(v * 2 ^ 24 + t) div 64 div 64 mod 64 = t div 2 ^ 12 mod 64"
    "(v * 2 ^ 24 + t) div 64 div 64 div 64 mod 64 = t div 2 ^ 18 mod 64"
    "0 \<le> t \<Longrightarrow> t < 2 ^ 24 \<Longrightarrow> (v * 2 ^ 24 + t) div 64 div 64 div 64 div 64 = v"
proof -
  have d: "(v * 2 ^ 24 + t) div 64 = v * 2 ^ 18 + t div 64"
    using div_mult_self1 [of 64 t "v * 2 ^ 18"] by (simp add: add.commute)
  have d2: "(v * 2 ^ 24 + t) div 64 div 64 = v * 2 ^ 12 + t div 2 ^ 12"
    unfolding d using div_mult_self1 [of 64 "t div 64" "v * 2 ^ 12"] by (simp add: add.commute zdiv_zmult2_eq [symmetric])
  have d3: "(v * 2 ^ 24 + t) div 64 div 64 div 64 = v * 2 ^ 6 + t div 2 ^ 18"
    unfolding d2 using div_mult_self1 [of 64 "t div 2 ^ 12" "v * 2 ^ 6"] by (simp add: add.commute zdiv_zmult2_eq [symmetric])
  have m: "(w * 64 + x) mod 64 = x mod 64" for w x :: int by simp
  show "(v * 2 ^ 24 + t) mod 64 = t mod 64" using m [of "v * 2 ^ 18" t] by (simp add: mult.commute)
  show "(v * 2 ^ 24 + t) div 64 mod 64 = t div 64 mod 64" unfolding d using m [of "v * 2 ^ 12" "t div 64"] by (simp add: mult.commute)
  show "(v * 2 ^ 24 + t) div 64 div 64 mod 64 = t div 2 ^ 12 mod 64"
    unfolding d2 using m [of "v * 2 ^ 6" "t div 2 ^ 12"] by (simp add: mult.commute)
  show "(v * 2 ^ 24 + t) div 64 div 64 div 64 mod 64 = t div 2 ^ 18 mod 64"
    unfolding d3 using m [of v "t div 2 ^ 18"] by (simp add: mult.commute)
  assume "0 \<le> t" "t < 2 ^ 24"
  then have "t div 2 ^ 18 div 64 = 0" by (simp add: zdiv_zmult2_eq [symmetric] div_pos_pos_trivial)
  then show "(v * 2 ^ 24 + t) div 64 div 64 div 64 div 64 = v"
    unfolding d3 using div_mult_self1 [of 64 "t div 2 ^ 18" v] by (simp add: add.commute)
qed

lemma b64_digits_4:
  "b64_digits (w + 4) n = b64_digits w (n div 64 div 64 div 64 div 64) @
     [n div 64 div 64 div 64 mod 64, n div 64 div 64 mod 64, n div 64 mod 64, n mod 64]"
proof -
  have "w + 4 = Suc (Suc (Suc (Suc w)))" by simp
  then show ?thesis by (simp only: b64_digits.simps append.assoc append.simps)
qed

lemma last_three:
  assumes "length bs = n + 3"
  obtains c b a where "bs = take n bs @ [c, b, a]"
proof -
  have "length (drop n bs) = 3" using assms by simp
  then obtain c b a where "drop n bs = [c, b, a]"
    by (auto simp: numeral_3_eq_3 length_Suc_conv simp del: length_drop)
  then show thesis using that append_take_drop_id [of n bs] by metis
qed

lemma b64_digits_group:
  assumes "0 \<le> t" "t < 2 ^ 24"
  shows "b64_digits (w + 4) (v * 2 ^ 24 + t) =
    b64_digits w v @ [t div 2 ^ 18 mod 64, t div 2 ^ 12 mod 64, t div 64 mod 64, t mod 64]"
  by (simp only: b64_digits_4 group_sextets assms)

lemma b64ish_groups_digits:
  "length bs = 3 * k \<Longrightarrow> b64ish_groups k (rev bs) out = ([], map b64ish_at (b64_digits (4 * k) (bytes_value bs)) @ out)"
proof (induction k arbitrary: bs out)
  case 0
  then show ?case by simp
next
  case (Suc k)
  obtain c b a where split: "bs = take (3 * k) bs @ [c, b, a]"
    using last_three [of bs "3 * k"] Suc.prems by auto
  define bs' where "bs' = take (3 * k) bs"
  have bs: "bs = bs' @ [c, b, a]" and len: "length bs' = 3 * k"
    using split Suc.prems by (simp_all add: bs'_def)
  let ?t = "uint a + 256 * uint b + 65536 * uint c"
  have t: "0 \<le> ?t" "?t < 2 ^ 24"
    using byte_range [of a] byte_range [of b] byte_range [of c] by simp_all
  have val: "bytes_value bs = bytes_value bs' * 2 ^ 24 + ?t"
    unfolding bs using bytes_value_snoc [of "bs' @ [c, b]" a] bytes_value_snoc [of "bs' @ [c]" b] bytes_value_snoc [of bs' c]
    by simp
  have dig: "b64_digits (4 * Suc k) (bytes_value bs) =
      b64_digits (4 * k) (bytes_value bs') @ [?t div 2 ^ 18 mod 64, ?t div 2 ^ 12 mod 64, ?t div 64 mod 64, ?t mod 64]"
    using b64_digits_group [OF t, of "4 * k" "bytes_value bs'"] by (simp only: val mult_Suc_right add.commute)
  have tmp: "uint a + push_bit 8 (uint b) + push_bit 16 (uint c) = ?t" by (simp add: push_bit_eq_mult)
  have "b64ish_groups (Suc k) (rev bs) out = b64ish_groups k (rev bs')
      (map b64ish_at [?t div 2 ^ 18 mod 64, ?t div 2 ^ 12 mod 64, ?t div 64 mod 64, ?t mod 64] @ out)"
    unfolding bs by (simp only: rev_append rev.simps append.simps b64ish_groups.simps Let_def tmp and_63 drop_bit_eq_div) simp
  also have "\<dots> = ([], map b64ish_at (b64_digits (4 * k) (bytes_value bs')) @
      map b64ish_at [?t div 2 ^ 18 mod 64, ?t div 2 ^ 12 mod 64, ?t div 64 mod 64, ?t mod 64] @ out)"
    using Suc.IH [OF len] by simp
  finally show ?case by (simp only: dig map_append append.assoc)
qed

lemma wc_b64ish_encode_digits:
  assumes "length bs = 3 * k"
  shows "wc_b64ish_encode bs = map b64ish_at (b64_digits (4 * k) (bytes_value bs))"
  using b64ish_groups_digits [OF assms, of "[]"] assms by (simp add: wc_b64ish_encode_def)

lemma length_b64_digits [simp]: "length (b64_digits w n) = w"
  by (induction w arbitrary: n) simp_all

lemma b64_digits_append:
  "0 \<le> r \<Longrightarrow> r < 64 ^ b \<Longrightarrow> b64_digits (a + b) (v * 64 ^ b + r) = b64_digits a v @ b64_digits b r"
proof (induction b arbitrary: r)
  case 0
  then have "r = 0" by simp
  then show ?case by simp
next
  case (Suc b)
  have split: "v * 64 ^ Suc b + r = r + v * 64 ^ b * 64" by simp
  have d: "(v * 64 ^ Suc b + r) div 64 = v * 64 ^ b + r div 64" and m: "(v * 64 ^ Suc b + r) mod 64 = r mod 64"
    unfolding split by (simp_all only: div_mult_self1 mod_mult_self1)
  have "0 \<le> r div 64" "r div 64 < 64 ^ b" using Suc.prems by (simp_all add: pos_imp_zdiv_nonneg_iff)
  from Suc.IH [OF this] show ?case by (simp only: add_Suc_right b64_digits.simps d m append.assoc)
qed

lemma b64_digits_range: "d \<in> set (b64_digits w n) \<Longrightarrow> 0 \<le> d \<and> d < 64"
  by (induction w arbitrary: n) auto

section \<open>The encoding keeps the order\<close>

lemma b64ish_base_sorted: "sorted_wrt (\<lambda>a b. ord_char a < ord_char b) b64ish_base"
  unfolding b64ish_base_def ord_char_def by code_simp

lemma b64ish_at_less: "0 \<le> i \<Longrightarrow> i < j \<Longrightarrow> j < 64 \<Longrightarrow> ord_char (b64ish_at i) < ord_char (b64ish_at j)"
proof -
  assume "0 \<le> i" "i < j" "j < 64"
  then have "nat i < nat j" "nat j < length b64ish_base" by (simp_all add: b64ish_base_def)
  then show ?thesis unfolding b64ish_at_def using sorted_wrt_nth_less [OF b64ish_base_sorted] by blast
qed

lemma strcmp_append_less:
  "length a = length b \<Longrightarrow> strcmp a b < 0 \<Longrightarrow> strcmp (a @ c) (b @ d) < 0"
  by (induction a b rule: list_induct2) (auto split: if_splits)

lemma strcmp_append_same: "strcmp (a @ c) (a @ d) = strcmp c d"
  by (induction a) auto

lemma b64_digits_less:
  "0 \<le> m \<Longrightarrow> m < n \<Longrightarrow> n < 64 ^ w \<Longrightarrow>
     strcmp (map b64ish_at (b64_digits w m)) (map b64ish_at (b64_digits w n)) < 0"
proof (induction w arbitrary: m n)
  case 0
  then show ?case by simp
next
  case (Suc w)
  show ?case
  proof (cases "m div 64 = n div 64")
    case True
    have "m mod 64 < n mod 64" using True Suc.prems(2) by (metis mult_div_mod_eq add_less_cancel_left)
    then have "ord_char (b64ish_at (m mod 64)) < ord_char (b64ish_at (n mod 64))"
      by (intro b64ish_at_less) simp_all
    then show ?thesis using True by (auto simp: strcmp_append_same)
  next
    case False
    then have "m div 64 < n div 64" using Suc.prems(2) zdiv_mono1 [of m n 64] by simp
    moreover have "0 \<le> m div 64" "n div 64 < 64 ^ w" using Suc.prems by (simp_all add: pos_imp_zdiv_nonneg_iff)
    ultimately show ?thesis using Suc.IH by (simp add: strcmp_append_less)
  qed
qed

section \<open>Bytes of 64-bit values\<close>

lemma bytes_value_Cons: "bytes_value (b # bs) = uint b * 256 ^ length bs + bytes_value bs"
  by (induction bs rule: rev_induct) (simp_all add: bytes_value_def algebra_simps)

lemma uint_byte_of: "uint (ucast (drop_bit n w) :: byte) = uint w div 2 ^ n mod 256" for w :: "64 word"
  by (simp only: unsigned_ucast_eq unsigned_drop_bit_eq) (use uint_lt2p [of w] in \<open>simp add: take_bit_eq_mod drop_bit_eq_div\<close>)

lemma bytes_value_be:
  "bytes_value (map (\<lambda>i. ucast (drop_bit (8 * i) w)) (rev [0..<n])) = uint w mod 256 ^ n" for w :: "64 word"
proof (induction n)
  case (Suc n)
  have "uint w mod (256 ^ n * 256) = 256 ^ n * (uint w div 256 ^ n mod 256) + uint w mod 256 ^ n"
    by (rule zmod_zmult2_eq) simp
  moreover have "(2 :: int) ^ (8 * n) = 256 ^ n" by (simp add: power_mult)
  ultimately show ?case using Suc by (simp add: bytes_value_Cons uint_byte_of mult.commute)
qed simp

lemma be64_bytes_upt: "be64_bytes w = map (\<lambda>i. ucast (drop_bit (8 * i) w)) (rev [0..<8])"
  by (simp add: be64_bytes_def upt_rec)

lemma bytes_value_be64: "bytes_value (be64_bytes w) = uint w"
  using bytes_value_be [of w 8] uint_lt2p [of w] by (simp add: be64_bytes_upt)

lemma bytes_value_be48: "bytes_value (drop 2 (be64_bytes w)) = uint w mod 2 ^ 48"
  using bytes_value_be [of w 6] by (simp add: be64_bytes_def upt_rec)

lemma length_be64_bytes [simp]: "length (be64_bytes w) = 8"
  by (simp add: be64_bytes_def)

lemma word_or_byte: "push_bit 8 a OR ucast b = a * 256 + ucast b" for a :: "64 word" and b :: byte
proof -
  have "push_bit 8 a AND ucast b = (0 :: 64 word)"
    by (rule bit_word_eqI) (auto simp: bit_simps dest: bit_imp_le_length)
  then show ?thesis by (simp add: push_bit_eq_mult flip: disjunctive_add_eq_or)
qed

lemma be64_value_bytes: "be64_value bs = word_of_int (bytes_value bs)"
proof (induction bs rule: rev_induct)
  case (snoc b bs)
  have "be64_value (bs @ [b]) = be64_value bs * 256 + ucast b"
    by (simp add: be64_value_def word_or_byte)
  also have "\<dots> = word_of_int (bytes_value bs * 256 + uint b)"
    by (simp only: snoc ucast_eq of_int_add of_int_mult of_int_numeral)
  finally show ?case by (simp only: bytes_value_snoc)
qed (simp add: be64_value_def)

section \<open>Identifiers as numbers\<close>

lemma length_low_bytes [simp]: "length (low_bytes n r) = n"
  by (simp add: low_bytes_def)

lemma length_rand_chunks: "length (fst (rand_chunks lrand48 n g)) = 3 * n"
  by (induction n arbitrary: g) (simp_all add: RANDOM_BYTES_PER_LRAND48_def Let_def case_prod_beta)

lemma length_rand_bytes: "length (fst (rand_bytes lrand48 n g)) = n"
  using length_rand_chunks [of lrand48 "n div 3" g] mult_div_mod_eq [of 3 n]
  by (auto simp: rand_bytes_def RANDOM_BYTES_PER_LRAND48_def split: prod.split)

text \<open>The number an identifier stands for: 48 bits of time and 72 random bits.\<close>

definition id_number :: "64 word \<Rightarrow> byte list \<Rightarrow> int" where
  "id_number t r = uint t mod 2 ^ 48 * 2 ^ 72 + bytes_value r"

definition id_text :: "int \<Rightarrow> string" where
  "id_text n = map b64ish_at (b64_digits 20 n)"

lemma id_number_range:
  assumes "length r = 9"
  shows "0 \<le> id_number t r" "id_number t r < 64 ^ 20"
proof -
  have "0 \<le> uint t mod 2 ^ 48" "uint t mod 2 ^ 48 \<le> 2 ^ 48 - 1" by simp_all
  then show "0 \<le> id_number t r" "id_number t r < 64 ^ 20"
    using bytes_value_range [of r] assms by (simp_all add: id_number_def)
qed

lemma id_text_number:
  assumes "length r = 9"
  shows "wc_b64ish_encode (drop 2 (be64_bytes t)) @ wc_b64ish_encode r = id_text (id_number t r)"
proof -
  have r: "bytes_value r < 64 ^ 12" "0 \<le> bytes_value r" using bytes_value_range [of r] assms by simp_all
  have "wc_b64ish_encode (drop 2 (be64_bytes t)) = map b64ish_at (b64_digits 8 (uint t mod 2 ^ 48))"
    using wc_b64ish_encode_digits [of "drop 2 (be64_bytes t)" 2] by (simp add: bytes_value_be48)
  moreover have "wc_b64ish_encode r = map b64ish_at (b64_digits 12 (bytes_value r))"
    using wc_b64ish_encode_digits [of r 3] assms by simp
  ultimately show ?thesis
    using b64_digits_append [OF r(2,1), of 8 "uint t mod 2 ^ 48"] by (simp add: id_text_def id_number_def)
qed

lemma low_increment:
  assumes "length r = 8"
  shows "uint (be64_value r + 1) = (bytes_value r + 1) mod 2 ^ 64"
    "be64_value r + 1 = 0 \<longleftrightarrow> bytes_value r + 1 = 2 ^ 64"
proof -
  have b: "0 \<le> bytes_value r" "bytes_value r < 2 ^ 64" using bytes_value_range [of r] assms by simp_all
  have "be64_value r + 1 = word_of_int (bytes_value r + 1)" by (simp add: be64_value_bytes)
  then show e: "uint (be64_value r + 1) = (bytes_value r + 1) mod 2 ^ 64"
    by (simp only: uint_word_of_int) (simp add: take_bit_eq_mod)
  have "be64_value r + 1 = 0 \<longleftrightarrow> uint (be64_value r + 1) = 0" by (rule uint_0_iff [symmetric])
  also have "\<dots> \<longleftrightarrow> bytes_value r + 1 = 2 ^ 64" unfolding e using b by (cases "bytes_value r + 1 = 2 ^ 64") auto
  finally show "be64_value r + 1 = 0 \<longleftrightarrow> bytes_value r + 1 = 2 ^ 64" .
qed

text \<open>Within a millisecond the random part counts up, modulo its 72 bits.\<close>

lemma next_random:
  assumes "length r = 9" "low = be64_value (drop 1 r) + 1"
    "hi = (if low = 0 then r ! 0 + 1 else r ! 0)" "bytes_value r < 2 ^ 72 - 1"
  shows "bytes_value (hi # be64_bytes low) = bytes_value r + 1"
proof -
  obtain h l where r: "r = h # l" and l: "length l = 8"
    using assms(1) by (cases r) auto
  note bl = bytes_value_range [of l, unfolded l]
  have v: "bytes_value r = uint h * 2 ^ 64 + bytes_value l" by (simp add: r bytes_value_Cons l)
  have low: "uint low = (bytes_value l + 1) mod 2 ^ 64" "low = 0 \<longleftrightarrow> bytes_value l + 1 = 2 ^ 64"
    using low_increment [OF l] by (simp_all add: assms(2) r)
  have n: "bytes_value (hi # be64_bytes low) = uint hi * 2 ^ 64 + uint low"
    by (simp add: bytes_value_Cons bytes_value_be64)
  show ?thesis
  proof (cases "bytes_value l + 1 = 2 ^ 64")
    case True
    then have "uint h < 255" using assms(4) v byte_range [of h] by simp
    then have "uint (h + 1) = uint h + 1" by (simp add: uint_word_ariths)
    then show ?thesis using True low n v assms(3) by (simp add: r)
  next
    case False
    then have "uint low = bytes_value l + 1" using low(1) bl by simp
    then show ?thesis using False low(2) n v assms(3) by (simp add: r)
  qed
qed

lemma push_id_text:
  assumes "length (lastrand s) = 9" "wc_datasync_push_id lrand48 s t = (i, s')"
  shows "i = id_text (id_number t (lastrand s'))" "length (lastrand s') = 9" "last_time s' = t"
proof -
  have len: "length (lastrand s') = 9" and l: "last_time s' = t"
    using assms length_rand_bytes [of lrand48 9 "rand_buffer s"]
    by (auto simp: wc_datasync_push_id_def Let_def split: if_splits prod.splits)
  show "length (lastrand s') = 9" "last_time s' = t" by (fact len, fact l)
  show "i = id_text (id_number t (lastrand s'))"
    unfolding id_text_number [OF len, symmetric]
    using assms(2) by (auto simp: wc_datasync_push_id_def Let_def)
qed

lemma push_id_same_time:
  assumes "length (lastrand s) = 9" "last_time s = t" "bytes_value (lastrand s) < 2 ^ 72 - 1"
    "wc_datasync_push_id lrand48 s t = (i, s')"
  shows "bytes_value (lastrand s') = bytes_value (lastrand s) + 1"
  using assms(2,4) next_random [OF assms(1) refl refl assms(3)]
  by (auto simp: wc_datasync_push_id_def Let_def)

text \<open>One step: the number of the next identifier is greater.\<close>

lemma push_id_step:
  assumes "length (lastrand s) = 9" "last_time s \<le> t" "uint t < 2 ^ 48"
    "last_time s = t \<longrightarrow> bytes_value (lastrand s) < 2 ^ 72 - 1"
    "wc_datasync_push_id lrand48 s t = (i, s')"
  shows "id_number (last_time s) (lastrand s) < id_number t (lastrand s')"
proof (cases "last_time s = t")
  case True
  then show ?thesis using push_id_same_time [OF assms(1) True] assms by (simp add: id_number_def)
next
  case False
  then have less: "uint (last_time s) < uint t" using assms(2) by (simp add: word_le_def word_uint_eq_iff order_less_le)
  moreover have "0 \<le> uint (last_time s)" by simp
  ultimately have m: "uint (last_time s) mod 2 ^ 48 = uint (last_time s)" "uint t mod 2 ^ 48 = uint t"
    using assms(3) by simp_all
  have "length (lastrand s') = 9" by (rule push_id_text(2) [OF assms(1,5)])
  then show ?thesis unfolding id_number_def m
    using less bytes_value_range [of "lastrand s"] bytes_value_range [of "lastrand s'"] assms(1) by simp
qed

lemma id_text_less: "0 \<le> m \<Longrightarrow> m < n \<Longrightarrow> n < 64 ^ 20 \<Longrightarrow> strcmp (id_text m) (id_text n) < 0"
  unfolding id_text_def by (rule b64_digits_less)

text \<open>A sequence of calls that starts in a state left by a call.\<close>

lemma push_ids_numbers:
  assumes "length (lastrand s) = 9" "sorted (last_time s # ts)" "\<forall>t\<in>set ts. uint t < 2 ^ 48"
    "\<forall>r\<in>insert s (snd ` set (push_ids lrand48 s ts)). bytes_value (lastrand r) < 2 ^ 72 - 1"
  shows "\<exists>ns. map fst (push_ids lrand48 s ts) = map id_text ns \<and> (\<forall>n\<in>set ns. n < 64 ^ 20) \<and>
    sorted_wrt (<) (id_number (last_time s) (lastrand s) # ns)"
  using assms
proof (induction ts arbitrary: s)
  case Nil
  then show ?case by simp
next
  case (Cons t ts)
  obtain i s' where st: "wc_datasync_push_id lrand48 s t = (i, s')" by fastforce
  note s' = push_id_text [OF Cons.prems(1) st]
  have step: "id_number (last_time s) (lastrand s) < id_number t (lastrand s')"
    using push_id_step [OF Cons.prems(1) _ _ _ st] Cons.prems by simp
  obtain ns where ns: "map fst (push_ids lrand48 s' ts) = map id_text ns" "\<forall>n\<in>set ns. n < 64 ^ 20"
      "sorted_wrt (<) (id_number t (lastrand s') # ns)"
    using Cons.IH [OF s'(2)] Cons.prems s'(3) by (auto simp: st Let_def)
  have "\<forall>n\<in>set ns. id_number (last_time s) (lastrand s) < n" using ns(3) step by auto
  then have "sorted_wrt (<) (id_number (last_time s) (lastrand s) # id_number t (lastrand s') # ns)"
    using ns(3) step by simp
  moreover have "map fst (push_ids lrand48 s (t # ts)) = map id_text (id_number t (lastrand s') # ns)"
    using ns(1) s'(1) by (simp add: st Let_def)
  ultimately show ?case
    using ns(2) id_number_range(2) [OF s'(2), of t] by (metis insert_iff list.simps(15))
qed

lemma id_text_sorted:
  assumes "\<forall>n\<in>set ns. 0 \<le> n \<and> n < 64 ^ 20" "sorted_wrt (<) ns"
  shows "sorted_wrt (\<lambda>a b. strcmp a b < 0) (map id_text ns)"
  unfolding sorted_wrt_map using assms(2)
  by (rule sorted_wrt_mono_rel [rotated]) (use assms(1) in \<open>auto intro: id_text_less\<close>)

lemma length_id_text [simp]: "length (id_text n) = 20"
  by (simp add: id_text_def)

text \<open>
  Claim C13: identifiers generated at non-decreasing times below \<open>2 ^ 48\<close> milliseconds are 20
  characters long and strictly increase as strings, within a millisecond as well, as long as
  the 72-bit random counter does not wrap.
\<close>

theorem push_ids_increase:
  assumes "length (lastrand s) = 9" "sorted ts" "\<forall>t\<in>set ts. uint t < 2 ^ 48"
    "\<forall>r\<in>set (push_ids lrand48 s ts). bytes_value (lastrand (snd r)) < 2 ^ 72 - 1"
  shows "sorted_wrt (\<lambda>a b. strcmp a b < 0) (map fst (push_ids lrand48 s ts)) \<and>
    (\<forall>r\<in>set (push_ids lrand48 s ts). length (fst r) = 20)"
proof (cases ts)
  case Nil
  then show ?thesis by simp
next
  case (Cons t ts')
  obtain i s' where st: "wc_datasync_push_id lrand48 s t = (i, s')" by fastforce
  note s' = push_id_text [OF assms(1) st]
  obtain ns where ns: "map fst (push_ids lrand48 s' ts') = map id_text ns" "\<forall>n\<in>set ns. n < 64 ^ 20"
      "sorted_wrt (<) (id_number t (lastrand s') # ns)"
    using push_ids_numbers [of s' ts' lrand48] assms s' by (auto simp: Cons st Let_def)
  let ?ns = "id_number t (lastrand s') # ns"
  have ids: "map fst (push_ids lrand48 s ts) = map id_text ?ns" by (simp add: Cons st Let_def s'(1) ns(1))
  have "\<forall>n\<in>set ?ns. 0 \<le> n \<and> n < 64 ^ 20"
    using id_number_range [OF s'(2), of t] ns(2,3) by auto
  from id_text_sorted [OF this ns(3)] have "sorted_wrt (\<lambda>a b. strcmp a b < 0) (map fst (push_ids lrand48 s ts))"
    by (simp only: ids)
  moreover have "fst r \<in> id_text ` set ?ns" if "r \<in> set (push_ids lrand48 s ts)" for r
    using arg_cong [OF ids, of set] that by force
  then have "length (fst r) = 20" if "r \<in> set (push_ids lrand48 s ts)" for r using that by fastforce
  ultimately show ?thesis by blast
qed

definition zero_pids :: "int pushid_state" where
  "zero_pids = \<lparr>last_time = 0, lastrand = replicate 9 0, rand_buffer = 0\<rparr>"

definition const_rand :: "int \<Rightarrow> int \<times> int" where
  "const_rand g = (255, g)"

lemma zero_pids_run:
  "\<forall>r\<in>set (push_ids const_rand zero_pids [5, 5]). bytes_value (lastrand (snd r)) < 2 ^ 72 - 1"
  unfolding zero_pids_def const_rand_def by code_simp

theorem push_ids_increase_witness:
  "sorted_wrt (\<lambda>a b. strcmp a b < 0) (map fst (push_ids const_rand zero_pids [5, 5])) \<and>
    list_all (\<lambda>r. length (fst r) = 20) (push_ids const_rand zero_pids [5, 5])"
  unfolding list_all_iff
  by (rule push_ids_increase) (use zero_pids_run in \<open>simp_all add: zero_pids_def\<close>)

text \<open>
  The encoding of two trailing bytes loses their four high bits: inputs that differ
  get the same text. (Identifiers only encode 6 and 9 bytes.)
\<close>

lemma b64ish_two_bytes_not_injective: "wc_b64ish_encode [16, 0] = wc_b64ish_encode [0, 0]"
  by code_simp

end
