(* ===== verification/Message.thy ===== *)
theory Message
  imports Treenode "HOL-Library.Multiset"
begin

text \<open>
  The messages of the datasync protocol (\<^verbatim>\<open>include/webcom-c/webcom-msg.h\<close>), their
  serialisation (\<^verbatim>\<open>lib/datasync/message.c\<close>) and their parser
  (\<^verbatim>\<open>lib/datasync/parser.c\<close>).

  The JSON library is a parameter: \<open>print\<close> is
  \<^verbatim>\<open>json_object_to_json_string_ext\<close>, \<open>tokener\<close> is
  \<^verbatim>\<open>json_tokener_parse\<close> and \<open>parse_ex\<close> the incremental
  \<^verbatim>\<open>json_tokener_parse_ex\<close>. A parser returns, beside its result, the strings it has
  allocated, so that what is freed can be compared with what was allocated.
\<close>

section \<open>Messages\<close>

datatype wc_action_type =
    WC_ACTION_PUT | WC_ACTION_MERGE | WC_ACTION_LISTEN | WC_ACTION_UNLISTEN
  | WC_ACTION_AUTHENTICATE | WC_ACTION_UNAUTHENTICATE | WC_ACTION_ON_DISCONNECT_PUT
  | WC_ACTION_ON_DISCONNECT_MERGE | WC_ACTION_ON_DISCONNECT_CANCEL

text \<open>The union of an action with its tag; \<open>Put\<close> has its path, its data and its optional hash.\<close>

datatype wc_action_u =
    Put string string "string option"
  | Merge string string
  | Listen string
  | Unlisten string
  | Auth string
  | Unauth
  | On_disc_put string string
  | On_disc_merge string string
  | On_disc_cancel string

fun action_type :: "wc_action_u \<Rightarrow> wc_action_type" where
  "action_type (Put p d h) = WC_ACTION_PUT"
| "action_type (Merge p d) = WC_ACTION_MERGE"
| "action_type (Listen p) = WC_ACTION_LISTEN"
| "action_type (Unlisten p) = WC_ACTION_UNLISTEN"
| "action_type (Auth c) = WC_ACTION_AUTHENTICATE"
| "action_type Unauth = WC_ACTION_UNAUTHENTICATE"
| "action_type (On_disc_put p d) = WC_ACTION_ON_DISCONNECT_PUT"
| "action_type (On_disc_merge p d) = WC_ACTION_ON_DISCONNECT_MERGE"
| "action_type (On_disc_cancel p) = WC_ACTION_ON_DISCONNECT_CANCEL"

record wc_action =
  a_r :: int
  a_u :: wc_action_u

record wc_response =
  r_r :: int
  r_status :: string
  r_data :: string

datatype wc_push =
    Auth_revoked string string
  | Listen_revoked string
  | Update_put string string
  | Update_merge string string

datatype wc_data_msg =
    WC_DATA_MSG_ACTION wc_action
  | WC_DATA_MSG_RESPONSE wc_response
  | WC_DATA_MSG_PUSH wc_push

record wc_handshake =
  h_ts :: int
  h_server :: string
  h_version :: string

datatype wc_ctrl_msg =
    WC_CTRL_MSG_HANDSHAKE wc_handshake
  | WC_CTRL_MSG_CONNECTION_SHUTDOWN string

datatype wc_msg =
    WC_MSG_CTRL wc_ctrl_msg
  | WC_MSG_DATA wc_data_msg

section \<open>Releasing a message\<close>

text \<open>The strings passed to \<^verbatim>\<open>free\<close>, in order.\<close>

definition IF_NOT_NULL_DO :: "string option \<Rightarrow> string list" where
  "IF_NOT_NULL_DO p = (case p of None \<Rightarrow> [] | Some s \<Rightarrow> [s])"

fun wc_free_action :: "wc_action_u \<Rightarrow> string list" where
  "wc_free_action (Auth cred) = [cred]"
| "wc_free_action (Listen path) = [path]"
| "wc_free_action (Merge path data) = [path, data]"
| "wc_free_action (On_disc_cancel path) = [path]"
| "wc_free_action (On_disc_merge path data) = [path, data]"
| "wc_free_action (On_disc_put path data) = [path, data]"
| "wc_free_action (Put path data hash) = path # IF_NOT_NULL_DO hash @ [data]"
| "wc_free_action Unauth = []"
| "wc_free_action (Unlisten path) = [path]"

fun wc_free_push :: "wc_push \<Rightarrow> string list" where
  "wc_free_push (Auth_revoked status reason) = [reason, status]"
| "wc_free_push (Listen_revoked path) = [path]"
| "wc_free_push (Update_put path data) = [path, data]"
| "wc_free_push (Update_merge path data) = [path, data]"

definition wc_free_response :: "wc_response \<Rightarrow> string list" where
  "wc_free_response r = [r_status r, r_data r]"

fun wc_free_data_msg :: "wc_data_msg \<Rightarrow> string list" where
  "wc_free_data_msg (WC_DATA_MSG_ACTION a) = wc_free_action (a_u a)"
| "wc_free_data_msg (WC_DATA_MSG_PUSH p) = wc_free_push p"
| "wc_free_data_msg (WC_DATA_MSG_RESPONSE r) = wc_free_response r"

fun wc_free_ctrl_msg :: "wc_ctrl_msg \<Rightarrow> string list" where
  "wc_free_ctrl_msg (WC_CTRL_MSG_HANDSHAKE h) = [h_server h, h_version h]"
| "wc_free_ctrl_msg (WC_CTRL_MSG_CONNECTION_SHUTDOWN reason) = [reason]"

fun wc_datasync_msg_free :: "wc_msg \<Rightarrow> string list" where
  "wc_datasync_msg_free (WC_MSG_DATA d) = wc_free_data_msg d"
| "wc_datasync_msg_free (WC_MSG_CTRL c) = wc_free_ctrl_msg c"

section \<open>Serialisation\<close>

text \<open>
  Adding a member to a JSON object replaces the value of a key that is there already; a value
  the tokener cannot read is added as \<^verbatim>\<open>NULL\<close>, which is the JSON null.
\<close>

fun object_add :: "(string \<times> json) list \<Rightarrow> string \<Rightarrow> json \<Rightarrow> (string \<times> json) list" where
  "object_add [] k v = [(k, v)]"
| "object_add ((k', v') # ms) k v = (if k' = k then (k, v) # ms else (k', v') # object_add ms k v)"

definition json_parsed :: "(string \<Rightarrow> json option) \<Rightarrow> string \<Rightarrow> json" where
  "json_parsed tokener s = (case tokener s of None \<Rightarrow> JNull | Some j \<Rightarrow> j)"

definition wc_put_msg_to_json :: "(string \<Rightarrow> json option) \<Rightarrow> string \<Rightarrow> string \<Rightarrow> string option \<Rightarrow> json" where
  "wc_put_msg_to_json tokener path data hash =
     (let jroot = object_add (object_add [] ''p'' (JString path)) ''d'' (json_parsed tokener data)
      in JObject (case hash of None \<Rightarrow> jroot | Some h \<Rightarrow> object_add jroot ''h'' (JString h)))"

definition wc_listen_msg_to_json :: "string \<Rightarrow> json" where
  "wc_listen_msg_to_json path = JObject (object_add [] ''p'' (JString path))"

definition wc_unlisten_msg_to_json :: "string \<Rightarrow> json" where
  "wc_unlisten_msg_to_json path = JObject (object_add [] ''p'' (JString path))"

definition wc_odc_msg_to_json :: "string \<Rightarrow> json" where
  "wc_odc_msg_to_json path = JObject (object_add [] ''p'' (JString path))"

definition wc_merge_msg_to_json :: "(string \<Rightarrow> json option) \<Rightarrow> string \<Rightarrow> string \<Rightarrow> json" where
  "wc_merge_msg_to_json tokener path data =
     JObject (object_add (object_add [] ''p'' (JString path)) ''d'' (json_parsed tokener data))"

definition wc_odp_msg_to_json :: "(string \<Rightarrow> json option) \<Rightarrow> string \<Rightarrow> string \<Rightarrow> json" where
  "wc_odp_msg_to_json tokener path data =
     JObject (object_add (object_add [] ''p'' (JString path)) ''d'' (json_parsed tokener data))"

definition wc_odm_msg_to_json :: "(string \<Rightarrow> json option) \<Rightarrow> string \<Rightarrow> string \<Rightarrow> json" where
  "wc_odm_msg_to_json tokener path data =
     JObject (object_add (object_add [] ''p'' (JString path)) ''d'' (json_parsed tokener data))"

definition wc_auth_msg_to_json :: "string \<Rightarrow> json" where
  "wc_auth_msg_to_json cred = JObject (object_add [] ''cred'' (JString cred))"

fun action_to_json :: "(string \<Rightarrow> json option) \<Rightarrow> wc_action_u \<Rightarrow> string \<times> json" where
  "action_to_json tokener (Put p d h) = (''p'', wc_put_msg_to_json tokener p d h)"
| "action_to_json tokener (Merge p d) = (''m'', wc_merge_msg_to_json tokener p d)"
| "action_to_json tokener (Listen p) = (''l'', wc_listen_msg_to_json p)"
| "action_to_json tokener (Unlisten p) = (''u'', wc_unlisten_msg_to_json p)"
| "action_to_json tokener (Auth c) = (''auth'', wc_auth_msg_to_json c)"
| "action_to_json tokener Unauth = (''unauth'', JNull)"
| "action_to_json tokener (On_disc_put p d) = (''o'', wc_odp_msg_to_json tokener p d)"
| "action_to_json tokener (On_disc_merge p d) = (''om'', wc_odm_msg_to_json tokener p d)"
| "action_to_json tokener (On_disc_cancel p) = (''oc'', wc_odc_msg_to_json p)"

fun wc_data_msg_to_json :: "(string \<Rightarrow> json option) \<Rightarrow> wc_data_msg \<Rightarrow> json" where
  "wc_data_msg_to_json tokener (WC_DATA_MSG_ACTION a) =
     (let jroot = object_add [] ''r'' (JInt (a_r a));
          (kind, body) = action_to_json tokener (a_u a)
      in JObject (object_add (object_add jroot ''a'' (JString kind)) ''b'' body))"
| "wc_data_msg_to_json tokener (WC_DATA_MSG_PUSH p) = JObject []"
| "wc_data_msg_to_json tokener (WC_DATA_MSG_RESPONSE r) = JObject []"

fun wc_msg_to_json :: "(string \<Rightarrow> json option) \<Rightarrow> wc_msg \<Rightarrow> json" where
  "wc_msg_to_json tokener (WC_MSG_DATA d) =
     JObject (object_add (object_add [] ''t'' (JString ''d'')) ''d'' (wc_data_msg_to_json tokener d))"
| "wc_msg_to_json tokener (WC_MSG_CTRL c) = JObject (object_add [] ''t'' (JString ''c''))"

definition wc_datasync_msg_to_json_str :: "(json \<Rightarrow> string) \<Rightarrow> (string \<Rightarrow> json option) \<Rightarrow> wc_msg \<Rightarrow> string" where
  "wc_datasync_msg_to_json_str print tokener msg = print (wc_msg_to_json tokener msg)"

section \<open>Reading fields\<close>

type_synonym 'a parsed = "'a option \<times> string list"

definition pfail :: "'a parsed" where
  "pfail = (None, [])"

definition pbind :: "'a parsed \<Rightarrow> ('a \<Rightarrow> 'b parsed) \<Rightarrow> 'b parsed" where
  "pbind m f = (case fst m of None \<Rightarrow> (None, snd m) | Some x \<Rightarrow> (fst (f x), snd m @ snd (f x)))"

definition preturn :: "'a \<Rightarrow> 'a parsed" where
  "preturn x = (Some x, [])"

fun object_get_ex :: "json \<Rightarrow> string \<Rightarrow> json option" where
  "object_get_ex (JObject ms) key = map_of ms key"
| "object_get_ex _ key = None"

text \<open>A string of the JSON library read as a C string.\<close>

fun json_c_string :: "json option \<Rightarrow> string option" where
  "json_c_string (Some (JString s)) = Some (c_str s 0)"
| "json_c_string _ = None"

definition strdup :: "string \<Rightarrow> string parsed" where
  "strdup s = (Some s, [s])"

definition wc_hlp_get_string :: "json \<Rightarrow> string \<Rightarrow> string parsed" where
  "wc_hlp_get_string j key = (case json_c_string (object_get_ex j key) of None \<Rightarrow> pfail | Some s \<Rightarrow> strdup s)"

definition wc_hlp_get_json_str :: "(json \<Rightarrow> string) \<Rightarrow> json \<Rightarrow> string \<Rightarrow> string parsed" where
  "wc_hlp_get_json_str print j key = (case object_get_ex j key of None \<Rightarrow> pfail | Some v \<Rightarrow> strdup (print v))"

definition cmp_json_keys :: "string \<times> json \<Rightarrow> string \<times> json \<Rightarrow> int" where
  "cmp_json_keys a b = wc_datasync_key_cmp (fst a) (fst b)"

text \<open>\<^verbatim>\<open>qsort\<close> as a stable sort by insertion.\<close>

fun qsort_insert :: "('a \<Rightarrow> 'a \<Rightarrow> int) \<Rightarrow> 'a \<Rightarrow> 'a list \<Rightarrow> 'a list" where
  "qsort_insert cmp x [] = [x]"
| "qsort_insert cmp x (y # ys) = (if cmp x y \<le> 0 then x # y # ys else y # qsort_insert cmp x ys)"

definition qsort :: "('a \<Rightarrow> 'a \<Rightarrow> int) \<Rightarrow> 'a list \<Rightarrow> 'a list" where
  "qsort cmp xs = foldr (qsort_insert cmp) xs []"

definition level1_sorted :: "json \<Rightarrow> json" where
  "level1_sorted j = (case j of
      JObject ms \<Rightarrow> JObject (fold (\<lambda>(k, v) ms. object_add ms k v) (qsort cmp_json_keys ms) [])
    | _ \<Rightarrow> j)"

definition wc_hlp_get_level1_sorted_json_str :: "(json \<Rightarrow> string) \<Rightarrow> json \<Rightarrow> string \<Rightarrow> string parsed" where
  "wc_hlp_get_level1_sorted_json_str print j key =
     (case object_get_ex j key of None \<Rightarrow> pfail | Some v \<Rightarrow> strdup (print (level1_sorted v)))"

definition wc_hlp_get_long :: "json \<Rightarrow> string \<Rightarrow> int parsed" where
  "wc_hlp_get_long j key = (case object_get_ex j key of Some (JInt i) \<Rightarrow> preturn i | _ \<Rightarrow> pfail)"

definition WCPM_CALL_CHILD_PARSER :: "json \<Rightarrow> string \<Rightarrow> (json \<Rightarrow> 'a parsed) \<Rightarrow> 'a parsed" where
  "WCPM_CALL_CHILD_PARSER jroot key child_parser =
     (case object_get_ex jroot key of None \<Rightarrow> pfail | Some j \<Rightarrow> child_parser j)"

section \<open>Parsing messages\<close>

definition wc_parse_handshake :: "json \<Rightarrow> wc_handshake parsed" where
  "wc_parse_handshake jroot =
     pbind (wc_hlp_get_long jroot ''ts'') (\<lambda>ts. pbind (wc_hlp_get_string jroot ''h'') (\<lambda>h.
     pbind (wc_hlp_get_string jroot ''v'') (\<lambda>v. preturn \<lparr>h_ts = ts, h_server = h, h_version = v\<rparr>)))"

definition wc_parse_ctrl_msg :: "json \<Rightarrow> wc_ctrl_msg parsed" where
  "wc_parse_ctrl_msg jroot = (case json_c_string (object_get_ex jroot ''t'') of
      None \<Rightarrow> pfail
    | Some s \<Rightarrow>
        if strcmp ''h'' s = 0
        then WCPM_CALL_CHILD_PARSER jroot ''d'' (\<lambda>j. pbind (wc_parse_handshake j) (\<lambda>h. preturn (WC_CTRL_MSG_HANDSHAKE h)))
        else if strcmp ''s'' s = 0
        then pbind (wc_hlp_get_string jroot ''d'') (\<lambda>d. preturn (WC_CTRL_MSG_CONNECTION_SHUTDOWN d))
        else pfail)"

text \<open>The hash is optional: its absence does not end the parser.\<close>

definition wc_parse_action_put :: "(json \<Rightarrow> string) \<Rightarrow> json \<Rightarrow> wc_action_u parsed" where
  "wc_parse_action_put print jroot =
     (let (hash, allocated) = wc_hlp_get_string jroot ''h''
      in pbind (Some (), allocated) (\<lambda>_. pbind (wc_hlp_get_string jroot ''p'') (\<lambda>p.
         pbind (wc_hlp_get_json_str print jroot ''d'') (\<lambda>d. preturn (Put p d hash)))))"

definition wc_parse_path :: "(string \<Rightarrow> 'a) \<Rightarrow> json \<Rightarrow> 'a parsed" where
  "wc_parse_path res jroot = pbind (wc_hlp_get_string jroot ''p'') (\<lambda>p. preturn (res p))"

definition wc_parse_path_data :: "(json \<Rightarrow> string) \<Rightarrow> (string \<Rightarrow> string \<Rightarrow> 'a) \<Rightarrow> json \<Rightarrow> 'a parsed" where
  "wc_parse_path_data print res jroot =
     pbind (wc_hlp_get_string jroot ''p'') (\<lambda>p. pbind (wc_hlp_get_json_str print jroot ''d'') (\<lambda>d. preturn (res p d)))"

definition wc_parse_action_merge :: "(json \<Rightarrow> string) \<Rightarrow> json \<Rightarrow> wc_action_u parsed" where
  "wc_parse_action_merge print jroot = wc_parse_path_data print Merge jroot"

definition wc_parse_action_listen :: "json \<Rightarrow> wc_action_u parsed" where
  "wc_parse_action_listen jroot = wc_parse_path Listen jroot"

definition wc_parse_action_unlisten :: "json \<Rightarrow> wc_action_u parsed" where
  "wc_parse_action_unlisten jroot = wc_parse_path Unlisten jroot"

definition wc_parse_action_auth :: "json \<Rightarrow> wc_action_u parsed" where
  "wc_parse_action_auth jroot = pbind (wc_hlp_get_string jroot ''cred'') (\<lambda>c. preturn (Auth c))"

definition wc_parse_action_on_disc_put :: "(json \<Rightarrow> string) \<Rightarrow> json \<Rightarrow> wc_action_u parsed" where
  "wc_parse_action_on_disc_put print jroot = wc_parse_path_data print On_disc_put jroot"

definition wc_parse_action_on_disc_merge :: "(json \<Rightarrow> string) \<Rightarrow> json \<Rightarrow> wc_action_u parsed" where
  "wc_parse_action_on_disc_merge print jroot = wc_parse_path_data print On_disc_merge jroot"

definition wc_parse_action_on_disc_cancel :: "json \<Rightarrow> wc_action_u parsed" where
  "wc_parse_action_on_disc_cancel jroot = wc_parse_path On_disc_cancel jroot"

definition wc_parse_action_u :: "(json \<Rightarrow> string) \<Rightarrow> json \<Rightarrow> wc_action_u parsed" where
  "wc_parse_action_u print jroot = (case json_c_string (object_get_ex jroot ''a'') of
      None \<Rightarrow> pfail
    | Some s \<Rightarrow>
        if strcmp ''p'' s = 0 then WCPM_CALL_CHILD_PARSER jroot ''b'' (wc_parse_action_put print)
        else if strcmp ''m'' s = 0 then wc_parse_action_merge print jroot
        else if strcmp ''l'' s = 0 then wc_parse_action_listen jroot
        else if strcmp ''u'' s = 0 then wc_parse_action_unlisten jroot
        else if strcmp ''auth'' s = 0 then wc_parse_action_auth jroot
        else if strcmp ''unauth'' s = 0 then preturn Unauth
        else if strcmp ''o'' s = 0 then wc_parse_action_on_disc_put print jroot
        else if strcmp ''om'' s = 0 then wc_parse_action_on_disc_merge print jroot
        else if strcmp ''oc'' s = 0 then wc_parse_action_on_disc_cancel jroot
        else pfail)"

definition wc_parse_action :: "(json \<Rightarrow> string) \<Rightarrow> json \<Rightarrow> wc_action parsed" where
  "wc_parse_action print jroot =
     pbind (wc_hlp_get_long jroot ''r'') (\<lambda>r. pbind (wc_parse_action_u print jroot) (\<lambda>u. preturn \<lparr>a_r = r, a_u = u\<rparr>))"

definition wc_parse_response :: "(json \<Rightarrow> string) \<Rightarrow> json \<Rightarrow> wc_response parsed" where
  "wc_parse_response print jroot =
     pbind (wc_hlp_get_long jroot ''r'') (\<lambda>r. WCPM_CALL_CHILD_PARSER jroot ''b'' (\<lambda>jtmp.
       pbind (wc_hlp_get_string jtmp ''s'') (\<lambda>s. pbind (wc_hlp_get_json_str print jtmp ''d'') (\<lambda>d.
         preturn \<lparr>r_r = r, r_status = s, r_data = d\<rparr>))))"

definition wc_parse_push_auth_revoked :: "json \<Rightarrow> wc_push parsed" where
  "wc_parse_push_auth_revoked jroot =
     pbind (wc_hlp_get_string jroot ''s'') (\<lambda>s. pbind (wc_hlp_get_string jroot ''d'') (\<lambda>d. preturn (Auth_revoked s d)))"

definition wc_parse_push_update :: "(json \<Rightarrow> string) \<Rightarrow> (string \<Rightarrow> string \<Rightarrow> wc_push) \<Rightarrow> json \<Rightarrow> wc_push parsed" where
  "wc_parse_push_update print res jroot =
     pbind (wc_hlp_get_string jroot ''p'') (\<lambda>p.
     pbind (wc_hlp_get_level1_sorted_json_str print jroot ''d'') (\<lambda>d. preturn (res p d)))"

definition wc_parse_push_listen_revoked :: "json \<Rightarrow> wc_push parsed" where
  "wc_parse_push_listen_revoked jroot = wc_parse_path Listen_revoked jroot"

definition wc_parse_push_update_put :: "(json \<Rightarrow> string) \<Rightarrow> json \<Rightarrow> wc_push parsed" where
  "wc_parse_push_update_put print jroot = wc_parse_push_update print Update_put jroot"

definition wc_parse_push_update_merge :: "(json \<Rightarrow> string) \<Rightarrow> json \<Rightarrow> wc_push parsed" where
  "wc_parse_push_update_merge print jroot = wc_parse_push_update print Update_merge jroot"

definition wc_parse_push :: "(json \<Rightarrow> string) \<Rightarrow> json \<Rightarrow> wc_push parsed" where
  "wc_parse_push print jroot = (case json_c_string (object_get_ex jroot ''a'') of
      None \<Rightarrow> pfail
    | Some s \<Rightarrow>
        if strcmp ''ac'' s = 0 then WCPM_CALL_CHILD_PARSER jroot ''b'' wc_parse_push_auth_revoked
        else if strcmp ''c'' s = 0 then WCPM_CALL_CHILD_PARSER jroot ''b'' wc_parse_push_listen_revoked
        else if strcmp ''d'' s = 0 then WCPM_CALL_CHILD_PARSER jroot ''b'' (wc_parse_push_update_put print)
        else if strcmp ''m'' s = 0 then WCPM_CALL_CHILD_PARSER jroot ''b'' (wc_parse_push_update_merge print)
        else pfail)"

definition wc_parse_data_msg :: "(json \<Rightarrow> string) \<Rightarrow> json \<Rightarrow> wc_data_msg parsed" where
  "wc_parse_data_msg print jroot =
     (let a = object_get_ex jroot ''a'' \<noteq> None; r = object_get_ex jroot ''r'' \<noteq> None;
          b = object_get_ex jroot ''b'' \<noteq> None
      in if a \<and> r \<and> b then pbind (wc_parse_action print jroot) (\<lambda>x. preturn (WC_DATA_MSG_ACTION x))
         else if \<not> a \<and> r then pbind (wc_parse_response print jroot) (\<lambda>x. preturn (WC_DATA_MSG_RESPONSE x))
         else if a \<and> \<not> r then pbind (wc_parse_push print jroot) (\<lambda>x. preturn (WC_DATA_MSG_PUSH x))
         else pfail)"

definition wc_parse_msg_json :: "(json \<Rightarrow> string) \<Rightarrow> json \<Rightarrow> wc_msg parsed" where
  "wc_parse_msg_json print jroot = (case json_c_string (object_get_ex jroot ''t'') of
      None \<Rightarrow> pfail
    | Some s \<Rightarrow>
        if strcmp ''c'' s = 0
        then WCPM_CALL_CHILD_PARSER jroot ''d'' (\<lambda>j. pbind (wc_parse_ctrl_msg j) (\<lambda>x. preturn (WC_MSG_CTRL x)))
        else if strcmp ''d'' s = 0
        then WCPM_CALL_CHILD_PARSER jroot ''d'' (\<lambda>j. pbind (wc_parse_data_msg print j) (\<lambda>x. preturn (WC_MSG_DATA x)))
        else pfail)"

section \<open>The incremental parser\<close>

datatype tok_result = Tok_success json | Tok_continue | Tok_error string

record 'tok wc_parser =
  jtok :: 'tok
  p_error :: "string option"

datatype wc_parser_result = WC_PARSER_OK wc_msg | WC_PARSER_CONTINUE | WC_PARSER_ERROR

definition wc_parse_err_not_wc :: string where
  "wc_parse_err_not_wc = ''not a valid webcom message''"

definition wc_parse_err_parser_null :: string where
  "wc_parse_err_parser_null = ''parser is NULL''"

definition wc_datasync_parser_get_error :: "'tok wc_parser option \<Rightarrow> string option" where
  "wc_datasync_parser_get_error parser =
     (case parser of None \<Rightarrow> Some wc_parse_err_parser_null | Some p \<Rightarrow> p_error p)"

definition wc_datasync_parser_new :: "'tok \<Rightarrow> 'tok wc_parser" where
  "wc_datasync_parser_new tok = \<lparr>jtok = tok, p_error = None\<rparr>"

definition wc_datasync_parse_msg_ex ::
    "(json \<Rightarrow> string) \<Rightarrow> ('tok \<Rightarrow> string \<Rightarrow> tok_result \<times> 'tok) \<Rightarrow> 'tok wc_parser option \<Rightarrow> string \<Rightarrow>
     wc_parser_result \<times> 'tok wc_parser option \<times> string list" where
  "wc_datasync_parse_msg_ex print parse_ex parser buf = (case parser of
      None \<Rightarrow> (WC_PARSER_ERROR, None, [])
    | Some p \<Rightarrow>
        let (jte, tok) = parse_ex (jtok p) buf; p = p\<lparr>jtok := tok\<rparr>
        in case jte of
             Tok_success jroot \<Rightarrow>
               (case wc_parse_msg_json print jroot of
                  (Some res, allocated) \<Rightarrow> (WC_PARSER_OK res, Some p, allocated)
                | (None, allocated) \<Rightarrow> (WC_PARSER_ERROR, Some (p\<lparr>p_error := Some wc_parse_err_not_wc\<rparr>), allocated))
           | Tok_continue \<Rightarrow> (WC_PARSER_CONTINUE, Some p, [])
           | Tok_error desc \<Rightarrow> (WC_PARSER_ERROR, Some (p\<lparr>p_error := Some desc\<rparr>), []))"

definition wc_datasync_parse_msg ::
    "(json \<Rightarrow> string) \<Rightarrow> ('tok \<Rightarrow> string \<Rightarrow> tok_result \<times> 'tok) \<Rightarrow> 'tok \<Rightarrow> string \<Rightarrow> wc_msg option" where
  "wc_datasync_parse_msg print parse_ex tok str =
     (case fst (wc_datasync_parse_msg_ex print parse_ex (Some (wc_datasync_parser_new tok)) str) of
        WC_PARSER_OK res \<Rightarrow> Some res
      | _ \<Rightarrow> None)"

lemmas parse_instances = wc_parse_action_merge_def wc_parse_action_listen_def wc_parse_action_unlisten_def
  wc_parse_action_on_disc_put_def wc_parse_action_on_disc_merge_def wc_parse_action_on_disc_cancel_def
  wc_parse_push_listen_revoked_def wc_parse_push_update_put_def wc_parse_push_update_merge_def

section \<open>Ownership of the parsed strings\<close>

named_theorems parse_simps \<open>inversion of successful parsers\<close>

lemma pbind_Some [parse_simps]:
  "pbind m f = (Some y, al) \<longleftrightarrow> (\<exists>x a b. m = (Some x, a) \<and> f x = (Some y, b) \<and> al = a @ b)"
  by (cases m) (auto simp: pbind_def prod_eq_iff split: option.splits)

lemma preturn_Some [parse_simps]: "preturn x = (Some y, al) \<longleftrightarrow> y = x \<and> al = []"
  by (auto simp: preturn_def)

lemma pfail_Some [parse_simps]: "pfail = (Some y, al) \<longleftrightarrow> False"
  by (simp add: pfail_def)

lemma get_string_Some [parse_simps]:
  "wc_hlp_get_string j k = (Some s, al) \<longleftrightarrow> json_c_string (object_get_ex j k) = Some s \<and> al = [s]"
  by (auto simp: wc_hlp_get_string_def strdup_def pfail_def split: option.splits)

lemma get_json_str_Some [parse_simps]:
  "wc_hlp_get_json_str print j k = (Some s, al) \<longleftrightarrow>
     (\<exists>v. object_get_ex j k = Some v \<and> s = print v) \<and> al = [s]"
  by (auto simp: wc_hlp_get_json_str_def strdup_def pfail_def split: option.splits)

lemma get_level1_Some [parse_simps]:
  "wc_hlp_get_level1_sorted_json_str print j k = (Some s, al) \<longleftrightarrow>
     (\<exists>v. object_get_ex j k = Some v \<and> s = print (level1_sorted v)) \<and> al = [s]"
  by (auto simp: wc_hlp_get_level1_sorted_json_str_def strdup_def pfail_def split: option.splits)

lemma get_long_Some [parse_simps]:
  "wc_hlp_get_long j k = (Some i, al) \<longleftrightarrow> object_get_ex j k = Some (JInt i) \<and> al = []"
  by (auto simp: wc_hlp_get_long_def preturn_def pfail_def split: option.splits json.splits)

lemma call_child_Some [parse_simps]:
  "WCPM_CALL_CHILD_PARSER j k f = (Some x, al) \<longleftrightarrow> (\<exists>v. object_get_ex j k = Some v \<and> f v = (Some x, al))"
  by (auto simp: WCPM_CALL_CHILD_PARSER_def pfail_def split: option.splits)

lemma parse_path_Some [parse_simps]:
  "wc_parse_path res j = (Some x, al) \<longleftrightarrow> (\<exists>p. json_c_string (object_get_ex j ''p'') = Some p \<and> x = res p \<and> al = [p])"
  by (auto simp: wc_parse_path_def parse_simps)

lemma parse_path_data_Some [parse_simps]:
  "wc_parse_path_data print res j = (Some x, al) \<longleftrightarrow>
     (\<exists>p v. json_c_string (object_get_ex j ''p'') = Some p \<and> object_get_ex j ''d'' = Some v \<and>
        x = res p (print v) \<and> al = [p, print v])"
  by (auto simp: wc_parse_path_data_def parse_simps)

lemma free_handshake:
  "wc_parse_handshake j = (Some h, al) \<Longrightarrow> mset (wc_free_ctrl_msg (WC_CTRL_MSG_HANDSHAKE h)) = mset al"
  by (auto simp: wc_parse_handshake_def parse_simps)

lemma free_ctrl_msg: "wc_parse_ctrl_msg j = (Some c, al) \<Longrightarrow> mset (wc_free_ctrl_msg c) = mset al"
  by (auto simp: wc_parse_ctrl_msg_def parse_simps dest: free_handshake split: option.splits if_splits)

lemma free_action_put: "wc_parse_action_put print j = (Some a, al) \<Longrightarrow> mset (wc_free_action a) = mset al"
  by (auto simp: wc_parse_action_put_def wc_hlp_get_string_def strdup_def pfail_def pbind_def preturn_def
      wc_hlp_get_json_str_def IF_NOT_NULL_DO_def split: option.splits)

lemma free_action_u: "wc_parse_action_u print j = (Some a, al) \<Longrightarrow> mset (wc_free_action a) = mset al"
  by (auto simp: wc_parse_action_u_def wc_parse_action_auth_def parse_instances parse_simps dest: free_action_put
      split: option.splits if_splits)

lemma free_response: "wc_parse_response print j = (Some r, al) \<Longrightarrow> mset (wc_free_response r) = mset al"
  by (auto simp: wc_parse_response_def wc_free_response_def parse_simps)

lemma free_push: "wc_parse_push print j = (Some x, al) \<Longrightarrow> mset (wc_free_push x) = mset al"
  by (auto simp: wc_parse_push_def wc_parse_push_auth_revoked_def wc_parse_push_update_def parse_instances parse_simps
      split: option.splits if_splits)

lemma free_data_msg: "wc_parse_data_msg print j = (Some d, al) \<Longrightarrow> mset (wc_free_data_msg d) = mset al"
  by (auto simp: wc_parse_data_msg_def wc_parse_action_def Let_def parse_simps
      dest: free_action_u free_response free_push split: if_splits)

text \<open>
  Claim C24: releasing a message that was parsed frees every string that the parser allocated for
  it, each of them once.
\<close>

theorem parsed_message_freed:
  assumes "wc_datasync_parse_msg_ex print parse_ex parser buf = (WC_PARSER_OK msg, parser', allocated)"
  shows "mset (wc_datasync_msg_free msg) = mset allocated"
proof -
  have "mset (wc_datasync_msg_free m) = mset al" if "wc_parse_msg_json print j = (Some m, al)" for j m al
    using that by (auto simp: wc_parse_msg_json_def parse_simps dest: free_ctrl_msg free_data_msg
        split: option.splits if_splits)
  then show ?thesis using assms
    by (auto simp: wc_datasync_parse_msg_ex_def Let_def split: option.splits prod.splits tok_result.splits)
qed

text \<open>A JSON library for concrete runs: the tokener returns a fixed document.\<close>

definition one_doc :: "json \<Rightarrow> string \<Rightarrow> tok_result \<times> json" where
  "one_doc j s = (Tok_success j, j)"

definition print_null :: "json \<Rightarrow> string" where
  "print_null j = ''null''"

definition sample_push :: json where
  "sample_push = JObject [(''t'', JString ''d''), (''d'', JObject [(''a'', JString ''d''),
     (''b'', JObject [(''p'', JString ''/foo''), (''d'', JNull)])])]"

lemma sample_push_parses:
  "wc_datasync_parse_msg_ex print_null one_doc (Some (wc_datasync_parser_new sample_push)) ''x'' =
     (WC_PARSER_OK (WC_MSG_DATA (WC_DATA_MSG_PUSH (Update_put ''/foo'' ''null''))),
      Some (wc_datasync_parser_new sample_push), [''/foo'', ''null''])"
  by code_simp

theorem parsed_message_freed_witness:
  "mset (wc_datasync_msg_free (WC_MSG_DATA (WC_DATA_MSG_PUSH (Update_put ''/foo'' ''null'')))) =
    mset [''/foo'', ''null'']"
  by (rule parsed_message_freed [OF sample_push_parses])

text \<open>
  A message that is refused after some of its strings were copied leaves them allocated:
  a handshake without version returns the error result with the server name still owned by no one.
\<close>

lemma refused_message_leaks:
  "wc_datasync_parse_msg_ex print_null one_doc (Some (wc_datasync_parser_new
       (JObject [(''t'', JString ''c''), (''d'', JObject [(''t'', JString ''h''),
          (''d'', JObject [(''ts'', JInt 1), (''h'', JString ''srv'')])])]))) ''x'' =
     (WC_PARSER_ERROR, Some \<lparr>jtok = JObject [(''t'', JString ''c''), (''d'', JObject [(''t'', JString ''h''),
          (''d'', JObject [(''ts'', JInt 1), (''h'', JString ''srv'')])])], p_error = Some wc_parse_err_not_wc\<rparr>,
      [''srv''])"
  by code_simp

section \<open>Round trip\<close>

lemma c_str_no_nul: "no_nul s \<Longrightarrow> c_str s 0 = s"
  by (auto simp: c_str_def no_nul_def takeWhile_eq_all_conv)

definition action_texts_ok :: "(json \<Rightarrow> string) \<Rightarrow> (string \<Rightarrow> json option) \<Rightarrow> wc_action_u \<Rightarrow> bool" where
  "action_texts_ok print tokener a = (case a of
      Put p d h \<Rightarrow> no_nul p \<and> pred_option no_nul h \<and> print (json_parsed tokener d) = d
    | _ \<Rightarrow> True)"

definition parsed_back :: "wc_action_u \<Rightarrow> bool" where
  "parsed_back a = (case a of Put p d h \<Rightarrow> True | Unauth \<Rightarrow> True | _ \<Rightarrow> False)"

lemma put_round_trip:
  assumes "no_nul p" "pred_option no_nul h" "print (json_parsed tokener d) = d"
  shows "fst (wc_parse_action_put print (wc_put_msg_to_json tokener p d h)) = Some (Put p d h)"
  using assms
  by (cases h) (simp_all add: wc_parse_action_put_def wc_put_msg_to_json_def wc_hlp_get_string_def
      wc_hlp_get_json_str_def pbind_def preturn_def pfail_def strdup_def c_str_no_nul)

lemma pbind_preturn: "pbind (preturn x) f = f x"
  by (simp add: pbind_def preturn_def)

lemma fst_pbind_preturn: "fst (pbind m (\<lambda>x. preturn (f x))) = map_option f (fst m)"
  by (simp add: pbind_def preturn_def split: option.split)

lemmas parse_action_defs = wc_parse_action_u_def WCPM_CALL_CHILD_PARSER_def wc_hlp_get_string_def
  wc_parse_path_def wc_parse_path_data_def wc_parse_action_auth_def pfail_def pbind_def preturn_def parse_instances

text \<open>The action as it stands in the serialised document.\<close>

lemma action_u_round_trip:
  assumes "action_texts_ok print tokener u" "action_to_json tokener u = (kind, body)"
  shows "fst (wc_parse_action_u print (JObject [(''r'', JInt r), (''a'', JString kind), (''b'', body)])) =
    (if parsed_back u then Some u else None)"
proof (cases u)
  case (Put p d h)
  have kind: "kind = ''p''" "body = wc_put_msg_to_json tokener p d h" using assms(2) Put by simp_all
  have "no_nul p" "pred_option no_nul h" "print (json_parsed tokener d) = d"
    using assms(1) Put by (simp_all add: action_texts_ok_def)
  note put = put_round_trip [where print = print and tokener = tokener, OF this]
  have "wc_parse_action_u print (JObject [(''r'', JInt r), (''a'', JString kind), (''b'', body)]) =
      wc_parse_action_put print body"
    by (simp add: wc_parse_action_u_def WCPM_CALL_CHILD_PARSER_def c_str_def kind(1))
  then show ?thesis using put Put by (simp add: kind(2) parsed_back_def)
qed (use assms in \<open>auto simp: parse_action_defs c_str_def parsed_back_def ord_char_def\<close>)

text \<open>
  Claim C26: serialising a put (whose data is JSON text as the library prints it) or an
  unauthentication and parsing the document gives the message back; every other action is
  refused by the parser, which looks for the fields beside the body instead of inside.
\<close>

theorem action_round_trip:
  assumes "action_texts_ok print tokener (a_u a)"
  shows "fst (wc_parse_msg_json print (wc_msg_to_json tokener (WC_MSG_DATA (WC_DATA_MSG_ACTION a)))) =
    (if parsed_back (a_u a) then Some (WC_MSG_DATA (WC_DATA_MSG_ACTION a)) else None)"
proof -
  obtain kind body where kb: "action_to_json tokener (a_u a) = (kind, body)" by fastforce
  have r: "wc_hlp_get_long (JObject [(''r'', JInt (a_r a)), (''a'', JString kind), (''b'', body)]) ''r'' = preturn (a_r a)"
    by (simp add: wc_hlp_get_long_def)
  have "fst (wc_parse_action print (JObject [(''r'', JInt (a_r a)), (''a'', JString kind), (''b'', body)])) =
      (if parsed_back (a_u a) then Some a else None)"
    by (simp only: wc_parse_action_def r pbind_preturn fst_pbind_preturn action_u_round_trip [OF assms kb]) simp
  then show ?thesis
    by (simp add: kb wc_parse_msg_json_def wc_parse_data_msg_def WCPM_CALL_CHILD_PARSER_def c_str_def fst_pbind_preturn)
qed

definition print_sample :: "json \<Rightarrow> string" where
  "print_sample j = (if j = JInt 1 then ''1'' else ''null'')"

definition parse_sample :: "string \<Rightarrow> json option" where
  "parse_sample s = (if s = ''1'' then Some (JInt 1) else None)"

theorem action_round_trip_witness:
  "fst (wc_parse_msg_json print_sample (wc_msg_to_json parse_sample
     (WC_MSG_DATA (WC_DATA_MSG_ACTION \<lparr>a_r = 7, a_u = Put ''/a'' ''1'' (Some ''h'')\<rparr>)))) =
   Some (WC_MSG_DATA (WC_DATA_MSG_ACTION \<lparr>a_r = 7, a_u = Put ''/a'' ''1'' (Some ''h'')\<rparr>))"
  using action_round_trip [of print_sample parse_sample "\<lparr>a_r = 7, a_u = Put ''/a'' ''1'' (Some ''h'')\<rparr>"]
  by (simp add: action_texts_ok_def parsed_back_def print_sample_def parse_sample_def json_parsed_def)

section \<open>The members of an update are sorted\<close>

lemma mset_qsort_insert [simp]: "mset (qsort_insert cmp x xs) = add_mset x (mset xs)"
  by (induction xs) auto

lemma mset_qsort [simp]: "mset (qsort cmp xs) = mset xs"
  by (induction xs) (auto simp: qsort_def)

lemma set_qsort_insert [simp]: "set (qsort_insert cmp x xs) = insert x (set xs)"
  by (induction xs) auto

context key_order
begin

lemma qsort_insert_sorted:
  assumes "f x \<in> K" "\<forall>y\<in>set xs. f y \<in> K" "sorted_wrt (\<lambda>a b. kc (f a) (f b) \<le> 0) xs"
  shows "sorted_wrt (\<lambda>a b. kc (f a) (f b) \<le> 0) (qsort_insert (\<lambda>a b. kc (f a) (f b)) x xs)"
  using assms
proof (induction xs)
  case (Cons y ys)
  show ?case
  proof (cases "kc (f x) (f y) \<le> 0")
    case True
    then show ?thesis using Cons.prems kc_trans [of "f x" "f y"] by auto
  next
    case False
    then have "kc (f y) (f x) \<le> 0" using kc_less_iff [of "f y" "f x"] Cons.prems by simp
    then show ?thesis using Cons False by simp
  qed
qed simp

lemma qsort_sorted:
  "\<forall>y\<in>set xs. f y \<in> K \<Longrightarrow> sorted_wrt (\<lambda>a b. kc (f a) (f b) \<le> 0) (qsort (\<lambda>a b. kc (f a) (f b)) xs)"
proof (induction xs)
  case (Cons x xs)
  have "set (qsort (\<lambda>a b. kc (f a) (f b)) xs) = set xs"
    by (metis mset_qsort set_mset_mset)
  then show ?case using Cons qsort_insert_sorted [of f x "qsort (\<lambda>a b. kc (f a) (f b)) xs"] by (simp add: qsort_def)
qed (simp add: qsort_def)

end

lemma object_add_fresh: "k \<notin> fst ` set ms \<Longrightarrow> object_add ms k v = ms @ [(k, v)]"
  by (induction ms) auto

lemma fold_object_add:
  "distinct (map fst (acc @ ms)) \<Longrightarrow> fold (\<lambda>(k, v) ms. object_add ms k v) ms acc = acc @ ms"
  by (induction ms arbitrary: acc) (auto simp: object_add_fresh)

text \<open>
  The data of an update is handed on with the members of its top-level object sorted by
  the order of keys, none lost and none added.
\<close>

lemma level1_sorted_correct:
  assumes "distinct (map fst ms)" "\<forall>m\<in>set ms. key_ok (fst m)"
  shows "\<exists>ms'. level1_sorted (JObject ms) = JObject ms' \<and> mset ms' = mset ms \<and>
    sorted_wrt (\<lambda>a b. wc_datasync_key_cmp (fst a) (fst b) \<le> 0) ms'"
proof -
  let ?q = "qsort cmp_json_keys ms"
  have "distinct (map fst ?q)"
    using assms(1) mset_eq_imp_distinct_iff [of "map fst ?q" "map fst ms"] by simp
  then have "level1_sorted (JObject ms) = JObject ?q"
    using fold_object_add [of "[]" ?q] by (simp add: level1_sorted_def)
  moreover have "sorted_wrt (\<lambda>a b. wc_datasync_key_cmp (fst a) (fst b) \<le> 0) ?q"
    using dkey.qsort_sorted [of ms fst] assms(2) by (simp add: cmp_json_keys_def [abs_def])
  ultimately show ?thesis by simp
qed

lemma level1_sorted_correct_witness:
  "\<exists>ms'. level1_sorted (JObject [(''b'', JNull), (''10'', JNull), (''9'', JNull)]) = JObject ms' \<and>
     mset ms' = mset [(''b'', JNull), (''10'', JNull), (''9'', JNull)] \<and>
     sorted_wrt (\<lambda>a b. wc_datasync_key_cmp (fst a) (fst b) \<le> 0) ms'"
proof (rule level1_sorted_correct)
  have "key_ok ''b''" "key_ok ''10''" "key_ok ''9''" by code_simp+
  then show "\<forall>m\<in>set [(''b'', JNull), (''10'', JNull), (''9'', JNull)]. key_ok (fst m)" by simp
qed simp

end
