(* ===== verification/Request.thy ===== *)
theory Request
  imports Message Push_Id
begin

text \<open>
  Requests to the server (\<^verbatim>\<open>lib/datasync/request.c\<close>, and
  \<^verbatim>\<open>wc_datasync_send_msg\<close> of \<^verbatim>\<open>lib/datasync/datasync.c\<close>): the table of pending
  requests, the functions that send an action and the dispatch of a response to the callback
  of its request.

  \<open>req_ctx\<close> holds the fields of \<^verbatim>\<open>struct wc_datasync_context\<close> these functions use; the
  later theories extend the record with the registries and the cache.
\<close>

section \<open>Context\<close>

datatype wc_cnx_state =
    WC_CNX_STATE_DISCONNECTED | WC_CNX_STATE_CONNECTING | WC_CNX_STATE_CONNECTED | WC_CNX_STATE_DISCONNECTING

text \<open>
  The callback of a request is the handler of the listen registry or a function of the
  application (known by a number); \<open>user\<close> is the pointer handed back to it.
\<close>

datatype req_callback = On_listen_result | App_callback nat

datatype wc_req_pending_result = WC_REQ_OK | WC_REQ_ERROR

record wc_action_trans =
  t_id :: "64 word"
  t_type :: wc_action_type
  t_callback :: "req_callback option"
  t_user :: nat

record req_ctx =
  cnx_state :: wc_cnx_state
  last_req :: "64 word"
  pending_req_table :: "wc_action_trans list list"
  ws_sent :: "string list"
  pids :: "int pushid_state"
  time_offset :: "64 word"

text \<open>
  What the SDK uses of its libraries: the JSON printer and tokener, the result of
  \<^verbatim>\<open>lws_write\<close> for a frame (any function of the frames written so far), and the random
  numbers.
\<close>

record sdk_env =
  env_print :: "json \<Rightarrow> string"
  env_tokener :: "string \<Rightarrow> json option"
  env_lws_write :: "string list \<Rightarrow> string \<Rightarrow> int"
  env_lrand48 :: "int \<Rightarrow> int \<times> int"

section \<open>Pending requests\<close>

definition PENDING_ACTION_HASH_FACTOR :: nat where "PENDING_ACTION_HASH_FACTOR = 8"

definition pending_req_hash :: "64 word \<Rightarrow> nat" where
  "pending_req_hash rid = unat rid mod 2 ^ PENDING_ACTION_HASH_FACTOR"

definition wc_req_store_pending ::
    "wc_action_trans list list \<Rightarrow> 64 word \<Rightarrow> wc_action_type \<Rightarrow> req_callback option \<Rightarrow> nat \<Rightarrow> wc_action_trans list list" where
  "wc_req_store_pending table rid ty callback user =
     (let trans = \<lparr>t_id = rid, t_type = ty, t_callback = callback, t_user = user\<rparr>;
          slot = pending_req_hash rid
      in table[slot := trans # table ! slot])"

text \<open>The unlinked transaction and what remains of the chain.\<close>

fun chain_take :: "64 word \<Rightarrow> wc_action_trans list \<Rightarrow> wc_action_trans option \<times> wc_action_trans list" where
  "chain_take rid [] = (None, [])"
| "chain_take rid (cur # next) =
     (if t_id cur = rid then (Some cur, next)
      else let (found, rest) = chain_take rid next in (found, cur # rest))"

definition wc_datasync_req_get_pending ::
    "wc_action_trans list list \<Rightarrow> 64 word \<Rightarrow> wc_action_trans option \<times> wc_action_trans list list" where
  "wc_datasync_req_get_pending table rid =
     (let slot = pending_req_hash rid; (cur, chain) = chain_take rid (table ! slot)
      in (cur, table[slot := chain]))"

text \<open>
  The arguments of the callback: the request number, its type, the status, and the texts of the
  response. \<open>invoke\<close> runs a callback.
\<close>

type_synonym 'c req_invoke =
  "req_callback \<Rightarrow> 64 word \<Rightarrow> wc_action_type \<Rightarrow> wc_req_pending_result \<Rightarrow> string \<Rightarrow> string \<Rightarrow> nat \<Rightarrow> 'c \<Rightarrow> 'c res"

definition wc_datasync_req_response_dispatch ::
    "'a req_ctx_scheme req_invoke \<Rightarrow> 'a req_ctx_scheme \<Rightarrow> wc_response \<Rightarrow> 'a req_ctx_scheme res" where
  "wc_datasync_req_response_dispatch invoke ctx response =
     (let (trans, table) = wc_datasync_req_get_pending (pending_req_table ctx) (word_of_int (r_r response));
          ctx = ctx\<lparr>pending_req_table := table\<rparr>
      in case trans of
           None \<Rightarrow> Inr ctx
         | Some t \<Rightarrow>
             (case t_callback t of
                None \<Rightarrow> Inr ctx
              | Some cb \<Rightarrow> invoke cb (t_id t) (t_type t)
                  (if strcmp (r_status response) ''ok'' = 0 then WC_REQ_OK else WC_REQ_ERROR)
                  (r_status response) (r_data response) (t_user t) ctx))"

text \<open>The transactions freed when the context is destroyed.\<close>

definition wc_datasync_free_pending_trans :: "wc_action_trans list list \<Rightarrow> wc_action_trans list" where
  "wc_datasync_free_pending_trans table = concat (map (\<lambda>i. table ! i) [0..<2 ^ PENDING_ACTION_HASH_FACTOR])"

section \<open>Sending\<close>

definition wc_datasync_send_msg :: "sdk_env \<Rightarrow> 'a req_ctx_scheme \<Rightarrow> wc_msg \<Rightarrow> int \<times> 'a req_ctx_scheme" where
  "wc_datasync_send_msg E ctx msg =
     (if cnx_state ctx \<noteq> WC_CNX_STATE_CONNECTED then (-1, ctx)
      else let jsonstr = wc_datasync_msg_to_json_str (env_print E) (env_tokener E) msg;
               sent = env_lws_write E (ws_sent ctx) jsonstr
           in (sent, ctx\<lparr>ws_sent := ws_sent ctx @ [jsonstr]\<rparr>))"

definition wc_datasync_next_reqnum :: "'a req_ctx_scheme \<Rightarrow> 64 word \<times> 'a req_ctx_scheme" where
  "wc_datasync_next_reqnum ctx = (let r = last_req ctx + 1 in (r, ctx\<lparr>last_req := r\<rparr>))"

text \<open>The body shared by the request functions; the result is the request number or -1.\<close>

definition DEFINE_REQ_FUNC ::
    "sdk_env \<Rightarrow> 'a req_ctx_scheme \<Rightarrow> wc_action_u \<Rightarrow> req_callback option \<Rightarrow> nat \<Rightarrow> int \<times> 'a req_ctx_scheme" where
  "DEFINE_REQ_FUNC E ctx req callback user =
     (let (reqnum, ctx) = wc_datasync_next_reqnum ctx;
          msg = WC_MSG_DATA (WC_DATA_MSG_ACTION \<lparr>a_r = sint reqnum, a_u = req\<rparr>);
          ctx = ctx\<lparr>pending_req_table :=
            wc_req_store_pending (pending_req_table ctx) reqnum (action_type req) callback user\<rparr>;
          (ret, ctx) = wc_datasync_send_msg E ctx msg
      in (if ret > 0 then sint reqnum else -1, ctx))"

definition wc_datasync_auth where
  "wc_datasync_auth E ctx cred callback user = DEFINE_REQ_FUNC E ctx (Auth cred) callback user"

definition wc_datasync_unauth where
  "wc_datasync_unauth E ctx callback user = DEFINE_REQ_FUNC E ctx Unauth callback user"

definition wc_datasync_listen where
  "wc_datasync_listen E ctx path callback user = DEFINE_REQ_FUNC E ctx (Listen path) callback user"

definition wc_datasync_unlisten where
  "wc_datasync_unlisten E ctx path callback user = DEFINE_REQ_FUNC E ctx (Unlisten path) callback user"

definition wc_datasync_put where
  "wc_datasync_put E ctx path json callback user = DEFINE_REQ_FUNC E ctx (Put path json None) callback user"

definition wc_datasync_merge where
  "wc_datasync_merge E ctx path json callback user = DEFINE_REQ_FUNC E ctx (Merge path json) callback user"

definition wc_datasync_on_disc_put where
  "wc_datasync_on_disc_put E ctx path json callback user = DEFINE_REQ_FUNC E ctx (On_disc_put path json) callback user"

definition wc_datasync_on_disc_merge where
  "wc_datasync_on_disc_merge E ctx path json callback user = DEFINE_REQ_FUNC E ctx (On_disc_merge path json) callback user"

definition wc_datasync_on_disc_cancel where
  "wc_datasync_on_disc_cancel E ctx path callback user = DEFINE_REQ_FUNC E ctx (On_disc_cancel path) callback user"

text \<open>\<open>tv\<close> is the time of day at the call.\<close>

definition wc_datasync_push ::
    "sdk_env \<Rightarrow> int \<times> int \<Rightarrow> 'a req_ctx_scheme \<Rightarrow> string \<Rightarrow> string \<Rightarrow> req_callback option \<Rightarrow> nat \<Rightarrow> int \<times> 'a req_ctx_scheme" where
  "wc_datasync_push E tv ctx path json callback user =
     (let (pid, st) = wc_datasync_push_id (env_lrand48 E) (pids ctx) (wc_datasync_server_now tv (time_offset ctx));
          push_path = path @ CHR ''/'' # pid
      in wc_datasync_put E (ctx\<lparr>pids := st\<rparr>) push_path json callback user)"

section \<open>The table as a map\<close>

definition pending_map :: "wc_action_trans list list \<Rightarrow> 64 word \<Rightarrow> wc_action_trans option" where
  "pending_map table rid = List.find (\<lambda>t. t_id t = rid) (table ! pending_req_hash rid)"

text \<open>Every transaction is in the slot of its number, and no number occurs twice.\<close>

definition pending_wf :: "wc_action_trans list list \<Rightarrow> bool" where
  "pending_wf table \<longleftrightarrow> length table = 2 ^ PENDING_ACTION_HASH_FACTOR \<and>
     (\<forall>i < length table. (\<forall>t\<in>set (table ! i). pending_req_hash (t_id t) = i) \<and> distinct (map t_id (table ! i)))"

lemma pending_req_hash_less: "pending_req_hash rid < 2 ^ PENDING_ACTION_HASH_FACTOR"
  by (simp add: pending_req_hash_def)

lemma find_None_ids: "List.find (\<lambda>t. t_id t = rid) ts = None \<longleftrightarrow> rid \<notin> t_id ` set ts"
  by (auto simp: find_None_iff)

lemma chain_take_found: "fst (chain_take rid ts) = List.find (\<lambda>t. t_id t = rid) ts"
  by (induction ts) (auto split: prod.split)

lemma chain_take_rest:
  "distinct (map t_id ts) \<Longrightarrow> snd (chain_take rid ts) = filter (\<lambda>t. t_id t \<noteq> rid) ts"
proof (induction ts)
  case (Cons t ts)
  have "filter (\<lambda>t. t_id t \<noteq> rid) ts = ts" if "rid \<notin> t_id ` set ts"
    using that by (auto simp: filter_id_conv)
  then show ?case using Cons by (auto split: prod.split)
qed simp

lemma find_filter_ids:
  "List.find (\<lambda>t. t_id t = i) (filter (\<lambda>t. t_id t \<noteq> j) ts) = (if i = j then None else List.find (\<lambda>t. t_id t = i) ts)"
  by (induction ts) auto

lemma pending_wf_slot:
  assumes "pending_wf table"
  shows "length table = 2 ^ PENDING_ACTION_HASH_FACTOR"
    "distinct (map t_id (table ! pending_req_hash rid))"
    "t \<in> set (table ! pending_req_hash rid) \<Longrightarrow> pending_req_hash (t_id t) = pending_req_hash rid"
  using assms pending_req_hash_less [of rid] by (auto simp: pending_wf_def)

lemma pending_wf_update:
  assumes "pending_wf table" "\<forall>t\<in>set ts. pending_req_hash (t_id t) = pending_req_hash rid" "distinct (map t_id ts)"
  shows "pending_wf (table[pending_req_hash rid := ts])"
proof -
  have "(table[pending_req_hash rid := ts]) ! i = (if i = pending_req_hash rid then ts else table ! i)" for i
    using pending_wf_slot(1) [OF assms(1)] pending_req_hash_less [of rid] by (simp add: nth_list_update)
  then show ?thesis using assms by (simp add: pending_wf_def)
qed

text \<open>
  The interface of a store of pending transactions: storing under a fresh number and taking a
  number out.
\<close>

locale pending_store =
  fixes store :: "'s \<Rightarrow> 't \<Rightarrow> 's" and tk :: "'s \<Rightarrow> 'i \<Rightarrow> 't option \<times> 's"
    and abs :: "'s \<Rightarrow> 'i \<Rightarrow> 't option" and inv :: "'s \<Rightarrow> bool" and ident :: "'t \<Rightarrow> 'i"
  assumes store_abs: "inv s \<Longrightarrow> abs s (ident t) = None \<Longrightarrow> abs (store s t) = (abs s)(ident t := Some t)"
    and store_inv: "inv s \<Longrightarrow> abs s (ident t) = None \<Longrightarrow> inv (store s t)"
    and take_found: "inv s \<Longrightarrow> fst (tk s i) = abs s i"
    and take_abs: "inv s \<Longrightarrow> abs (snd (tk s i)) = (abs s)(i := None)"
    and take_inv: "inv s \<Longrightarrow> inv (snd (tk s i))"
begin

lemma take_stored:
  "inv s \<Longrightarrow> abs s (ident t) = None \<Longrightarrow> fst (tk (store s t) (ident t)) = Some t"
  by (simp add: take_found store_inv store_abs)

lemma take_twice: "inv s \<Longrightarrow> fst (tk (snd (tk s i)) i) = None"
  by (simp add: take_found take_inv take_abs)

lemma store_take: "inv s \<Longrightarrow> abs s (ident t) = None \<Longrightarrow> abs (snd (tk (store s t) (ident t))) = abs s"
  by (simp add: take_abs store_inv store_abs fun_upd_idem)

end

definition store_trans :: "wc_action_trans list list \<Rightarrow> wc_action_trans \<Rightarrow> wc_action_trans list list" where
  "store_trans table t = wc_req_store_pending table (t_id t) (t_type t) (t_callback t) (t_user t)"

lemma store_trans_update:
  "store_trans table t = table[pending_req_hash (t_id t) := t # table ! pending_req_hash (t_id t)]"
  by (cases t) (simp add: store_trans_def wc_req_store_pending_def Let_def)

interpretation pend: pending_store store_trans wc_datasync_req_get_pending pending_map pending_wf t_id
proof
  fix s and t :: wc_action_trans assume s: "pending_wf s" and fresh: "pending_map s (t_id t) = None"
  let ?h = "pending_req_hash (t_id t)"
  have len: "?h < length s" using pending_wf_slot(1) [OF s] pending_req_hash_less [of "t_id t"] by simp
  show "pending_map (store_trans s t) = (pending_map s)(t_id t := Some t)"
    using len by (auto simp: pending_map_def store_trans_update nth_list_update fun_eq_iff)
  show "pending_wf (store_trans s t)"
    unfolding store_trans_update using fresh pending_wf_slot(2,3) [OF s, where rid = "t_id t"]
    by (intro pending_wf_update [OF s]) (auto simp: pending_map_def find_None_ids)
next
  fix s i assume s: "pending_wf s"
  let ?h = "pending_req_hash i"
  have len: "?h < length s" using pending_wf_slot(1) [OF s] pending_req_hash_less [of i] by simp
  note slot = pending_wf_slot(2) [OF s, of i]
  have taken: "wc_datasync_req_get_pending s i = (pending_map s i, s[?h := filter (\<lambda>t. t_id t \<noteq> i) (s ! ?h)])"
    using chain_take_found [of i "s ! ?h"] chain_take_rest [OF slot, of i]
    by (auto simp: wc_datasync_req_get_pending_def pending_map_def Let_def split: prod.split)
  show "fst (wc_datasync_req_get_pending s i) = pending_map s i" by (simp add: taken)
  show "pending_map (snd (wc_datasync_req_get_pending s i)) = (pending_map s)(i := None)"
    using len by (auto simp: taken pending_map_def nth_list_update find_filter_ids find_None_ids fun_eq_iff)
  show "pending_wf (snd (wc_datasync_req_get_pending s i))"
    unfolding taken snd_conv using pending_wf_slot(3) [OF s] slot
    by (intro pending_wf_update [OF s]) (auto simp: distinct_map_filter)
qed

section \<open>Requests and responses\<close>

text \<open>
  The pending numbers are positive and at most the last number handed out, which is a
  non-negative \<^verbatim>\<open>int64_t\<close>.
\<close>

definition req_wf :: "'a req_ctx_scheme \<Rightarrow> bool" where
  "req_wf ctx \<longleftrightarrow> pending_wf (pending_req_table ctx) \<and> uint (last_req ctx) < 2 ^ 63 \<and>
     (\<forall>rid. pending_map (pending_req_table ctx) rid \<noteq> None \<longrightarrow> 0 < uint rid \<and> uint rid \<le> uint (last_req ctx))"

definition new_trans :: "'a req_ctx_scheme \<Rightarrow> wc_action_u \<Rightarrow> req_callback option \<Rightarrow> nat \<Rightarrow> wc_action_trans" where
  "new_trans ctx req cb user =
     \<lparr>t_id = last_req ctx + 1, t_type = action_type req, t_callback = cb, t_user = user\<rparr>"

text \<open>What every request does, whether the message goes out or not.\<close>

lemma request_effect:
  assumes "DEFINE_REQ_FUNC E ctx req cb user = (n, ctx')"
  shows "pending_req_table ctx' = store_trans (pending_req_table ctx) (new_trans ctx req cb user)"
    "last_req ctx' = last_req ctx + 1" "cnx_state ctx' = cnx_state ctx"
    "n = sint (last_req ctx + 1) \<or> n = -1"
    "cnx_state ctx \<noteq> WC_CNX_STATE_CONNECTED \<Longrightarrow> n = -1 \<and> ws_sent ctx' = ws_sent ctx"
    "cnx_state ctx = WC_CNX_STATE_CONNECTED \<Longrightarrow> \<exists>frame. ws_sent ctx' = ws_sent ctx @ [frame] \<and>
       frame = wc_datasync_msg_to_json_str (env_print E) (env_tokener E)
         (WC_MSG_DATA (WC_DATA_MSG_ACTION \<lparr>a_r = sint (last_req ctx + 1), a_u = req\<rparr>)) \<and>
       n = (if env_lws_write E (ws_sent ctx) frame > 0 then sint (last_req ctx + 1) else -1)"
  using assms
  by (auto simp: DEFINE_REQ_FUNC_def wc_datasync_next_reqnum_def wc_datasync_send_msg_def Let_def store_trans_def
      new_trans_def split: if_splits)

lemma next_reqnum_range:
  assumes "uint (last_req ctx) < 2 ^ 63 - 1"
  shows "uint (last_req ctx + 1) = uint (last_req ctx) + 1" "sint (last_req ctx + 1) = uint (last_req ctx) + 1"
proof -
  show u: "uint (last_req ctx + 1) = uint (last_req ctx) + 1" using assms by (simp add: uint_word_ariths)
  have "0 \<le> uint (last_req ctx)" by simp
  then have "signed_take_bit 63 (uint (last_req ctx) + 1) = uint (last_req ctx) + 1"
    using assms by (intro signed_take_bit_int_eq_self) auto
  then show "sint (last_req ctx + 1) = uint (last_req ctx) + 1" by (simp add: sint_uint u)
qed

lemma request_fresh:
  assumes "req_wf ctx" "uint (last_req ctx) < 2 ^ 63 - 1"
  shows "pending_map (pending_req_table ctx) (last_req ctx + 1) = None"
  using assms next_reqnum_range(1) [OF assms(2)] by (force simp: req_wf_def)

lemma t_id_new_trans [simp]: "t_id (new_trans ctx req cb user) = last_req ctx + 1"
  by (simp add: new_trans_def)

lemma request_keeps_wf:
  assumes "req_wf ctx" "uint (last_req ctx) < 2 ^ 63 - 1" "DEFINE_REQ_FUNC E ctx req cb user = (n, ctx')"
  shows "req_wf ctx'"
    "pending_map (pending_req_table ctx') =
      (pending_map (pending_req_table ctx))(last_req ctx + 1 := Some (new_trans ctx req cb user))"
proof -
  have wf: "pending_wf (pending_req_table ctx)" using assms(1) by (simp add: req_wf_def)
  note fresh = request_fresh [OF assms(1,2)]
  note eff = request_effect(1,2) [OF assms(3)]
  show m: "pending_map (pending_req_table ctx') =
      (pending_map (pending_req_table ctx))(last_req ctx + 1 := Some (new_trans ctx req cb user))"
    using pend.store_abs [OF wf, of "new_trans ctx req cb user"] fresh by (simp add: eff(1))
  have "pending_wf (pending_req_table ctx')"
    using pend.store_inv [OF wf, of "new_trans ctx req cb user"] fresh by (simp add: eff(1))
  then show "req_wf ctx'"
    using assms(1,2) next_reqnum_range(1) [OF assms(2)]
    by (auto simp: req_wf_def m eff(2))
qed

lemma response_keeps_wf:
  assumes "req_wf ctx" "(tr, table) = wc_datasync_req_get_pending (pending_req_table ctx) rid"
  shows "req_wf (ctx\<lparr>pending_req_table := table\<rparr>)" "tr = pending_map (pending_req_table ctx) rid"
    "pending_map table = (pending_map (pending_req_table ctx))(rid := None)"
proof -
  have wf: "pending_wf (pending_req_table ctx)" using assms(1) by (simp add: req_wf_def)
  show "tr = pending_map (pending_req_table ctx) rid" using pend.take_found [OF wf, of rid] assms(2) by (metis fst_conv)
  show m: "pending_map table = (pending_map (pending_req_table ctx))(rid := None)"
    using pend.take_abs [OF wf, of rid] assms(2) by (metis snd_conv)
  have "pending_wf table" using pend.take_inv [OF wf, of rid] assms(2) by (metis snd_conv)
  then show "req_wf (ctx\<lparr>pending_req_table := table\<rparr>)" using assms(1) by (simp add: req_wf_def m)
qed

lemma chain_take_none: "List.find (\<lambda>t. t_id t = rid) ts = None \<Longrightarrow> chain_take rid ts = (None, ts)"
  by (induction ts) (auto split: if_splits)

lemma get_pending_none:
  "pending_map table rid = None \<Longrightarrow> wc_datasync_req_get_pending table rid = (None, table)"
  by (simp add: wc_datasync_req_get_pending_def pending_map_def chain_take_none Let_def)

lemma dispatch_unknown:
  "pending_map (pending_req_table ctx) (word_of_int (r_r response)) = None \<Longrightarrow>
   wc_datasync_req_response_dispatch invoke ctx response = Inr ctx"
  by (simp add: wc_datasync_req_response_dispatch_def get_pending_none)

lemma dispatch_known:
  assumes "req_wf ctx" "pending_map (pending_req_table ctx) (word_of_int (r_r response)) = Some t"
    "t_callback t = Some cb"
  shows "\<exists>table. wc_datasync_req_response_dispatch invoke ctx response =
      invoke cb (t_id t) (t_type t) (if strcmp (r_status response) ''ok'' = 0 then WC_REQ_OK else WC_REQ_ERROR)
        (r_status response) (r_data response) (t_user t) (ctx\<lparr>pending_req_table := table\<rparr>) \<and>
    req_wf (ctx\<lparr>pending_req_table := table\<rparr>) \<and>
    pending_map table = (pending_map (pending_req_table ctx))(word_of_int (r_r response) := None)"
proof -
  obtain tr table where g: "(tr, table) = wc_datasync_req_get_pending (pending_req_table ctx) (word_of_int (r_r response))"
    by (metis surj_pair)
  note r = response_keeps_wf [OF assms(1) g]
  show ?thesis
    using r assms(2,3) by (intro exI [of _ table]) (simp add: wc_datasync_req_response_dispatch_def g [symmetric])
qed

text \<open>
  Claim C16: the hash table of pending requests refines a map from request numbers: storing adds one
  entry, taking a number out returns and removes exactly its entry, whatever chains collide.
\<close>

theorem pending_table_refines_map:
  assumes "pending_wf table" "pending_map table rid = None"
  shows "pending_map (wc_req_store_pending table rid ty cb user) =
      (pending_map table)(rid := Some \<lparr>t_id = rid, t_type = ty, t_callback = cb, t_user = user\<rparr>) \<and>
    pending_wf (wc_req_store_pending table rid ty cb user) \<and>
    fst (wc_datasync_req_get_pending table i) = pending_map table i \<and>
    pending_map (snd (wc_datasync_req_get_pending table i)) = (pending_map table)(i := None) \<and>
    pending_wf (snd (wc_datasync_req_get_pending table i))"
  using pend.store_abs [OF assms(1), of "\<lparr>t_id = rid, t_type = ty, t_callback = cb, t_user = user\<rparr>"]
    pend.store_inv [OF assms(1), of "\<lparr>t_id = rid, t_type = ty, t_callback = cb, t_user = user\<rparr>"]
    pend.take_found [OF assms(1)] pend.take_abs [OF assms(1)] pend.take_inv [OF assms(1)] assms(2)
  by (simp_all add: store_trans_def)

definition empty_table :: "wc_action_trans list list" where
  "empty_table = replicate 256 []"

lemma empty_table_wf: "pending_wf empty_table" "pending_map empty_table rid = None"
  using pending_req_hash_less [of rid]
  by (simp_all add: pending_wf_def empty_table_def pending_map_def PENDING_ACTION_HASH_FACTOR_def)

theorem pending_table_refines_map_witness:
  "pending_map (wc_req_store_pending empty_table 3 WC_ACTION_PUT None 0) =
     (pending_map empty_table)(3 := Some \<lparr>t_id = 3, t_type = WC_ACTION_PUT, t_callback = None, t_user = 0\<rparr>)"
  using pending_table_refines_map [OF empty_table_wf] by blast

text \<open>
  Claim C10: a request that was sent is answered once: its response runs its callback with its own
  number, type and user pointer, takes the entry out of the table and leaves every other pending
  request, and a second response with the same number does nothing.
\<close>

theorem response_dispatched_once:
  assumes "req_wf ctx" "uint (last_req ctx) < 2 ^ 63 - 1"
    "DEFINE_REQ_FUNC E ctx req (Some cb) user = (n, ctx')" "n \<noteq> -1" "r_r response = n"
  shows "\<exists>ctx''. n = uint (last_req ctx) + 1 \<and>
    wc_datasync_req_response_dispatch invoke ctx' response =
      invoke cb (last_req ctx + 1) (action_type req)
        (if strcmp (r_status response) ''ok'' = 0 then WC_REQ_OK else WC_REQ_ERROR)
        (r_status response) (r_data response) user ctx'' \<and>
    ctx'' = ctx'\<lparr>pending_req_table := pending_req_table ctx''\<rparr> \<and> req_wf ctx'' \<and>
    pending_map (pending_req_table ctx'') = pending_map (pending_req_table ctx) \<and>
    wc_datasync_req_response_dispatch invoke ctx'' response = Inr ctx''"
proof -
  note wf = request_keeps_wf [OF assms(1,2,3)]
  note fresh = request_fresh [OF assms(1,2)]
  have n: "n = sint (last_req ctx + 1)" using request_effect(4) [OF assms(3)] assms(4) by simp
  have rid: "word_of_int (r_r response) = last_req ctx + 1" by (simp add: assms(5) n)
  have "pending_map (pending_req_table ctx') (word_of_int (r_r response)) = Some (new_trans ctx req (Some cb) user)"
    by (simp add: wf(2) rid)
  from dispatch_known [OF wf(1) this, of cb invoke]
  obtain table where t: "wc_datasync_req_response_dispatch invoke ctx' response =
      invoke cb (last_req ctx + 1) (action_type req)
        (if strcmp (r_status response) ''ok'' = 0 then WC_REQ_OK else WC_REQ_ERROR)
        (r_status response) (r_data response) user (ctx'\<lparr>pending_req_table := table\<rparr>)"
    "req_wf (ctx'\<lparr>pending_req_table := table\<rparr>)"
    "pending_map table = (pending_map (pending_req_table ctx'))(last_req ctx + 1 := None)"
    unfolding rid by (auto simp: new_trans_def)
  have m: "pending_map table = pending_map (pending_req_table ctx)"
    using fresh by (simp add: t(3) wf(2) fun_upd_idem)
  have "wc_datasync_req_response_dispatch invoke (ctx'\<lparr>pending_req_table := table\<rparr>) response =
      Inr (ctx'\<lparr>pending_req_table := table\<rparr>)"
    by (rule dispatch_unknown) (simp add: rid m fresh)
  then show ?thesis
    using t(1,2) m n next_reqnum_range(2) [OF assms(2)]
    by (intro exI [of _ "ctx'\<lparr>pending_req_table := table\<rparr>"]) simp
qed

definition sample_env :: sdk_env where
  "sample_env = \<lparr>env_print = (\<lambda>j. ''{}''), env_tokener = (\<lambda>s. None), env_lws_write = (\<lambda>h f. 2),
     env_lrand48 = (\<lambda>g. (1, g))\<rparr>"

definition sample_req_ctx :: req_ctx where
  "sample_req_ctx = \<lparr>cnx_state = WC_CNX_STATE_CONNECTED, last_req = 0, pending_req_table = empty_table, ws_sent = [],
     pids = zero_pids, time_offset = 0\<rparr>"

lemma sample_req_ctx_wf: "req_wf sample_req_ctx"
  by (simp add: req_wf_def sample_req_ctx_def empty_table_wf)

theorem response_dispatched_once_witness:
  "\<exists>ctx''. fst (DEFINE_REQ_FUNC sample_env sample_req_ctx (Listen ''/a'') (Some On_listen_result) 5) = 1 \<and>
    wc_datasync_req_response_dispatch (\<lambda>cb rid ty st a b u c. if u = 5 then Inr c else Inl NullDeref)
      (snd (DEFINE_REQ_FUNC sample_env sample_req_ctx (Listen ''/a'') (Some On_listen_result) 5))
      \<lparr>r_r = 1, r_status = ''ok'', r_data = ''null''\<rparr> = Inr ctx''"
proof -
  obtain n ctx' where r: "DEFINE_REQ_FUNC sample_env sample_req_ctx (Listen ''/a'') (Some On_listen_result) 5 = (n, ctx')"
    by fastforce
  have n: "n = 1" using arg_cong [OF r, of fst]
    by (simp add: DEFINE_REQ_FUNC_def wc_datasync_next_reqnum_def wc_datasync_send_msg_def sample_req_ctx_def
        sample_env_def Let_def)
  have "uint (last_req sample_req_ctx) < 2 ^ 63 - 1" by (simp add: sample_req_ctx_def)
  from response_dispatched_once [where response = "\<lparr>r_r = 1, r_status = ''ok'', r_data = ''null''\<rparr>" and
      invoke = "\<lambda>cb rid ty st a b u c. if u = 5 then Inr c else Inl NullDeref", OF sample_req_ctx_wf this r]
  show ?thesis by (auto simp: r n)
qed

text \<open>
  A request on a context that is not connected returns -1 and sends nothing, but its
  transaction stays in the table of pending requests.
\<close>

lemma request_not_connected:
  assumes "req_wf ctx" "uint (last_req ctx) < 2 ^ 63 - 1" "cnx_state ctx \<noteq> WC_CNX_STATE_CONNECTED"
  shows "\<exists>ctx'. DEFINE_REQ_FUNC E ctx req cb user = (-1, ctx') \<and> ws_sent ctx' = ws_sent ctx \<and>
    pending_map (pending_req_table ctx') (last_req ctx + 1) = Some (new_trans ctx req cb user)"
proof -
  obtain n ctx' where r: "DEFINE_REQ_FUNC E ctx req cb user = (n, ctx')" by fastforce
  show ?thesis using request_effect(5) [OF r assms(3)] request_keeps_wf(2) [OF assms(1,2) r] by (simp add: r)
qed

lemma request_not_connected_witness:
  "\<exists>ctx'. DEFINE_REQ_FUNC sample_env (sample_req_ctx\<lparr>cnx_state := WC_CNX_STATE_CONNECTING\<rparr>) Unauth None 0 = (-1, ctx') \<and>
    ws_sent ctx' = []"
  using request_not_connected [of "sample_req_ctx\<lparr>cnx_state := WC_CNX_STATE_CONNECTING\<rparr>" sample_env Unauth None 0]
    empty_table_wf by (auto simp: req_wf_def sample_req_ctx_def)

end
