(* ===== verification/Path_Registry.thy ===== *)
theory Path_Registry
  imports Avl Path
begin

text \<open>
  The registries of listen requests and of subscriptions are search trees whose elements are
  ordered by their path (\<^verbatim>\<open>wc_datasync_path_cmp\<close>). This theory has the loops over such a tree
  and its view as a map from lists of keys, for paths whose keys are canonical: two such paths
  compare equal only when they have the same parts.
\<close>

named_theorems reg_simps \<open>the operations of a registry on its map view\<close>

definition path_canon :: "wc_ds_path \<Rightarrow> bool" where
  "path_canon p \<longleftrightarrow> list_all key_canonical (path_parts p)"

lemma path_canon_ok: "path_canon p \<Longrightarrow> path_ok p"
  by (auto simp: path_canon_def path_ok_def list_all_iff key_canonical_def)

interpretation pcanon: key_order wc_datasync_path_cmp "Collect path_canon"
proof
  fix a b assume "a \<in> Collect path_canon" "b \<in> Collect path_canon"
  then show "wc_datasync_path_cmp a b < 0 \<longleftrightarrow> 0 < wc_datasync_path_cmp b a"
    by (intro dpath.kc_swap) (simp_all add: path_canon_ok)
next
  fix a b c assume "a \<in> Collect path_canon" "b \<in> Collect path_canon" "c \<in> Collect path_canon"
    and le: "wc_datasync_path_cmp a b \<le> 0" "wc_datasync_path_cmp b c \<le> 0"
  then show "wc_datasync_path_cmp a c \<le> 0"
    by (intro dpath.kc_trans [OF _ _ _ le]) (simp_all add: path_canon_ok)
qed

lemma path_cmp_eq: "path_canon p \<Longrightarrow> path_canon q \<Longrightarrow> wc_datasync_path_cmp p q = 0 \<longleftrightarrow> path_parts p = path_parts q"
  by (simp add: path_canon_def path_cmp_canonical)

lemma path_canon_starts_with:
  "path_canon p \<Longrightarrow> path_canon q \<Longrightarrow> wc_datasync_path_starts_with p q \<longleftrightarrow> prefix (path_parts q) (path_parts p)"
  by (rule starts_with_iff) (auto simp: path_canon_def list_all_iff key_canonical_def key_ok_def)

text \<open>The path cut to its first parts, the way the registries walk up a path.\<close>

lemma path_parts_cut: "u \<le> p_nparts p \<Longrightarrow> path_parts (p\<lparr>p_nparts := u\<rparr>) = take u (path_parts p)"
  by (cases "p_buf p") (simp_all add: path_parts_def wc_datasync_path_get_part_def take_map)

lemma path_canon_cut: "path_canon p \<Longrightarrow> u \<le> p_nparts p \<Longrightarrow> path_canon (p\<lparr>p_nparts := u\<rparr>)"
  by (auto simp: path_canon_def path_parts_cut list_all_iff dest: in_set_takeD)

section \<open>Operations\<close>

interpretation preg: avl_store wc_datasync_path_cmp "Collect path_canon" pth "\<lambda>d. d" for pth
  by unfold_locales simp

abbreviation reg_get :: "('a \<Rightarrow> wc_ds_path) \<Rightarrow> 'a avl \<Rightarrow> wc_ds_path \<Rightarrow> 'a option" where
  "reg_get pth t p \<equiv> avl_get wc_datasync_path_cmp pth t p"

abbreviation reg_insert :: "('a \<Rightarrow> wc_ds_path) \<Rightarrow> 'a avl \<Rightarrow> 'a \<Rightarrow> 'a avl" where
  "reg_insert pth t d \<equiv> snd (avl_insert wc_datasync_path_cmp pth (\<lambda>d. d) t d)"

abbreviation reg_remove :: "('a \<Rightarrow> wc_ds_path) \<Rightarrow> 'a avl \<Rightarrow> wc_ds_path \<Rightarrow> 'a avl" where
  "reg_remove pth t p \<equiv> avl_remove wc_datasync_path_cmp pth t p"

abbreviation reg_modify :: "('a \<Rightarrow> wc_ds_path) \<Rightarrow> ('a \<Rightarrow> 'a) \<Rightarrow> 'a avl \<Rightarrow> wc_ds_path \<Rightarrow> 'a avl" where
  "reg_modify pth f t p \<equiv> avl_modify wc_datasync_path_cmp pth f t p"

abbreviation reg_wf :: "('a \<Rightarrow> wc_ds_path) \<Rightarrow> 'a avl \<Rightarrow> bool" where
  "reg_wf pth t \<equiv> avl_wf wc_datasync_path_cmp (Collect path_canon) pth t"

text \<open>
  The elements that \<^verbatim>\<open>while ((x = avl_it_next(&it)) != NULL)\<close> visits, from the first element
  and from a path on. The number of elements is enough fuel.
\<close>

definition reg_all :: "'a avl \<Rightarrow> 'a list" where
  "reg_all t = fst (avl_it_run (length (avl_elems t)) (avl_it_start (Some t)))"

definition reg_from :: "('a \<Rightarrow> wc_ds_path) \<Rightarrow> 'a avl \<Rightarrow> wc_ds_path \<Rightarrow> 'a list" where
  "reg_from pth t p = fst (avl_it_run (length (avl_elems t)) (avl_it_start_at wc_datasync_path_cmp pth t p))"

lemma reg_all_elems: "reg_all t = avl_elems t"
  using it_run_elems [of "avl_it_start (Some t)" "length (avl_elems t)"]
  by (simp add: reg_all_def avl_elems_def)

lemma reg_from_elems:
  assumes "reg_wf pth t" "path_canon p"
  shows "reg_from pth t p = filter (\<lambda>x. wc_datasync_path_cmp p (pth x) \<le> 0) (avl_elems t)"
  using preg.start_at_run [OF assms(1), of p "length (avl_elems t)"] assms(2) by (simp add: reg_from_def)

section \<open>The view as a map\<close>

definition reg_map :: "('a \<Rightarrow> wc_ds_path) \<Rightarrow> 'a avl \<Rightarrow> string list \<Rightarrow> 'a option" where
  "reg_map pth t ps = List.find (\<lambda>x. path_parts (pth x) = ps) (avl_elems t)"

lemma reg_wf_canon: "reg_wf pth t \<Longrightarrow> x \<in> set (avl_elems t) \<Longrightarrow> path_canon (pth x)"
  using preg.ordered_inK [of pth "avl_root t" x] by (auto simp: avl_wf_def avl_elems_def)

lemma reg_wf_sorted:
  "reg_wf pth t \<Longrightarrow> sorted_wrt (\<lambda>x y. wc_datasync_path_cmp (pth x) (pth y) < 0) (avl_elems t)"
  by (simp add: avl_wf_def avl_elems_def avl_ordered_def)

lemma reg_wf_distinct: "reg_wf pth t \<Longrightarrow> distinct (avl_elems t)"
  using preg.distinct_inorder [of pth "avl_root t"] by (simp add: avl_wf_def avl_elems_def)

lemma reg_elems_unique:
  assumes "reg_wf pth t" "x \<in> set (avl_elems t)" "y \<in> set (avl_elems t)" "path_parts (pth x) = path_parts (pth y)"
  shows "x = y"
proof -
  have "path_canon (pth x)" "path_canon (pth y)" using assms by (auto intro: reg_wf_canon)
  then show ?thesis
    using assms preg.match_unique [of pth "avl_root t" "pth x" x y] path_cmp_eq
    by (auto simp: avl_wf_def avl_elems_def)
qed

lemma reg_map_iff:
  assumes "reg_wf pth t"
  shows "reg_map pth t ps = Some x \<longleftrightarrow> x \<in> set (avl_elems t) \<and> path_parts (pth x) = ps"
proof
  assume "reg_map pth t ps = Some x"
  then show "x \<in> set (avl_elems t) \<and> path_parts (pth x) = ps"
    by (auto simp: reg_map_def find_Some_iff)
next
  assume x: "x \<in> set (avl_elems t) \<and> path_parts (pth x) = ps"
  then obtain y where y: "reg_map pth t ps = Some y"
    by (cases "reg_map pth t ps") (auto simp: reg_map_def find_None_iff)
  then have "y \<in> set (avl_elems t)" "path_parts (pth y) = ps" by (auto simp: reg_map_def find_Some_iff)
  then show "reg_map pth t ps = Some x" using reg_elems_unique [OF assms, of x y] x y by simp
qed

lemma reg_mapI: "reg_wf pth t \<Longrightarrow> (\<And>ps x. m ps = Some x \<longleftrightarrow> x \<in> set (avl_elems t) \<and> path_parts (pth x) = ps) \<Longrightarrow> reg_map pth t = m"
proof
  fix ps
  assume wf: "reg_wf pth t" and m: "\<And>ps x. m ps = Some x \<longleftrightarrow> x \<in> set (avl_elems t) \<and> path_parts (pth x) = ps"
  have "m ps = Some x \<longleftrightarrow> reg_map pth t ps = Some x" for x
    by (simp only: m reg_map_iff [OF wf])
  then show "reg_map pth t ps = m ps" by (metis not_None_eq)
qed

lemma reg_get_map [reg_simps]:
  assumes "reg_wf pth t" "path_canon p"
  shows "reg_get pth t p = reg_map pth t (path_parts p)"
proof -
  have "reg_get pth t p = Some x \<longleftrightarrow> reg_map pth t (path_parts p) = Some x" for x
    using preg.get_node_iff [of pth "avl_root t" p x] assms path_cmp_eq [of p "pth x"] reg_wf_canon [OF assms(1), of x]
    by (auto simp: reg_map_iff avl_wf_def avl_elems_def avl_get_def)
  then show ?thesis by (metis not_None_eq)
qed

lemma reg_map_new [simp]: "reg_map pth avl_new = Map.empty"
  by (auto simp: reg_map_def)

lemma reg_elems_insert:
  "reg_get pth t (pth d) = None \<Longrightarrow> set (avl_elems (reg_insert pth t d)) = insert d (set (avl_elems t))"
  by (simp add: avl_insert_def avl_elems_def Let_def)

lemma reg_elems_remove:
  assumes "reg_wf pth t" "path_canon p"
  shows "avl_elems (reg_remove pth t p) = filter (\<lambda>x. path_parts (pth x) \<noteq> path_parts p) (avl_elems t)"
proof -
  have "avl_elems (reg_remove pth t p) = filter (\<lambda>x. wc_datasync_path_cmp p (pth x) \<noteq> 0) (avl_elems t)"
    using preg.remove_rec_correct [of pth "avl_root t" p] assms
    by (simp add: avl_remove_def avl_elems_def avl_wf_def case_prod_beta)
  also have "\<dots> = filter (\<lambda>x. path_parts (pth x) \<noteq> path_parts p) (avl_elems t)"
    by (intro filter_cong refl) (auto simp: path_cmp_eq reg_wf_canon [OF assms(1)] assms(2))
  finally show ?thesis .
qed

lemma reg_elems_modify:
  assumes "reg_wf pth t" "path_canon p"
  shows "avl_elems (reg_modify pth f t p) = map (\<lambda>x. if path_parts (pth x) = path_parts p then f x else x) (avl_elems t)"
proof -
  have "avl_elems (reg_modify pth f t p) = map (\<lambda>x. if wc_datasync_path_cmp p (pth x) = 0 then f x else x) (avl_elems t)"
    using preg.inorder_modify_node [of pth "avl_root t" p f] assms
    by (simp add: avl_modify_def avl_elems_def avl_wf_def)
  also have "\<dots> = map (\<lambda>x. if path_parts (pth x) = path_parts p then f x else x) (avl_elems t)"
    by (intro map_cong refl) (auto simp: path_cmp_eq reg_wf_canon [OF assms(1)] assms(2))
  finally show ?thesis .
qed

lemma reg_wf_insert: "reg_wf pth t \<Longrightarrow> path_canon (pth d) \<Longrightarrow> reg_wf pth (reg_insert pth t d)"
  using preg.wf_insert [of pth t d] by simp

lemma reg_wf_remove: "reg_wf pth t \<Longrightarrow> path_canon p \<Longrightarrow> reg_wf pth (reg_remove pth t p)"
  using preg.wf_remove [of pth t p] by simp

lemma reg_wf_modify:
  "reg_wf pth t \<Longrightarrow> path_canon p \<Longrightarrow> (\<And>x. pth (f x) = pth x) \<Longrightarrow> reg_wf pth (reg_modify pth f t p)"
  using preg.wf_modify [of pth t p f] by simp

lemma reg_map_insert [reg_simps]:
  assumes "reg_wf pth t" "path_canon (pth d)" "reg_map pth t (path_parts (pth d)) = None"
  shows "reg_map pth (reg_insert pth t d) = (reg_map pth t)(path_parts (pth d) := Some d)"
proof (rule reg_mapI [OF reg_wf_insert [OF assms(1,2)]])
  have "reg_get pth t (pth d) = None" using assms by (simp add: reg_get_map)
  note elems = reg_elems_insert [OF this]
  show "((reg_map pth t)(path_parts (pth d) := Some d)) ps = Some x \<longleftrightarrow>
      x \<in> set (avl_elems (reg_insert pth t d)) \<and> path_parts (pth x) = ps" for ps x
    using reg_map_iff [OF assms(1), of ps x] assms(3) by (auto simp: elems)
qed

lemma reg_map_remove [reg_simps]:
  assumes "reg_wf pth t" "path_canon p"
  shows "reg_map pth (reg_remove pth t p) = (reg_map pth t)(path_parts p := None)"
  by (rule reg_mapI [OF reg_wf_remove [OF assms]])
     (auto simp: reg_elems_remove [OF assms] reg_map_iff [OF assms(1)])

lemma reg_map_modify [reg_simps]:
  assumes "reg_wf pth t" "path_canon p" "\<And>x. pth (f x) = pth x"
  shows "reg_map pth (reg_modify pth f t p) = (reg_map pth t)(path_parts p := map_option f (reg_map pth t (path_parts p)))"
proof (rule reg_mapI [OF reg_wf_modify [OF assms]])
  show "((reg_map pth t)(path_parts p := map_option f (reg_map pth t (path_parts p)))) ps = Some x \<longleftrightarrow>
      x \<in> set (avl_elems (reg_modify pth f t p)) \<and> path_parts (pth x) = ps" for ps x
    using assms(3) by (auto simp: reg_elems_modify [OF assms(1,2)] reg_map_iff [OF assms(1)] image_iff)
qed

section \<open>Descendants\<close>

text \<open>
  The elements below a path are consecutive: from the path on, the elements whose path starts
  with it come first.
\<close>

lemma takeWhile_filter_block:
  assumes "\<And>i j. i < j \<Longrightarrow> j < length xs \<Longrightarrow> P (xs ! j) \<Longrightarrow> P (xs ! i)"
  shows "takeWhile P xs = filter P xs"
  using assms
proof (induction xs)
  case (Cons x xs)
  show ?case
  proof (cases "P x")
    case True
    have "takeWhile P xs = filter P xs" using Cons.prems [of "Suc i" "Suc j" for i j] by (intro Cons.IH) auto
    then show ?thesis using True by simp
  next
    case False
    have "\<not> P y" if y: "y \<in> set xs" for y
    proof -
      obtain j where "j < length xs" "xs ! j = y" using y by (auto simp: in_set_conv_nth)
      then show ?thesis using Cons.prems [of 0 "Suc j"] False by auto
    qed
    then show ?thesis using False by (simp add: filter_empty_conv)
  qed
qed simp

lemma path_cmp_prefix: "path_canon p \<Longrightarrow> prefix (path_parts p) (path_parts q) \<Longrightarrow> wc_datasync_path_cmp p q \<le> 0"
proof -
  assume "path_canon p" and pre: "prefix (path_parts p) (path_parts q)"
  then have "set (path_parts p) \<subseteq> Collect key_ok" by (auto simp: path_canon_def list_all_iff key_canonical_def)
  then show ?thesis using dkey.lex_cmp_prefix_le [of "path_parts p"] pre by (auto simp: prefix_def path_cmp_parts)
qed

lemma prefix_between:
  assumes "path_canon p" "path_canon x" "path_canon y" "wc_datasync_path_cmp p x \<le> 0"
    "wc_datasync_path_cmp x y < 0" "prefix (path_parts p) (path_parts y)"
  shows "prefix (path_parts p) (path_parts x)"
proof -
  obtain zs where zs: "path_parts y = path_parts p @ zs" using assms(6) by (auto simp: prefix_def)
  have K: "path_parts p \<in> lists (Collect key_ok)" "path_parts x \<in> lists (Collect key_ok)" "zs \<in> lists (Collect key_ok)"
    using assms(1-3) zs by (auto simp: path_canon_def list_all_iff key_canonical_def)
  have "length (path_parts p) \<le> length (path_parts x) \<and>
      (\<forall>i<length (path_parts p). wc_datasync_key_cmp (path_parts p ! i) (path_parts x ! i) = 0)"
    using assms(4,5) by (intro dkey.lex_cmp_between [OF K]) (simp_all add: path_cmp_parts zs)
  then have "path_parts p ! i = path_parts x ! i" if "i < length (path_parts p)" for i
    using that key_cmp_canonical [of "path_parts p ! i" "path_parts x ! i"] assms(1,2)
    by (simp add: path_canon_def list_all_length)
  then have "path_parts p = take (length (path_parts p)) (path_parts x)"
    using \<open>length (path_parts p) \<le> length (path_parts x) \<and> _\<close> by (simp add: list_eq_iff_nth_eq)
  then show ?thesis by (metis take_is_prefix)
qed

definition below :: "('a \<Rightarrow> wc_ds_path) \<Rightarrow> wc_ds_path \<Rightarrow> 'a \<Rightarrow> bool" where
  "below pth p x \<longleftrightarrow> prefix (path_parts p) (path_parts (pth x))"

lemma reg_below:
  assumes "reg_wf pth t" "path_canon p"
  shows "takeWhile (\<lambda>x. wc_datasync_path_starts_with (pth x) p) (reg_from pth t p) = filter (below pth p) (avl_elems t)"
proof -
  let ?xs = "filter (\<lambda>x. wc_datasync_path_cmp p (pth x) \<le> 0) (avl_elems t)"
  have canon: "path_canon (pth x)" if "x \<in> set ?xs" for x using that reg_wf_canon [OF assms(1)] by simp
  have sw: "takeWhile (\<lambda>x. wc_datasync_path_starts_with (pth x) p) ?xs = takeWhile (below pth p) ?xs"
    by (rule takeWhile_cong [OF refl]) (simp add: below_def path_canon_starts_with canon assms(2) del: set_filter)
  have "takeWhile (below pth p) ?xs = filter (below pth p) ?xs"
  proof (rule takeWhile_filter_block)
    fix i j assume ij: "i < j" "j < length ?xs" and b: "below pth p (?xs ! j)"
    have "?xs ! i \<in> set ?xs" "?xs ! j \<in> set ?xs" using ij by (auto intro!: nth_mem simp del: set_filter)
    moreover have "sorted_wrt (\<lambda>x y. wc_datasync_path_cmp (pth x) (pth y) < 0) ?xs"
      using reg_wf_sorted [OF assms(1)] by (rule sorted_wrt_filter)
    then have "wc_datasync_path_cmp (pth (?xs ! i)) (pth (?xs ! j)) < 0" using ij by (rule sorted_wrt_nth_less)
    ultimately show "below pth p (?xs ! i)"
      using prefix_between [OF assms(2) canon canon] b unfolding below_def by auto
  qed
  also have "\<dots> = filter (below pth p) (avl_elems t)"
    unfolding filter_filter by (rule filter_cong [OF refl]) (auto simp: below_def path_cmp_prefix assms(2))
  finally show ?thesis by (simp add: reg_from_elems [OF assms] sw)
qed

end
