(* ===== verification/Listen.thy ===== *)
theory Listen
  imports Request Path_Registry
begin

text \<open>
  The registry of watched paths (\<^verbatim>\<open>lib/datasync/listen/listen_registry.c\<close>): reference
  counts, the listen requests sent for the watched paths, and the masking of paths below a path
  that is listened to already.

  A pointer to an item of the registry, as it is handed to a request, is the item's address
  \<open>li_addr\<close>; addresses are never used twice, so that a pointer to a removed item is recognised.
\<close>

section \<open>Data\<close>

datatype listen_status =
    LISTEN_UNREF | LISTEN_REQUIRED | LISTEN_REMOVED | LISTEN_PENDING | LISTEN_ACTIVE | LISTEN_FAILED | LISTEN_MASKED

record listen_item =
  li_status :: listen_status
  li_stamp :: "32 word"
  li_ref :: "32 word"
  li_path :: wc_ds_path
  li_addr :: nat

type_synonym listen_registry = "listen_item avl"

record listen_ctx = req_ctx +
  listen_reg :: listen_registry
  next_addr :: nat

definition compare_listen_item_data :: "listen_item \<Rightarrow> listen_item \<Rightarrow> int" where
  "compare_listen_item_data a b = wc_datasync_path_cmp (li_path a) (li_path b)"

definition listen_registry_new :: listen_registry where
  "listen_registry_new = avl_new"

section \<open>Masking and connection changes\<close>

definition listen_live :: "listen_status \<Rightarrow> bool" where
  "listen_live st \<longleftrightarrow> st = LISTEN_ACTIVE \<or> st = LISTEN_REQUIRED \<or> st = LISTEN_PENDING"

definition is_masked :: "listen_registry \<Rightarrow> wc_ds_path \<Rightarrow> bool" where
  "is_masked lr parsed_path =
     list_ex (\<lambda>u. case reg_get li_path lr (parsed_path\<lparr>p_nparts := u\<rparr>) of None \<Rightarrow> False | Some li \<Rightarrow> listen_live (li_status li))
       [0..<p_nparts parsed_path]"

definition wc_is_listening :: "'a listen_ctx_scheme \<Rightarrow> wc_ds_path \<Rightarrow> bool" where
  "wc_is_listening ctx parsed_path = is_masked (listen_reg ctx) parsed_path"

text \<open>The write \<^verbatim>\<open>li->status = ...\<close> through the pointer to an item.\<close>

definition set_status :: "listen_status \<Rightarrow> listen_item \<Rightarrow> 'a listen_ctx_scheme \<Rightarrow> 'a listen_ctx_scheme" where
  "set_status st li ctx =
     ctx\<lparr>listen_reg := reg_modify li_path (\<lambda>li. li\<lparr>li_status := st\<rparr>) (listen_reg ctx) (li_path li)\<rparr>"

definition wc_listen_suspend_all :: "'a listen_ctx_scheme \<Rightarrow> 'a listen_ctx_scheme" where
  "wc_listen_suspend_all ctx =
     fold (\<lambda>li ctx. if li_status li = LISTEN_ACTIVE \<or> li_status li = LISTEN_PENDING
                    then set_status LISTEN_REQUIRED li ctx else ctx) (reg_all (listen_reg ctx)) ctx"

definition send_listen :: "sdk_env \<Rightarrow> listen_item \<Rightarrow> 'a listen_ctx_scheme \<Rightarrow> 'a listen_ctx_scheme" where
  "send_listen E li ctx =
     snd (wc_datasync_listen E (set_status LISTEN_PENDING li ctx) (wc_datasync_path_to_str (li_path li))
       (Some On_listen_result) (li_addr li))"

definition wc_listen_resume_all :: "sdk_env \<Rightarrow> 'a listen_ctx_scheme \<Rightarrow> 'a listen_ctx_scheme" where
  "wc_listen_resume_all E ctx =
     fold (\<lambda>li ctx. if li_status li = LISTEN_REQUIRED \<or> li_status li = LISTEN_PENDING
                    then send_listen E li ctx else ctx) (reg_all (listen_reg ctx)) ctx"

section \<open>References\<close>

definition listen_registry_add_ex :: "'a listen_ctx_scheme \<Rightarrow> wc_ds_path \<Rightarrow> listen_item \<times> 'a listen_ctx_scheme" where
  "listen_registry_add_ex ctx parsed_path = (case reg_get li_path (listen_reg ctx) parsed_path of
      None \<Rightarrow>
        let li = \<lparr>li_status = (if is_masked (listen_reg ctx) parsed_path then LISTEN_MASKED else LISTEN_REQUIRED),
                  li_stamp = 0, li_ref = 1, li_path = wc_datasync_path_copy parsed_path, li_addr = next_addr ctx\<rparr>
        in (li, ctx\<lparr>listen_reg := reg_insert li_path (listen_reg ctx) li, next_addr := next_addr ctx + 1\<rparr>)
    | Some li \<Rightarrow>
        (li\<lparr>li_ref := li_ref li + 1\<rparr>,
         ctx\<lparr>listen_reg := reg_modify li_path (\<lambda>li. li\<lparr>li_ref := li_ref li + 1\<rparr>) (listen_reg ctx) parsed_path\<rparr>))"

definition listen_registry_add :: "'a listen_ctx_scheme \<Rightarrow> string \<Rightarrow> listen_item \<times> 'a listen_ctx_scheme" where
  "listen_registry_add ctx path = listen_registry_add_ex ctx (wc_datasync_path_new path)"

definition listen_registry_unref ::
    "'a listen_ctx_scheme \<Rightarrow> wc_ds_path \<Rightarrow> 32 word \<Rightarrow> (bool \<times> 'a listen_ctx_scheme) res" where
  "listen_registry_unref ctx parsed_path n_unref = (case reg_get li_path (listen_reg ctx) parsed_path of
      None \<Rightarrow> Inr (False, ctx)
    | Some li \<Rightarrow>
        if li_ref li < n_unref then Inl AssertFail
        else if li_ref li - n_unref > 0
        then Inr (False, ctx\<lparr>listen_reg :=
               reg_modify li_path (\<lambda>li. li\<lparr>li_ref := li_ref li - n_unref\<rparr>) (listen_reg ctx) parsed_path\<rparr>)
        else Inr (True, ctx\<lparr>listen_reg := reg_remove li_path (listen_reg ctx) parsed_path\<rparr>))"

text \<open>The handler of the response to a listen request; \<open>user\<close> is the pointer to the item.\<close>

definition on_listen_result :: "wc_req_pending_result \<Rightarrow> nat \<Rightarrow> 'a listen_ctx_scheme \<Rightarrow> 'a listen_ctx_scheme res" where
  "on_listen_result status user ctx = (case List.find (\<lambda>li. li_addr li = user) (avl_elems (listen_reg ctx)) of
      None \<Rightarrow> Inl UseAfterFree
    | Some li \<Rightarrow> Inr (set_status (if status = WC_REQ_OK then LISTEN_ACTIVE else LISTEN_FAILED) li ctx))"

section \<open>Watching\<close>

definition mask_item :: "sdk_env \<Rightarrow> listen_item \<Rightarrow> 'a listen_ctx_scheme \<Rightarrow> 'a listen_ctx_scheme" where
  "mask_item E li ctx =
     (if li_status li = LISTEN_ACTIVE
      then snd (wc_datasync_unlisten E (set_status LISTEN_MASKED li ctx) (wc_datasync_path_to_str (li_path li)) None 0)
      else if li_status li = LISTEN_PENDING \<or> li_status li = LISTEN_REQUIRED then set_status LISTEN_MASKED li ctx
      else ctx)"

definition mask_listen_request :: "sdk_env \<Rightarrow> 'a listen_ctx_scheme \<Rightarrow> wc_ds_path \<Rightarrow> 'a listen_ctx_scheme" where
  "mask_listen_request E ctx parsed_path =
     fold (mask_item E)
       (takeWhile (\<lambda>li. wc_datasync_path_starts_with (li_path li) parsed_path)
         (tl (reg_from li_path (listen_reg ctx) parsed_path))) ctx"

text \<open>A listen request when connected, otherwise a note that one is needed.\<close>

definition activate :: "sdk_env \<Rightarrow> listen_item \<Rightarrow> 'a listen_ctx_scheme \<Rightarrow> 'a listen_ctx_scheme" where
  "activate E li ctx =
     (if cnx_state ctx = WC_CNX_STATE_CONNECTED then send_listen E li ctx else set_status LISTEN_REQUIRED li ctx)"

definition wc_datasync_watch :: "sdk_env \<Rightarrow> 'a listen_ctx_scheme \<Rightarrow> string \<Rightarrow> 'a listen_ctx_scheme" where
  "wc_datasync_watch E ctx path =
     (let parsed_path = wc_datasync_path_new path;
          (li, ctx) = listen_registry_add_ex ctx parsed_path
      in if li_status li = LISTEN_REQUIRED \<or> li_status li = LISTEN_FAILED
         then mask_listen_request E (activate E li ctx) parsed_path
         else ctx)"

fun unmask_loop ::
    "sdk_env \<Rightarrow> wc_ds_path \<Rightarrow> wc_ds_path option \<Rightarrow> listen_item list \<Rightarrow> 'a listen_ctx_scheme \<Rightarrow> 'a listen_ctx_scheme" where
  "unmask_loop E parsed_path top_path [] ctx = ctx"
| "unmask_loop E parsed_path top_path (li # lis) ctx =
     (if \<not> wc_datasync_path_starts_with (li_path li) parsed_path then ctx
      else if (case top_path of None \<Rightarrow> False | Some tp \<Rightarrow> wc_datasync_path_starts_with (li_path li) tp)
      then unmask_loop E parsed_path top_path lis ctx
      else if li_status li = LISTEN_MASKED
      then unmask_loop E parsed_path (Some (li_path li)) lis (activate E li ctx)
      else unmask_loop E parsed_path top_path lis ctx)"

definition unmask_listen_request :: "sdk_env \<Rightarrow> 'a listen_ctx_scheme \<Rightarrow> wc_ds_path \<Rightarrow> 'a listen_ctx_scheme" where
  "unmask_listen_request E ctx parsed_path =
     unmask_loop E parsed_path None (reg_from li_path (listen_reg ctx) parsed_path) ctx"

definition wc_datasync_unwatch_ex :: "sdk_env \<Rightarrow> 'a listen_ctx_scheme \<Rightarrow> wc_ds_path \<Rightarrow> 32 word \<Rightarrow> 'a listen_ctx_scheme res" where
  "wc_datasync_unwatch_ex E ctx parsed_path ref_dec =
     rbind (listen_registry_unref ctx parsed_path ref_dec) (\<lambda>(removed, ctx).
       if removed
       then Inr (unmask_listen_request E
              (snd (wc_datasync_unlisten E ctx (wc_datasync_path_to_str parsed_path) None 0)) parsed_path)
       else Inr ctx)"

definition wc_datasync_unwatch_all :: "sdk_env \<Rightarrow> 'a listen_ctx_scheme \<Rightarrow> 'a listen_ctx_scheme" where
  "wc_datasync_unwatch_all E ctx =
     (fold (\<lambda>li ctx. snd (wc_datasync_unlisten E ctx (wc_datasync_path_to_str (li_path li)) None 0))
        (reg_all (listen_reg ctx)) ctx)\<lparr>listen_reg := avl_new\<rparr>"

section \<open>Printing\<close>

definition listen_status_to_str :: "listen_status \<Rightarrow> string" where
  "listen_status_to_str status = (case status of
      LISTEN_ACTIVE \<Rightarrow> ''ACTIVE'' | LISTEN_FAILED \<Rightarrow> ''FAILED'' | LISTEN_MASKED \<Rightarrow> ''MASKED''
    | LISTEN_PENDING \<Rightarrow> ''PENDING'' | LISTEN_REQUIRED \<Rightarrow> ''REQUIRED'' | _ \<Rightarrow> ''unknown'')"

text \<open>\<^verbatim>\<open>"[%8.8s] %s => %u refs\n"\<close> for each item.\<close>

definition dump_listen_registry :: "listen_registry \<Rightarrow> string" where
  "dump_listen_registry lr = concat (map (\<lambda>li.
     let st = take 8 (listen_status_to_str (li_status li))
     in ''['' @ replicate (8 - length st) CHR '' '' @ st @ ''] '' @ wc_datasync_path_to_str (li_path li) @
        '' => '' @ dec_nat (unat (li_ref li)) @ '' refs'' @ [CHR 0x0A]) (reg_all lr))"

section \<open>The registry as a map\<close>

abbreviation listen_items :: "'a listen_ctx_scheme \<Rightarrow> string list \<Rightarrow> listen_item option" where
  "listen_items ctx \<equiv> reg_map li_path (listen_reg ctx)"

lemma request_frame [simp]:
  "listen_reg (snd (DEFINE_REQ_FUNC E ctx r cb u)) = listen_reg ctx"
  "next_addr (snd (DEFINE_REQ_FUNC E ctx r cb u)) = next_addr ctx"
  "cnx_state (snd (DEFINE_REQ_FUNC E ctx r cb u)) = cnx_state ctx"
  by (simp_all add: DEFINE_REQ_FUNC_def wc_datasync_next_reqnum_def wc_datasync_send_msg_def Let_def)

lemma set_status_frame [simp]:
  "cnx_state (set_status st li ctx) = cnx_state ctx" "next_addr (set_status st li ctx) = next_addr ctx"
  by (simp_all add: set_status_def)

text \<open>What the loops over the registry do to it: a new status for the items they visit.\<close>

definition status_step ::
    "(listen_item \<Rightarrow> listen_status option) \<Rightarrow> (listen_item \<Rightarrow> 'a listen_ctx_scheme \<Rightarrow> 'a listen_ctx_scheme) \<Rightarrow>
     'a listen_ctx_scheme \<Rightarrow> bool" where
  "status_step g f ctx0 \<longleftrightarrow> (\<forall>li ctx. cnx_state ctx = cnx_state ctx0 \<longrightarrow>
     cnx_state (f li ctx) = cnx_state ctx0 \<and> next_addr (f li ctx) = next_addr ctx \<and>
     listen_reg (f li ctx) =
       (case g li of None \<Rightarrow> listen_reg ctx | Some st \<Rightarrow> listen_reg (set_status st li ctx)))"

definition restatus :: "(listen_item \<Rightarrow> listen_status option) \<Rightarrow> listen_item \<Rightarrow> listen_item" where
  "restatus g li = (case g li of None \<Rightarrow> li | Some st \<Rightarrow> li\<lparr>li_status := st\<rparr>)"

lemma restatus_frame [simp]:
  "li_path (restatus g li) = li_path li" "li_ref (restatus g li) = li_ref li" "li_addr (restatus g li) = li_addr li"
  by (simp_all add: restatus_def split: option.split)

lemma elems_set_status:
  assumes "reg_wf li_path (listen_reg ctx)" "path_canon (li_path li)"
  shows "avl_elems (listen_reg (set_status st li ctx)) =
      map (\<lambda>x. if path_parts (li_path x) = path_parts (li_path li) then x\<lparr>li_status := st\<rparr> else x) (avl_elems (listen_reg ctx))"
    "reg_wf li_path (listen_reg (set_status st li ctx))"
  using reg_elems_modify [OF assms, of "\<lambda>li. li\<lparr>li_status := st\<rparr>"]
    reg_wf_modify [OF assms, of "\<lambda>li. li\<lparr>li_status := st\<rparr>"]
  by (simp_all add: set_status_def)

lemma fold_status:
  assumes "reg_wf li_path (listen_reg ctx)" "status_step g f ctx" "distinct xs" "set xs \<subseteq> set (avl_elems (listen_reg ctx))"
  shows "avl_elems (listen_reg (fold f xs ctx)) =
      map (\<lambda>li. if li \<in> set xs then restatus g li else li) (avl_elems (listen_reg ctx)) \<and>
    reg_wf li_path (listen_reg (fold f xs ctx)) \<and> cnx_state (fold f xs ctx) = cnx_state ctx \<and>
    next_addr (fold f xs ctx) = next_addr ctx"
  using assms(3,4)
proof (induction xs rule: rev_induct)
  case Nil
  then show ?case using assms(1) by simp
next
  case (snoc x xs)
  let ?c = "fold f xs ctx"
  have IH: "avl_elems (listen_reg ?c) = map (\<lambda>li. if li \<in> set xs then restatus g li else li) (avl_elems (listen_reg ctx))"
    "reg_wf li_path (listen_reg ?c)" "cnx_state ?c = cnx_state ctx" "next_addr ?c = next_addr ctx"
    using snoc by simp_all
  have x: "x \<in> set (avl_elems (listen_reg ctx))" "x \<notin> set xs" using snoc.prems by simp_all
  have canon: "path_canon (li_path x)" using reg_wf_canon [OF assms(1) x(1)] .
  have step: "cnx_state (f x ?c) = cnx_state ctx" "next_addr (f x ?c) = next_addr ?c"
    "listen_reg (f x ?c) = (case g x of None \<Rightarrow> listen_reg ?c | Some st \<Rightarrow> listen_reg (set_status st x ?c))"
    using assms(2) IH(3) by (simp_all add: status_step_def)
  have same: "path_parts (li_path li) = path_parts (li_path x) \<longleftrightarrow> li = x" if "li \<in> set (avl_elems (listen_reg ctx))" for li
    using reg_elems_unique [OF assms(1) that x(1)] by auto
  have "avl_elems (listen_reg (f x ?c)) =
      map (\<lambda>li. if li \<in> set (xs @ [x]) then restatus g li else li) (avl_elems (listen_reg ctx))"
  proof (cases "g x")
    case None
    then show ?thesis using step(3) IH(1) x by (auto simp: restatus_def)
  next
    case (Some st)
    then have r: "restatus g x = x\<lparr>li_status := st\<rparr>" by (simp add: restatus_def)
    have "avl_elems (listen_reg (f x ?c)) = map ((\<lambda>li. if path_parts (li_path li) = path_parts (li_path x)
        then li\<lparr>li_status := st\<rparr> else li) \<circ> (\<lambda>li. if li \<in> set xs then restatus g li else li)) (avl_elems (listen_reg ctx))"
      using step(3) Some IH(1) by (simp add: elems_set_status(1) [OF IH(2) canon])
    also have "\<dots> = map (\<lambda>li. if li \<in> set (xs @ [x]) then restatus g li else li) (avl_elems (listen_reg ctx))"
      by (rule map_cong [OF refl]) (use same x(2) r in auto)
    finally show ?thesis .
  qed
  moreover have "reg_wf li_path (listen_reg (f x ?c))"
    using step(3) IH(2) elems_set_status(2) [OF IH(2) canon] by (simp split: option.split)
  ultimately show ?case using step IH(4) by simp
qed

text \<open>The status each loop gives to an item it visits.\<close>

definition suspended :: "listen_item \<Rightarrow> listen_status option" where
  "suspended li = (if li_status li = LISTEN_ACTIVE \<or> li_status li = LISTEN_PENDING then Some LISTEN_REQUIRED else None)"

definition resumed :: "listen_item \<Rightarrow> listen_status option" where
  "resumed li = (if li_status li = LISTEN_REQUIRED \<or> li_status li = LISTEN_PENDING then Some LISTEN_PENDING else None)"

definition masked :: "listen_item \<Rightarrow> listen_status option" where
  "masked li = (if listen_live (li_status li) then Some LISTEN_MASKED else None)"

definition activated :: "wc_cnx_state \<Rightarrow> listen_item \<Rightarrow> listen_status option" where
  "activated st li = Some (if st = WC_CNX_STATE_CONNECTED then LISTEN_PENDING else LISTEN_REQUIRED)"

lemma send_listen_frame [simp]:
  "listen_reg (send_listen E li ctx) = listen_reg (set_status LISTEN_PENDING li ctx)"
  "cnx_state (send_listen E li ctx) = cnx_state ctx" "next_addr (send_listen E li ctx) = next_addr ctx"
  by (simp_all add: send_listen_def wc_datasync_listen_def)

lemma suspend_step: "status_step suspended (\<lambda>li ctx. if li_status li = LISTEN_ACTIVE \<or> li_status li = LISTEN_PENDING
    then set_status LISTEN_REQUIRED li ctx else ctx) ctx0"
  by (simp add: status_step_def suspended_def)

lemma resume_step: "status_step resumed (\<lambda>li ctx. if li_status li = LISTEN_REQUIRED \<or> li_status li = LISTEN_PENDING
    then send_listen E li ctx else ctx) ctx0"
  by (simp add: status_step_def resumed_def)

lemma mask_step: "status_step masked (mask_item E) ctx0"
  by (simp add: status_step_def masked_def mask_item_def listen_live_def wc_datasync_unlisten_def)

lemma activate_step: "status_step (activated (cnx_state ctx0)) (activate E) ctx0"
  by (simp add: status_step_def activated_def activate_def)

lemma strict_prefix_take: "strict_prefix xs ys \<longleftrightarrow> (\<exists>u<length ys. xs = take u ys)"
proof
  assume "strict_prefix xs ys"
  then have "xs = take (length xs) ys" "length xs < length ys"
    by (auto simp: strict_prefix_def prefix_def)
  then show "\<exists>u<length ys. xs = take u ys" by blast
next
  assume "\<exists>u<length ys. xs = take u ys"
  then show "strict_prefix xs ys" using take_is_prefix by (force simp: strict_prefix_def)
qed

lemma some_case: "(case x of None \<Rightarrow> False | Some y \<Rightarrow> P y) \<longleftrightarrow> (\<exists>y. x = Some y \<and> P y)"
  by (simp split: option.split)

lemma is_masked_iff:
  assumes "reg_wf li_path lr" "path_canon p"
  shows "is_masked lr p \<longleftrightarrow> (\<exists>lj\<in>set (avl_elems lr). listen_live (li_status lj) \<and>
    strict_prefix (path_parts (li_path lj)) (path_parts p))"
proof -
  have get: "reg_get li_path lr (p\<lparr>p_nparts := u\<rparr>) = Some lj \<longleftrightarrow>
      lj \<in> set (avl_elems lr) \<and> path_parts (li_path lj) = take u (path_parts p)" if "u < p_nparts p" for u lj
    using that assms by (simp add: reg_get_map path_canon_cut path_parts_cut reg_map_iff)
  have "is_masked lr p \<longleftrightarrow> (\<exists>u<p_nparts p. \<exists>lj\<in>set (avl_elems lr). listen_live (li_status lj) \<and>
      path_parts (li_path lj) = take u (path_parts p))"
    unfolding is_masked_def list_ex_iff some_case using get by auto
  also have "\<dots> \<longleftrightarrow> (\<exists>lj\<in>set (avl_elems lr). listen_live (li_status lj) \<and>
      strict_prefix (path_parts (li_path lj)) (path_parts p))"
    by (auto simp: strict_prefix_take)
  finally show ?thesis .
qed

text \<open>The items strictly below a path that is in the registry.\<close>

lemma sorted_head:
  assumes "x \<in> set xs" "sorted_wrt R xs" "\<And>y. y \<in> set xs \<Longrightarrow> y \<noteq> x \<Longrightarrow> \<not> R y x"
  shows "\<exists>ys. xs = x # ys"
  using assms by (cases xs) auto

lemma filter_tail: "x # ys = xs \<Longrightarrow> distinct xs \<Longrightarrow> ys = filter (\<lambda>y. y \<noteq> x) xs"
proof -
  assume "x # ys = xs" "distinct xs"
  moreover from this have "filter (\<lambda>y. y \<noteq> x) ys = ys" by (auto simp: filter_id_conv)
  ultimately show ?thesis by auto
qed

lemma mask_range:
  assumes "reg_wf li_path lr" "path_canon p" "reg_map li_path lr (path_parts p) = Some x"
  shows "takeWhile (\<lambda>li. wc_datasync_path_starts_with (li_path li) p) (tl (reg_from li_path lr p)) =
    filter (\<lambda>li. strict_prefix (path_parts p) (path_parts (li_path li))) (avl_elems lr)"
proof -
  have x: "x \<in> set (avl_elems lr)" "path_parts (li_path x) = path_parts p"
    using assms(3) by (simp_all add: reg_map_iff [OF assms(1)])
  have canon: "path_canon (li_path li)" if "li \<in> set (avl_elems lr)" for li using that by (rule reg_wf_canon [OF assms(1)])
  let ?xs = "reg_from li_path lr p"
  have xs: "?xs = filter (\<lambda>li. wc_datasync_path_cmp p (li_path li) \<le> 0) (avl_elems lr)"
    by (rule reg_from_elems [OF assms(1,2)])
  have "wc_datasync_path_cmp p (li_path x) = 0" using x canon path_cmp_eq [OF assms(2), of "li_path x"] by simp
  then have "x \<in> set ?xs" using x(1) by (simp add: xs)
  moreover have "sorted_wrt (\<lambda>a b. wc_datasync_path_cmp (li_path a) (li_path b) < 0) ?xs"
    unfolding xs using reg_wf_sorted [OF assms(1)] by (rule sorted_wrt_filter)
  moreover have "\<not> wc_datasync_path_cmp (li_path y) (li_path x) < 0" if "y \<in> set ?xs" "y \<noteq> x" for y
  proof -
    have y: "path_canon (li_path y)" "wc_datasync_path_cmp p (li_path y) \<le> 0" using that canon by (simp_all add: xs)
    then have "\<not> wc_datasync_path_cmp (li_path y) p < 0"
      using pcanon.kc_swap [of "li_path y" p] assms(2) by simp
    then show ?thesis by (simp add: path_cmp_parts x(2))
  qed
  ultimately have "\<exists>ys. ?xs = x # ys" by (rule sorted_head)
  then obtain ys where ys: "?xs = x # ys" by blast
  have sx: "wc_datasync_path_starts_with (li_path x) p" using path_canon_starts_with [OF canon assms(2)] x by simp
  have "x # takeWhile (\<lambda>li. wc_datasync_path_starts_with (li_path li) p) ys = filter (below li_path p) (avl_elems lr)"
    using reg_below [OF assms(1,2)] ys sx by simp
  then have "takeWhile (\<lambda>li. wc_datasync_path_starts_with (li_path li) p) ys = filter (\<lambda>li. li \<noteq> x) (filter (below li_path p) (avl_elems lr))"
    using distinct_filter [OF reg_wf_distinct [OF assms(1)], of "below li_path p"] by (rule filter_tail)
  also have "\<dots> = filter (\<lambda>li. strict_prefix (path_parts p) (path_parts (li_path li))) (avl_elems lr)"
    unfolding filter_filter
    by (rule filter_cong [OF refl]) (use x reg_elems_unique [OF assms(1)] in \<open>auto simp: below_def strict_prefix_def\<close>)
  finally show ?thesis by (simp add: ys)
qed

section \<open>Which items are unmasked\<close>

fun unmask_targets :: "wc_ds_path option \<Rightarrow> listen_item list \<Rightarrow> listen_item list" where
  "unmask_targets top_path [] = []"
| "unmask_targets top_path (li # lis) =
     (if (case top_path of None \<Rightarrow> False | Some tp \<Rightarrow> wc_datasync_path_starts_with (li_path li) tp)
      then unmask_targets top_path lis
      else if li_status li = LISTEN_MASKED then li # unmask_targets (Some (li_path li)) lis
      else unmask_targets top_path lis)"

lemma unmask_loop_targets:
  "unmask_loop E p top_path lis ctx =
     fold (activate E) (unmask_targets top_path (takeWhile (\<lambda>li. wc_datasync_path_starts_with (li_path li) p) lis)) ctx"
  by (induction lis arbitrary: top_path ctx) (auto split: option.splits)

lemma unmask_targets_subset: "set (unmask_targets top_path lis) \<subseteq> set lis"
  by (induction lis arbitrary: top_path) (auto split: if_splits option.splits)

lemma unmask_targets_masked: "li \<in> set (unmask_targets top_path lis) \<Longrightarrow> li_status li = LISTEN_MASKED"
  by (induction lis arbitrary: top_path) (auto split: if_splits option.splits)

lemma unmask_targets_distinct: "distinct lis \<Longrightarrow> distinct (unmask_targets top_path lis)"
  using unmask_targets_subset by (induction lis arbitrary: top_path) (auto split: option.splits)

text \<open>Every masked item is unmasked or lies below one that is.\<close>

lemma unmask_targets_cover:
  "li \<in> set lis \<Longrightarrow> li_status li = LISTEN_MASKED \<Longrightarrow> \<forall>x\<in>set lis. path_canon (li_path x) \<Longrightarrow>
   (\<forall>tp. top_path = Some tp \<longrightarrow> path_canon tp) \<Longrightarrow>
   (\<exists>t\<in>set (unmask_targets top_path lis). prefix (path_parts (li_path t)) (path_parts (li_path li))) \<or>
   (\<exists>tp. top_path = Some tp \<and> prefix (path_parts tp) (path_parts (li_path li)))"
proof (induction lis arbitrary: top_path)
  case (Cons x lis)
  show ?case
  proof (cases "case top_path of None \<Rightarrow> False | Some tp \<Rightarrow> wc_datasync_path_starts_with (li_path x) tp")
    case True
    then obtain tp where tp: "top_path = Some tp" "prefix (path_parts tp) (path_parts (li_path x))"
      using Cons.prems path_canon_starts_with by (auto split: option.splits)
    show ?thesis
    proof (cases "li = x")
      case True
      then show ?thesis using tp by auto
    next
      case False
      then show ?thesis using Cons.IH [of top_path] Cons.prems True by simp
    qed
  next
    case False
    show ?thesis
    proof (cases "li_status x = LISTEN_MASKED")
      case True
      have "(\<exists>t\<in>set (unmask_targets (Some (li_path x)) lis). prefix (path_parts (li_path t)) (path_parts (li_path li))) \<or>
          prefix (path_parts (li_path x)) (path_parts (li_path li))"
        using Cons.IH [of "Some (li_path x)"] Cons.prems by (cases "li = x") auto
      then show ?thesis using False True by auto
    next
      case nm: False
      then have "li \<in> set lis" using Cons.prems by auto
      then show ?thesis using Cons.IH [of top_path] Cons.prems False nm by simp
    qed
  qed
qed simp

section \<open>Invariants\<close>

definition listen_wf :: "'a listen_ctx_scheme \<Rightarrow> bool" where
  "listen_wf ctx \<longleftrightarrow> reg_wf li_path (listen_reg ctx) \<and>
     (\<forall>li\<in>set (avl_elems (listen_reg ctx)). li_ref li \<noteq> 0 \<and> li_addr li < next_addr ctx) \<and>
     inj_on li_addr (set (avl_elems (listen_reg ctx)))"

text \<open>
  A masked item lies below an item for which a listen request is sent, pending or needed, or was
  refused.
\<close>

definition covering :: "listen_status \<Rightarrow> bool" where
  "covering st \<longleftrightarrow> listen_live st \<or> st = LISTEN_FAILED"

definition masked_covered :: "'a listen_ctx_scheme \<Rightarrow> bool" where
  "masked_covered ctx \<longleftrightarrow> (\<forall>li\<in>set (avl_elems (listen_reg ctx)). li_status li = LISTEN_MASKED \<longrightarrow>
     (\<exists>lj\<in>set (avl_elems (listen_reg ctx)). covering (li_status lj) \<and>
        strict_prefix (path_parts (li_path lj)) (path_parts (li_path li))))"

text \<open>A pass over the registry that rewrites items in place.\<close>

lemma listen_wf_map:
  assumes "listen_wf ctx" "avl_elems (listen_reg ctx') = map u (avl_elems (listen_reg ctx))"
    "reg_wf li_path (listen_reg ctx')" "next_addr ctx' = next_addr ctx"
    "\<And>li. li \<in> set (avl_elems (listen_reg ctx)) \<Longrightarrow> li_ref (u li) \<noteq> 0 \<and> li_addr (u li) = li_addr li"
  shows "listen_wf ctx'"
  using assms by (auto simp: listen_wf_def inj_on_def)

lemma masked_covered_map:
  assumes "masked_covered ctx" "avl_elems (listen_reg ctx') = map u (avl_elems (listen_reg ctx))"
    "\<And>li. li \<in> set (avl_elems (listen_reg ctx)) \<Longrightarrow> path_parts (li_path (u li)) = path_parts (li_path li) \<and>
       (li_status (u li) = LISTEN_MASKED \<longrightarrow> li_status li = LISTEN_MASKED) \<and>
       (covering (li_status li) \<longrightarrow> covering (li_status (u li)))"
  shows "masked_covered ctx'"
  unfolding masked_covered_def
proof (intro ballI impI)
  fix li' assume "li' \<in> set (avl_elems (listen_reg ctx'))" "li_status li' = LISTEN_MASKED"
  then obtain li where li: "li \<in> set (avl_elems (listen_reg ctx))" "li' = u li" "li_status li = LISTEN_MASKED"
    using assms(2,3) by auto
  then obtain lj where lj: "lj \<in> set (avl_elems (listen_reg ctx))" "covering (li_status lj)"
      "strict_prefix (path_parts (li_path lj)) (path_parts (li_path li))"
    using assms(1) unfolding masked_covered_def by blast
  then show "\<exists>lj\<in>set (avl_elems (listen_reg ctx')). covering (li_status lj) \<and>
      strict_prefix (path_parts (li_path lj)) (path_parts (li_path li'))"
    using assms(2,3) li by (intro bexI [of _ "u lj"]) auto
qed

lemma pass_result:
  assumes "listen_wf ctx" "status_step g f ctx" "distinct xs" "set xs \<subseteq> set (avl_elems (listen_reg ctx))"
  shows "avl_elems (listen_reg (fold f xs ctx)) = map (\<lambda>li. if li \<in> set xs then restatus g li else li) (avl_elems (listen_reg ctx))"
    "listen_wf (fold f xs ctx)" "cnx_state (fold f xs ctx) = cnx_state ctx"
proof -
  have wf: "reg_wf li_path (listen_reg ctx)" using assms(1) by (simp add: listen_wf_def)
  note r = fold_status [OF wf assms(2-4)]
  show e: "avl_elems (listen_reg (fold f xs ctx)) = map (\<lambda>li. if li \<in> set xs then restatus g li else li) (avl_elems (listen_reg ctx))"
    and "cnx_state (fold f xs ctx) = cnx_state ctx" using r by auto
  show "listen_wf (fold f xs ctx)"
    by (rule listen_wf_map [OF assms(1) e]) (use r assms(1) in \<open>auto simp: listen_wf_def\<close>)
qed

lemma pass_covered:
  assumes "listen_wf ctx" "masked_covered ctx" "status_step g f ctx" "distinct xs" "set xs \<subseteq> set (avl_elems (listen_reg ctx))"
    "\<And>li st. li \<in> set xs \<Longrightarrow> g li = Some st \<Longrightarrow> covering st"
  shows "masked_covered (fold f xs ctx)"
  by (rule masked_covered_map [OF assms(2) pass_result(1) [OF assms(1,3-5)]])
     (use assms(6) in \<open>auto simp: restatus_def covering_def listen_live_def split: option.splits\<close>)

lemma suspend_keeps:
  assumes "listen_wf ctx" "masked_covered ctx"
  shows "listen_wf (wc_listen_suspend_all ctx)" "masked_covered (wc_listen_suspend_all ctx)"
proof -
  have d: "distinct (reg_all (listen_reg ctx))" "set (reg_all (listen_reg ctx)) \<subseteq> set (avl_elems (listen_reg ctx))"
    using assms(1) reg_wf_distinct by (auto simp: listen_wf_def reg_all_elems)
  show "listen_wf (wc_listen_suspend_all ctx)"
    unfolding wc_listen_suspend_all_def by (rule pass_result(2) [OF assms(1) suspend_step d])
  show "masked_covered (wc_listen_suspend_all ctx)"
    unfolding wc_listen_suspend_all_def
    by (rule pass_covered [OF assms suspend_step d]) (auto simp: suspended_def covering_def listen_live_def split: if_splits)
qed

lemma resume_keeps:
  assumes "listen_wf ctx" "masked_covered ctx"
  shows "listen_wf (wc_listen_resume_all E ctx)" "masked_covered (wc_listen_resume_all E ctx)"
proof -
  have d: "distinct (reg_all (listen_reg ctx))" "set (reg_all (listen_reg ctx)) \<subseteq> set (avl_elems (listen_reg ctx))"
    using assms(1) reg_wf_distinct by (auto simp: listen_wf_def reg_all_elems)
  show "listen_wf (wc_listen_resume_all E ctx)"
    unfolding wc_listen_resume_all_def by (rule pass_result(2) [OF assms(1) resume_step d])
  show "masked_covered (wc_listen_resume_all E ctx)"
    unfolding wc_listen_resume_all_def
    by (rule pass_covered [OF assms resume_step d]) (auto simp: resumed_def covering_def listen_live_def split: if_splits)
qed

lemma find_in_set: "List.find P xs = Some x \<Longrightarrow> x \<in> set xs \<and> P x"
  by (auto simp: find_Some_iff)

lemma result_keeps:
  assumes "listen_wf ctx" "masked_covered ctx" "on_listen_result status user ctx = Inr ctx'"
  shows "listen_wf ctx'" "masked_covered ctx'"
proof -
  obtain li where li: "li \<in> set (avl_elems (listen_reg ctx))"
      "ctx' = set_status (if status = WC_REQ_OK then LISTEN_ACTIVE else LISTEN_FAILED) li ctx"
    using assms(3) by (auto simp: on_listen_result_def dest: find_in_set split: option.splits)
  let ?g = "\<lambda>_ :: listen_item. Some (if status = WC_REQ_OK then LISTEN_ACTIVE else LISTEN_FAILED)"
  let ?f = "\<lambda>li ctx. set_status (if status = WC_REQ_OK then LISTEN_ACTIVE else LISTEN_FAILED) li ctx"
  have st: "status_step ?g ?f ctx" by (simp add: status_step_def)
  have f: "ctx' = fold ?f [li] ctx" using li by simp
  show "listen_wf ctx'" unfolding f by (rule pass_result(2) [OF assms(1) st]) (use li in auto)
  show "masked_covered ctx'" unfolding f
    by (rule pass_covered [OF assms(1,2) st]) (use li in \<open>auto simp: covering_def listen_live_def split: if_splits\<close>)
qed

text \<open>The textual paths for which the registry is specified.\<close>

definition watchable :: "string \<Rightarrow> bool" where
  "watchable path \<longleftrightarrow> no_nul path \<and> length path < 2 ^ 16 \<and> list_all key_canonical (segments path)"

lemma watchable_path:
  assumes "watchable path"
  shows "path_wf (wc_datasync_path_new path)" "path_canon (wc_datasync_path_new path)"
    "path_parts (wc_datasync_path_copy (wc_datasync_path_new path)) = path_parts (wc_datasync_path_new path)"
    "path_canon (wc_datasync_path_copy (wc_datasync_path_new path))"
    "path_parts (wc_datasync_path_new path) = take WC_DS_MAX_DEPTH (segments path)"
proof -
  show wf: "path_wf (wc_datasync_path_new path)" and parts: "path_parts (wc_datasync_path_new path) = take WC_DS_MAX_DEPTH (segments path)"
    using assms by (simp_all add: watchable_def wc_datasync_path_new_def path_wf_parse path_parts_parse)
  show canon: "path_canon (wc_datasync_path_new path)"
    using assms by (auto simp: path_canon_def parts watchable_def list_all_iff dest: in_set_takeD)
  show copy: "path_parts (wc_datasync_path_copy (wc_datasync_path_new path)) = path_parts (wc_datasync_path_new path)"
    using wf by (rule path_parts_copy)
  show "path_canon (wc_datasync_path_copy (wc_datasync_path_new path))"
    using canon by (simp add: path_canon_def copy)
qed

text \<open>Adding a reference: the item afterwards, and what is left alone.\<close>

lemma add_absent:
  assumes "listen_wf ctx" "path_canon p" "path_wf p" "listen_items ctx (path_parts p) = None"
    "listen_registry_add_ex ctx p = (li, ctx')"
  shows "set (avl_elems (listen_reg ctx')) = insert li (set (avl_elems (listen_reg ctx)))"
    "listen_wf ctx'" "cnx_state ctx' = cnx_state ctx" "path_parts (li_path li) = path_parts p"
    "li_status li = (if is_masked (listen_reg ctx) p then LISTEN_MASKED else LISTEN_REQUIRED)" "li_ref li = 1"
    "listen_items ctx' = (listen_items ctx)(path_parts p := Some li)"
proof -
  have wf: "reg_wf li_path (listen_reg ctx)" using assms(1) by (simp add: listen_wf_def)
  have none: "reg_get li_path (listen_reg ctx) p = None" using assms(2,4) by (simp add: reg_get_map [OF wf])
  have li: "li = \<lparr>li_status = (if is_masked (listen_reg ctx) p then LISTEN_MASKED else LISTEN_REQUIRED),
      li_stamp = 0, li_ref = 1, li_path = wc_datasync_path_copy p, li_addr = next_addr ctx\<rparr>"
    and ctx': "ctx' = ctx\<lparr>listen_reg := reg_insert li_path (listen_reg ctx) li, next_addr := next_addr ctx + 1\<rparr>"
    using assms(5) none by (auto simp: listen_registry_add_ex_def Let_def)
  have parts: "path_parts (li_path li) = path_parts p" using path_parts_copy [OF assms(3)] by (simp add: li)
  then have canon: "path_canon (li_path li)" using assms(2) by (simp add: path_canon_def)
  have none': "reg_get li_path (listen_reg ctx) (li_path li) = None"
    using assms(4) by (simp add: reg_get_map [OF wf canon] parts)
  show e: "set (avl_elems (listen_reg ctx')) = insert li (set (avl_elems (listen_reg ctx)))"
    using reg_elems_insert [OF none'] by (simp add: ctx')
  have "inj_on li_addr (insert li (set (avl_elems (listen_reg ctx))))"
    using assms(1) by (auto simp: listen_wf_def li)
  then show "listen_wf ctx'"
    using assms(1) reg_wf_insert [OF wf canon] unfolding listen_wf_def e by (auto simp: ctx' li)
  show "listen_items ctx' = (listen_items ctx)(path_parts p := Some li)"
    using reg_map_insert [OF wf canon] assms(4) parts by (simp add: ctx')
  show "cnx_state ctx' = cnx_state ctx" "path_parts (li_path li) = path_parts p"
    "li_status li = (if is_masked (listen_reg ctx) p then LISTEN_MASKED else LISTEN_REQUIRED)" "li_ref li = 1"
    by (simp_all add: ctx' parts) (simp_all add: li)
qed

lemma add_present:
  assumes "listen_wf ctx" "path_canon p" "listen_items ctx (path_parts p) = Some l" "li_ref l \<noteq> - 1"
    "listen_registry_add_ex ctx p = (li, ctx')"
  shows "avl_elems (listen_reg ctx') = map (\<lambda>x. if path_parts (li_path x) = path_parts p
      then x\<lparr>li_ref := li_ref x + 1\<rparr> else x) (avl_elems (listen_reg ctx))"
    "listen_wf ctx'" "cnx_state ctx' = cnx_state ctx" "li = l\<lparr>li_ref := li_ref l + 1\<rparr>"
    "listen_items ctx' = (listen_items ctx)(path_parts p := Some li)"
proof -
  have wf: "reg_wf li_path (listen_reg ctx)" using assms(1) by (simp add: listen_wf_def)
  have get: "reg_get li_path (listen_reg ctx) p = Some l" using assms(2,3) by (simp add: reg_get_map [OF wf])
  have ctx': "ctx' = ctx\<lparr>listen_reg := reg_modify li_path (\<lambda>li. li\<lparr>li_ref := li_ref li + 1\<rparr>) (listen_reg ctx) p\<rparr>"
    and li: "li = l\<lparr>li_ref := li_ref l + 1\<rparr>"
    using assms(5) get by (simp_all add: listen_registry_add_ex_def)
  have l: "l \<in> set (avl_elems (listen_reg ctx))" "path_parts (li_path l) = path_parts p"
    using assms(3) by (simp_all add: reg_map_iff [OF wf])
  show e: "avl_elems (listen_reg ctx') = map (\<lambda>x. if path_parts (li_path x) = path_parts p
      then x\<lparr>li_ref := li_ref x + 1\<rparr> else x) (avl_elems (listen_reg ctx))"
    using reg_elems_modify [OF wf assms(2)] by (simp add: ctx')
  have "li_ref l + 1 \<noteq> 0" using assms(4) by (metis add_eq_0_iff2)
  then have r: "li_ref x + 1 \<noteq> 0" if "x \<in> set (avl_elems (listen_reg ctx))" "path_parts (li_path x) = path_parts p" for x
    using reg_elems_unique [OF wf that(1) l(1)] that(2) l(2) by simp
  have wf': "reg_wf li_path (listen_reg ctx')" using reg_wf_modify [OF wf assms(2)] by (simp add: ctx')
  show "listen_wf ctx'"
    by (rule listen_wf_map [OF assms(1) e wf']) (use assms(1) r in \<open>auto simp: ctx' listen_wf_def\<close>)
  show "listen_items ctx' = (listen_items ctx)(path_parts p := Some li)"
    using reg_map_modify [OF wf assms(2), of "\<lambda>li. li\<lparr>li_ref := li_ref li + 1\<rparr>"] assms(3) by (simp add: ctx' li)
  show "cnx_state ctx' = cnx_state ctx" "li = l\<lparr>li_ref := li_ref l + 1\<rparr>" by (simp_all add: ctx' li)
qed

definition listen_refs :: "'a listen_ctx_scheme \<Rightarrow> string list \<Rightarrow> nat" where
  "listen_refs ctx ps = (case listen_items ctx ps of None \<Rightarrow> 0 | Some li \<Rightarrow> unat (li_ref li))"

lemma find_map: "List.find P (map u xs) = map_option u (List.find (P \<circ> u) xs)"
  by (induction xs) auto

lemma items_map:
  assumes "avl_elems (listen_reg ctx') = map u (avl_elems (listen_reg ctx))" "\<And>li. li_path (u li) = li_path li"
  shows "listen_items ctx' ps = map_option u (listen_items ctx ps)"
  by (simp add: reg_map_def assms find_map comp_def)

lemma refs_map:
  assumes "avl_elems (listen_reg ctx') = map u (avl_elems (listen_reg ctx))"
    "\<And>li. li_path (u li) = li_path li" "\<And>li. li_ref (u li) = li_ref li"
  shows "listen_refs ctx' = listen_refs ctx"
proof
  show "listen_refs ctx' ps = listen_refs ctx ps" for ps
    using items_map [OF assms(1,2), of ps] by (simp add: listen_refs_def assms(3) split: option.split)
qed

lemma pass_refs:
  assumes "listen_wf ctx" "status_step g f ctx" "distinct xs" "set xs \<subseteq> set (avl_elems (listen_reg ctx))"
  shows "listen_refs (fold f xs ctx) = listen_refs ctx"
  by (rule refs_map [OF pass_result(1) [OF assms]]) simp_all

lemma mask_request_result:
  assumes "listen_wf ctx" "path_canon p" "listen_items ctx (path_parts p) = Some x"
    and ctx'_def: "ctx' = mask_listen_request E ctx p"
  shows "listen_wf ctx'" "listen_refs ctx' = listen_refs ctx"
    "avl_elems (listen_reg ctx') = map (\<lambda>li. if strict_prefix (path_parts p) (path_parts (li_path li))
       then restatus masked li else li) (avl_elems (listen_reg ctx))"
proof -
  have wf: "reg_wf li_path (listen_reg ctx)" using assms(1) by (simp add: listen_wf_def)
  let ?xs = "filter (\<lambda>li. strict_prefix (path_parts p) (path_parts (li_path li))) (avl_elems (listen_reg ctx))"
  have f: "ctx' = fold (mask_item E) ?xs ctx"
    by (simp add: ctx'_def mask_listen_request_def mask_range [OF wf assms(2,3)])
  have d: "distinct ?xs" "set ?xs \<subseteq> set (avl_elems (listen_reg ctx))" using reg_wf_distinct [OF wf] by auto
  show "listen_wf ctx'" "listen_refs ctx' = listen_refs ctx"
    unfolding f by (rule pass_result(2) [OF assms(1) mask_step d], rule pass_refs [OF assms(1) mask_step d])
  have "avl_elems (listen_reg ctx') = map (\<lambda>li. if li \<in> set ?xs then restatus masked li else li) (avl_elems (listen_reg ctx))"
    unfolding f by (rule pass_result(1) [OF assms(1) mask_step d])
  also have "\<dots> = map (\<lambda>li. if strict_prefix (path_parts p) (path_parts (li_path li)) then restatus masked li else li)
      (avl_elems (listen_reg ctx))"
    by (rule map_cong [OF refl]) simp
  finally show "avl_elems (listen_reg ctx') = map (\<lambda>li. if strict_prefix (path_parts p) (path_parts (li_path li))
      then restatus masked li else li) (avl_elems (listen_reg ctx))" .
qed

lemma map_fixed: "x \<in> set xs \<Longrightarrow> u x = x \<Longrightarrow> x \<in> set (map u xs)"
  by (metis image_eqI list.set_map)

lemma mask_request_covered:
  assumes "listen_wf ctx" "masked_covered ctx" "path_canon p" "listen_items ctx (path_parts p) = Some x"
    "listen_live (li_status x)"
  shows "masked_covered (mask_listen_request E ctx p)"
  unfolding masked_covered_def
proof (intro ballI impI)
  let ?u = "\<lambda>li. if strict_prefix (path_parts p) (path_parts (li_path li)) then restatus masked li else li"
  note r = mask_request_result [OF assms(1,3,4) refl, of E]
  have wf: "reg_wf li_path (listen_reg ctx)" using assms(1) by (simp add: listen_wf_def)
  have x: "x \<in> set (avl_elems (listen_reg ctx))" "path_parts (li_path x) = path_parts p"
    using assms(4) by (simp_all add: reg_map_iff [OF wf])
  fix li' assume "li' \<in> set (avl_elems (listen_reg (mask_listen_request E ctx p)))" "li_status li' = LISTEN_MASKED"
  then obtain li where li: "li \<in> set (avl_elems (listen_reg ctx))" "li' = ?u li" "li_status (?u li) = LISTEN_MASKED"
    by (auto simp: r(3))
  have path: "li_path li' = li_path li" using li(2) by simp
  show "\<exists>lj\<in>set (avl_elems (listen_reg (mask_listen_request E ctx p))). covering (li_status lj) \<and>
      strict_prefix (path_parts (li_path lj)) (path_parts (li_path li'))"
  proof (cases "strict_prefix (path_parts p) (path_parts (li_path li))")
    case True
    have "?u x = x" using x(2) by simp
    then have "x \<in> set (avl_elems (listen_reg (mask_listen_request E ctx p)))" unfolding r(3) by (rule map_fixed [OF x(1)])
    then show ?thesis using True assms(5) x(2) path by (auto simp: covering_def)
  next
    case False
    then have "li_status li = LISTEN_MASKED" using li(3) by simp
    then obtain lj where lj: "lj \<in> set (avl_elems (listen_reg ctx))" "covering (li_status lj)"
        "strict_prefix (path_parts (li_path lj)) (path_parts (li_path li))"
      using assms(2) li(1) unfolding masked_covered_def by blast
    then have "\<not> strict_prefix (path_parts p) (path_parts (li_path lj))" using False by (meson prefix_order.less_trans)
    then have "?u lj = lj" by simp
    then have "lj \<in> set (avl_elems (listen_reg (mask_listen_request E ctx p)))" unfolding r(3) by (rule map_fixed [OF lj(1)])
    then show ?thesis using lj path by auto
  qed
qed

lemma activate_result:
  assumes "listen_wf ctx" "li \<in> set (avl_elems (listen_reg ctx))"
  shows "listen_wf (activate E li ctx)" "listen_refs (activate E li ctx) = listen_refs ctx"
    "masked_covered ctx \<Longrightarrow> masked_covered (activate E li ctx)"
    "\<exists>x. listen_items (activate E li ctx) (path_parts (li_path li)) = Some x \<and> listen_live (li_status x)"
proof -
  let ?g = "activated (cnx_state ctx)"
  have f: "activate E li ctx = fold (activate E) [li] ctx" by simp
  have d: "distinct [li]" "set [li] \<subseteq> set (avl_elems (listen_reg ctx))" using assms(2) by auto
  note r = pass_result [OF assms(1) activate_step d, of E]
  show "listen_wf (activate E li ctx)" using r(2) by simp
  show "listen_refs (activate E li ctx) = listen_refs ctx" using pass_refs [OF assms(1) activate_step d, of E] by simp
  show "masked_covered (activate E li ctx)" if "masked_covered ctx"
    unfolding f by (rule pass_covered [OF assms(1) that activate_step d])
      (auto simp: activated_def covering_def listen_live_def split: if_splits)
  have "restatus ?g li \<in> set (avl_elems (listen_reg (activate E li ctx)))"
    using r(1) assms(2) by force
  then have "listen_items (activate E li ctx) (path_parts (li_path li)) = Some (restatus ?g li)"
    using r(2) by (simp add: reg_map_iff listen_wf_def)
  then show "\<exists>x. listen_items (activate E li ctx) (path_parts (li_path li)) = Some x \<and> listen_live (li_status x)"
    by (auto simp: restatus_def activated_def listen_live_def)
qed

lemma add_keeps:
  assumes "listen_wf ctx" "masked_covered ctx" "path_canon p" "path_wf p"
    "\<forall>l. listen_items ctx (path_parts p) = Some l \<longrightarrow> li_ref l \<noteq> - 1" "listen_registry_add_ex ctx p = (li, ctx')"
  shows "listen_wf ctx'" "masked_covered ctx'" "li \<in> set (avl_elems (listen_reg ctx'))"
    "path_parts (li_path li) = path_parts p" "cnx_state ctx' = cnx_state ctx"
    "listen_refs ctx' = (listen_refs ctx)(path_parts p := listen_refs ctx (path_parts p) + 1)"
proof -
  have wf: "reg_wf li_path (listen_reg ctx)" using assms(1) by (simp add: listen_wf_def)
  have "listen_wf ctx' \<and> masked_covered ctx' \<and> path_parts (li_path li) = path_parts p \<and> cnx_state ctx' = cnx_state ctx \<and>
      listen_items ctx' (path_parts p) = Some li \<and>
      listen_refs ctx' = (listen_refs ctx)(path_parts p := listen_refs ctx (path_parts p) + 1)"
  proof (cases "listen_items ctx (path_parts p)")
    case None
    note r = add_absent [OF assms(1,3,4) None assms(6)]
    have "\<exists>lj\<in>set (avl_elems (listen_reg ctx')). covering (li_status lj) \<and> strict_prefix (path_parts (li_path lj)) (path_parts (li_path l))"
      if l: "l \<in> set (avl_elems (listen_reg ctx'))" "li_status l = LISTEN_MASKED" for l
    proof (cases "l = li")
      case True
      then have "is_masked (listen_reg ctx) p" using l(2) r(5) by (simp split: if_splits)
      then show ?thesis using True r(1,4) by (auto simp: is_masked_iff [OF wf assms(3)] covering_def)
    next
      case False
      then show ?thesis using l r(1) assms(2) unfolding masked_covered_def by auto
    qed
    then show ?thesis using None r by (auto simp: masked_covered_def listen_refs_def fun_eq_iff)
  next
    case (Some l)
    note r = add_present [OF assms(1,3) Some _ assms(6)]
    have l: "path_parts (li_path l) = path_parts p" using Some by (simp add: reg_map_iff [OF wf])
    have n1: "li_ref l \<noteq> - 1" using assms(5) Some by simp
    have "masked_covered ctx'" by (rule masked_covered_map [OF assms(2) r(1) [OF n1]]) simp
    moreover have "unat (li_ref l + 1) = unat (li_ref l) + 1"
      using n1 unatSuc [of "li_ref l"] by (simp add: add.commute eq_neg_iff_add_eq_0)
    ultimately show ?thesis using Some r(2-) [OF n1] l by (auto simp: listen_refs_def fun_eq_iff)
  qed
  then show "listen_wf ctx'" "masked_covered ctx'" "li \<in> set (avl_elems (listen_reg ctx'))"
    "path_parts (li_path li) = path_parts p" "cnx_state ctx' = cnx_state ctx"
    "listen_refs ctx' = (listen_refs ctx)(path_parts p := listen_refs ctx (path_parts p) + 1)"
    using reg_map_iff [of li_path "listen_reg ctx'"] by (auto simp: listen_wf_def)
qed

lemma watch_keeps:
  assumes "listen_wf ctx" "masked_covered ctx" "watchable path"
    "\<forall>l. listen_items ctx (path_parts (wc_datasync_path_new path)) = Some l \<longrightarrow> li_ref l \<noteq> - 1"
  defines "ps \<equiv> path_parts (wc_datasync_path_new path)"
  shows "listen_wf (wc_datasync_watch E ctx path) \<and> masked_covered (wc_datasync_watch E ctx path) \<and>
    listen_refs (wc_datasync_watch E ctx path) = (listen_refs ctx)(ps := listen_refs ctx ps + 1)"
proof -
  let ?p = "wc_datasync_path_new path"
  obtain li ctx1 where add: "listen_registry_add_ex ctx ?p = (li, ctx1)" by fastforce
  note canon = watchable_path(2) [OF assms(3)]
  note a = add_keeps [OF assms(1,2) canon watchable_path(1) [OF assms(3)] assms(4) add]
  let ?c = "activate E li ctx1"
  note r = activate_result [OF a(1,3), of E]
  obtain x where x: "listen_items ?c (path_parts ?p) = Some x" "listen_live (li_status x)"
    using r(4) a(4) by auto
  note m = mask_request_result [OF r(1) canon x(1) refl, of E]
  have "masked_covered (mask_listen_request E ?c ?p)"
    by (rule mask_request_covered [OF r(1) r(3) [OF a(2)] canon x])
  then show ?thesis
    using a r(2) m(1,2) by (auto simp: wc_datasync_watch_def add ps_def)
qed

lemma remove_keeps_wf:
  assumes "listen_wf ctx" "path_canon p"
  defines "ctx' \<equiv> ctx\<lparr>listen_reg := reg_remove li_path (listen_reg ctx) p\<rparr>"
  shows "listen_wf ctx'" "listen_refs ctx' = (listen_refs ctx)(path_parts p := 0)"
    "set (avl_elems (listen_reg ctx')) = {x \<in> set (avl_elems (listen_reg ctx)). path_parts (li_path x) \<noteq> path_parts p}"
proof -
  have wf: "reg_wf li_path (listen_reg ctx)" using assms(1) by (simp add: listen_wf_def)
  show e: "set (avl_elems (listen_reg ctx')) = {x \<in> set (avl_elems (listen_reg ctx)). path_parts (li_path x) \<noteq> path_parts p}"
    using reg_elems_remove [OF wf assms(2)] by (auto simp: ctx'_def)
  show "listen_wf ctx'"
    using assms(1) reg_wf_remove [OF wf assms(2)] unfolding listen_wf_def e by (auto simp: ctx'_def inj_on_def)
  show "listen_refs ctx' = (listen_refs ctx)(path_parts p := 0)"
    using reg_map_remove [OF wf assms(2)] by (auto simp: ctx'_def listen_refs_def fun_eq_iff)
qed

text \<open>
  After the item of \<open>p\<close> was removed: whatever was masked by it is unmasked or lies below an
  unmasked item.
\<close>

lemma unmask_keeps:
  assumes "listen_wf ctx" "path_canon p"
    "\<And>li. li \<in> set (avl_elems (listen_reg ctx)) \<Longrightarrow> li_status li = LISTEN_MASKED \<Longrightarrow>
       prefix (path_parts p) (path_parts (li_path li)) \<or>
       (\<exists>lj\<in>set (avl_elems (listen_reg ctx)). covering (li_status lj) \<and>
          strict_prefix (path_parts (li_path lj)) (path_parts (li_path li)))"
    and ctx'_def: "ctx' = unmask_listen_request E ctx p"
  shows "listen_wf ctx'" "listen_refs ctx' = listen_refs ctx" "masked_covered ctx'"
proof -
  have wf: "reg_wf li_path (listen_reg ctx)" using assms(1) by (simp add: listen_wf_def)
  let ?L = "filter (below li_path p) (avl_elems (listen_reg ctx))"
  let ?T = "unmask_targets None ?L"
  let ?g = "activated (cnx_state ctx)"
  have f: "ctx' = fold (activate E) ?T ctx"
    by (simp add: ctx'_def unmask_listen_request_def unmask_loop_targets reg_below [OF wf assms(2)])
  have d: "distinct ?T" "set ?T \<subseteq> set (avl_elems (listen_reg ctx))"
    using reg_wf_distinct [OF wf] unmask_targets_distinct unmask_targets_subset [of None ?L] by auto
  note r = pass_result [OF assms(1) activate_step d, of E, folded f]
  show "listen_wf ctx'" "listen_refs ctx' = listen_refs ctx"
    using r(2) pass_refs [OF assms(1) activate_step d, of E, folded f] by auto
  have live: "covering (li_status (restatus ?g li))" for li
    by (simp add: restatus_def activated_def covering_def listen_live_def)
  have keep: "covering (li_status (if lj \<in> set ?T then restatus ?g lj else lj))" if "covering (li_status lj)" for lj
    using that live by simp
  show "masked_covered ctx'"
    unfolding masked_covered_def
  proof (intro ballI impI)
    fix li' assume "li' \<in> set (avl_elems (listen_reg ctx'))" and m: "li_status li' = LISTEN_MASKED"
    then obtain li where li: "li \<in> set (avl_elems (listen_reg ctx))" "li' = (if li \<in> set ?T then restatus ?g li else li)"
      by (auto simp: r(1))
    have nt: "li \<notin> set ?T" using li(2) m live [of li] by (auto simp: covering_def listen_live_def)
    then have eq: "li' = li" using li(2) by simp
    have "\<exists>lj\<in>set (avl_elems (listen_reg ctx)). covering (li_status (if lj \<in> set ?T then restatus ?g lj else lj)) \<and>
        strict_prefix (path_parts (li_path lj)) (path_parts (li_path li))"
      using assms(3) [OF li(1) m [unfolded eq]]
    proof
      assume "prefix (path_parts p) (path_parts (li_path li))"
      then have "li \<in> set ?L" using li(1) by (simp add: below_def)
      moreover have "\<forall>x\<in>set ?L. path_canon (li_path x)" using reg_wf_canon [OF wf] by auto
      ultimately obtain t where t: "t \<in> set ?T" "prefix (path_parts (li_path t)) (path_parts (li_path li))"
        using unmask_targets_cover [of li ?L None] m eq by auto
      have t': "t \<in> set (avl_elems (listen_reg ctx))" using t(1) d(2) by auto
      have "path_parts (li_path t) \<noteq> path_parts (li_path li)"
        using reg_elems_unique [OF wf t' li(1)] t(1) nt by auto
      then show ?thesis using t t' live by (intro bexI [of _ t]) (auto simp: strict_prefix_def)
    next
      assume "\<exists>lj\<in>set (avl_elems (listen_reg ctx)). covering (li_status lj) \<and>
        strict_prefix (path_parts (li_path lj)) (path_parts (li_path li))"
      then show ?thesis using keep by blast
    qed
    then obtain lj where lj: "lj \<in> set (avl_elems (listen_reg ctx))"
        "covering (li_status (if lj \<in> set ?T then restatus ?g lj else lj))"
        "strict_prefix (path_parts (li_path lj)) (path_parts (li_path li))" by blast
    show "\<exists>lj\<in>set (avl_elems (listen_reg ctx')). covering (li_status lj) \<and>
        strict_prefix (path_parts (li_path lj)) (path_parts (li_path li'))"
      using lj eq by (intro bexI [of _ "if lj \<in> set ?T then restatus ?g lj else lj"]) (auto simp: r(1))
  qed
qed

lemma unwatch_keeps:
  assumes "listen_wf ctx" "masked_covered ctx" "path_canon p" "wc_datasync_unwatch_ex E ctx p n = Inr ctx'"
  shows "listen_wf ctx' \<and> masked_covered ctx' \<and>
    listen_refs ctx' = (listen_refs ctx)(path_parts p := listen_refs ctx (path_parts p) - unat n)"
proof (cases "listen_items ctx (path_parts p)")
  case None
  have wf: "reg_wf li_path (listen_reg ctx)" using assms(1) by (simp add: listen_wf_def)
  then have "ctx' = ctx"
    using assms(4) None by (simp add: wc_datasync_unwatch_ex_def listen_registry_unref_def reg_get_map [OF wf assms(3)])
  then show ?thesis using assms None by (simp add: listen_refs_def fun_upd_idem)
next
  case (Some l)
  have wf: "reg_wf li_path (listen_reg ctx)" using assms(1) by (simp add: listen_wf_def)
  have get: "reg_get li_path (listen_reg ctx) p = Some l" using Some by (simp add: reg_get_map [OF wf assms(3)])
  have l: "l \<in> set (avl_elems (listen_reg ctx))" "path_parts (li_path l) = path_parts p"
    using Some by (simp_all add: reg_map_iff [OF wf])
  have refs: "listen_refs ctx (path_parts p) = unat (li_ref l)" by (simp add: listen_refs_def Some)
  have le: "n \<le> li_ref l"
    using assms(4) get by (auto simp: wc_datasync_unwatch_ex_def listen_registry_unref_def not_less split: if_splits)
  show ?thesis
  proof (cases "li_ref l - n > 0")
    case True
    let ?m = "\<lambda>li. li\<lparr>li_ref := li_ref li - n\<rparr>"
    have ctx': "ctx' = ctx\<lparr>listen_reg := reg_modify li_path ?m (listen_reg ctx) p\<rparr>"
      using assms(4) get le True by (simp add: wc_datasync_unwatch_ex_def listen_registry_unref_def not_less [symmetric])
    have e: "avl_elems (listen_reg ctx') = map (\<lambda>x. if path_parts (li_path x) = path_parts p then ?m x else x) (avl_elems (listen_reg ctx))"
      using reg_elems_modify [OF wf assms(3)] by (simp add: ctx')
    have "li_ref x - n \<noteq> 0" if "x \<in> set (avl_elems (listen_reg ctx))" "path_parts (li_path x) = path_parts p" for x
      using reg_elems_unique [OF wf that(1) l(1)] that(2) l(2) True by auto
    then have "listen_wf ctx'"
      by (intro listen_wf_map [OF assms(1) e]) (use assms(1) reg_wf_modify [OF wf assms(3)] in \<open>auto simp: ctx' listen_wf_def\<close>)
    moreover have "masked_covered ctx'" by (rule masked_covered_map [OF assms(2) e]) simp
    moreover have "listen_refs ctx' = (listen_refs ctx)(path_parts p := unat (li_ref l - n))"
      using reg_map_modify [OF wf assms(3), of ?m] Some by (auto simp: ctx' listen_refs_def fun_eq_iff)
    ultimately show ?thesis using le by (simp add: refs unat_sub)
  next
    case False
    then have eq: "li_ref l = n" by (simp flip: word_neq_0_conv)
    let ?c = "ctx\<lparr>listen_reg := reg_remove li_path (listen_reg ctx) p\<rparr>"
    let ?c2 = "snd (wc_datasync_unlisten E ?c (wc_datasync_path_to_str p) None 0)"
    have ctx': "ctx' = unmask_listen_request E ?c2 p"
      using assms(4) get le False by (simp add: wc_datasync_unwatch_ex_def listen_registry_unref_def not_less [symmetric])
    note rm = remove_keeps_wf [OF assms(1,3)]
    have same: "listen_reg ?c2 = listen_reg ?c" "next_addr ?c2 = next_addr ?c" by (simp_all add: wc_datasync_unlisten_def)
    have wf2: "listen_wf ?c2" using rm(1) unfolding listen_wf_def same .
    have "prefix (path_parts p) (path_parts (li_path li)) \<or> (\<exists>lj\<in>set (avl_elems (listen_reg ?c2)). covering (li_status lj) \<and>
          strict_prefix (path_parts (li_path lj)) (path_parts (li_path li)))"
      if li: "li \<in> set (avl_elems (listen_reg ?c2))" "li_status li = LISTEN_MASKED" for li
    proof -
      have "li \<in> set (avl_elems (listen_reg ctx))" using li(1) rm(3) unfolding same by blast
      then obtain lj where "lj \<in> set (avl_elems (listen_reg ctx))" "covering (li_status lj)"
          "strict_prefix (path_parts (li_path lj)) (path_parts (li_path li))"
        using assms(2) li(2) unfolding masked_covered_def by blast
      then show ?thesis using rm(3) unfolding same by (cases "path_parts (li_path lj) = path_parts p") auto
    qed
    note u = unmask_keeps [OF wf2 assms(3) this ctx']
    have "listen_refs ?c2 = listen_refs ?c" by (simp add: listen_refs_def [abs_def] same)
    then show ?thesis using u rm(2) eq by (simp add: refs)
  qed
qed

lemma unwatch_succeeds:
  assumes "listen_wf ctx" "path_canon p"
  shows "(\<exists>ctx'. wc_datasync_unwatch_ex E ctx p n = Inr ctx') \<longleftrightarrow>
    listen_refs ctx (path_parts p) = 0 \<or> unat n \<le> listen_refs ctx (path_parts p)"
proof -
  have wf: "reg_wf li_path (listen_reg ctx)" using assms(1) by (simp add: listen_wf_def)
  show ?thesis
  proof (cases "listen_items ctx (path_parts p)")
    case None
    then show ?thesis
      by (simp add: wc_datasync_unwatch_ex_def listen_registry_unref_def reg_get_map [OF wf assms(2)] listen_refs_def)
  next
    case (Some l)
    then have "li_ref l \<noteq> 0" using assms(1) by (auto simp: listen_wf_def reg_map_iff)
    then have "unat (li_ref l) \<noteq> 0" by (simp add: unat_eq_0)
    then show ?thesis
      using Some by (auto simp: wc_datasync_unwatch_ex_def listen_registry_unref_def reg_get_map [OF wf assms(2)]
          listen_refs_def word_less_nat_alt)
  qed
qed

section \<open>Runs\<close>

text \<open>
  The events that reach the registry: calls to watch and unwatch, loss and return of the
  connection, responses to listen requests, and other requests.
\<close>

inductive listen_step :: "sdk_env \<Rightarrow> listen_ctx \<Rightarrow> listen_ctx \<Rightarrow> bool" for E where
  step_watch: "watchable path \<Longrightarrow> listen_refs ctx (path_parts (wc_datasync_path_new path)) < 2 ^ 32 - 1 \<Longrightarrow>
    listen_step E ctx (wc_datasync_watch E ctx path)"
| step_unwatch: "watchable path \<Longrightarrow> wc_datasync_unwatch_ex E ctx (wc_datasync_path_new path) n = Inr ctx' \<Longrightarrow>
    listen_step E ctx ctx'"
| step_suspend: "listen_step E ctx (wc_listen_suspend_all ctx)"
| step_resume: "listen_step E ctx (wc_listen_resume_all E ctx)"
| step_result: "on_listen_result status user ctx = Inr ctx' \<Longrightarrow> listen_step E ctx ctx'"
| step_state: "listen_step E ctx (ctx\<lparr>cnx_state := st\<rparr>)"
| step_request: "listen_step E ctx (snd (DEFINE_REQ_FUNC E ctx r cb u))"

lemma refs_not_max:
  assumes "listen_refs ctx ps < 2 ^ 32 - 1" "listen_items ctx ps = Some l"
  shows "li_ref l \<noteq> - 1"
proof
  assume "li_ref l = - 1"
  then have "listen_refs ctx ps = 2 ^ 32 - 1" using assms(2) by (simp add: listen_refs_def unsigned_minus_1_eq_mask mask_eq_exp_minus_1)
  then show False using assms(1) by simp
qed

lemma listen_frame:
  assumes "listen_reg ctx' = listen_reg ctx" "next_addr ctx' = next_addr ctx"
  shows "listen_wf ctx' \<longleftrightarrow> listen_wf ctx" "masked_covered ctx' \<longleftrightarrow> masked_covered ctx"
  by (simp_all add: listen_wf_def masked_covered_def assms)

lemma listen_step_keeps:
  assumes "listen_step E ctx ctx'" "listen_wf ctx" "masked_covered ctx"
  shows "listen_wf ctx' \<and> masked_covered ctx'"
  using assms
proof cases
  case (step_watch path)
  then show ?thesis using watch_keeps [OF assms(2,3) step_watch(2), of E] refs_not_max by blast
next
  case (step_unwatch path n)
  then show ?thesis using unwatch_keeps [OF assms(2,3) watchable_path(2)] by blast
next
  case step_suspend
  then show ?thesis using suspend_keeps [OF assms(2,3)] by simp
next
  case step_resume
  then show ?thesis using resume_keeps [OF assms(2,3)] by simp
next
  case (step_result status user)
  then show ?thesis using result_keeps [OF assms(2,3)] by blast
next
  case (step_state st)
  then show ?thesis using assms(2,3) listen_frame [of ctx' ctx] by simp
next
  case (step_request r cb u)
  then show ?thesis using assms(2,3) listen_frame [of ctx' ctx] by simp
qed

text \<open>
  Claim C6: in every state of a run that starts with an empty registry, the registry is a well-formed
  tree without unreferenced items, and a masked item always lies strictly below an item whose own
  listen request is active, pending or required, or was refused: as long as no request is refused
  the server sends the data of every watched path.
\<close>

theorem watched_paths_covered:
  assumes "(listen_step E)\<^sup>*\<^sup>* ctx0 ctx" "listen_reg ctx0 = listen_registry_new"
  shows "listen_wf ctx \<and> (\<forall>li\<in>set (avl_elems (listen_reg ctx)). li_status li = LISTEN_MASKED \<longrightarrow>
    (\<exists>lj\<in>set (avl_elems (listen_reg ctx)). (listen_live (li_status lj) \<or> li_status lj = LISTEN_FAILED) \<and>
       strict_prefix (path_parts (li_path lj)) (path_parts (li_path li))))"
proof -
  have "listen_wf ctx \<and> masked_covered ctx"
    using assms
  proof (induction rule: rtranclp_induct)
    case base
    then show ?case by (simp add: listen_wf_def masked_covered_def listen_registry_new_def avl_wf_new)
  next
    case (step y z)
    then show ?case using listen_step_keeps by blast
  qed
  then show ?thesis by (simp add: masked_covered_def covering_def)
qed

definition sample_listen_ctx :: listen_ctx where
  "sample_listen_ctx = \<lparr>cnx_state = WC_CNX_STATE_CONNECTED, last_req = 0, pending_req_table = empty_table, ws_sent = [],
     pids = zero_pids, time_offset = 0, listen_reg = listen_registry_new, next_addr = 0\<rparr>"

lemma watchable_sample: "watchable ''/a''" "watchable ''/a/b''" "watchable ''/a/b/c''"
proof -
  have "key_canonical ''a''" "key_canonical ''b''" "key_canonical ''c''" by code_simp+
  then show "watchable ''/a''" "watchable ''/a/b''" "watchable ''/a/b/c''"
    by (simp_all add: watchable_def segments_Cons)
qed

theorem watched_paths_covered_witness:
  "listen_wf (wc_datasync_watch sample_env sample_listen_ctx ''/a'')"
proof -
  have "listen_refs sample_listen_ctx ps = 0" for ps
    by (simp add: listen_refs_def sample_listen_ctx_def listen_registry_new_def)
  then have "listen_step sample_env sample_listen_ctx (wc_datasync_watch sample_env sample_listen_ctx ''/a'')"
    by (intro step_watch watchable_sample) simp
  then have "(listen_step sample_env)\<^sup>*\<^sup>* sample_listen_ctx (wc_datasync_watch sample_env sample_listen_ctx ''/a'')" by blast
  from watched_paths_covered [OF this] show ?thesis by (simp add: sample_listen_ctx_def)
qed


lemma sample_listen_ctx_wf:
  "listen_wf sample_listen_ctx" "masked_covered sample_listen_ctx" "listen_refs sample_listen_ctx = (\<lambda>ps. 0)"
  by (simp_all add: listen_wf_def masked_covered_def listen_refs_def fun_eq_iff sample_listen_ctx_def listen_registry_new_def)


text \<open>The callbacks of requests: the handler of listen requests, or a function of the application.\<close>

definition invoke_callback :: "(nat \<Rightarrow> 'a listen_ctx_scheme \<Rightarrow> 'a listen_ctx_scheme) \<Rightarrow> 'a listen_ctx_scheme req_invoke" where
  "invoke_callback app cb rid ty status reason data user ctx = (case cb of
      On_listen_result \<Rightarrow> on_listen_result status user ctx
    | App_callback n \<Rightarrow> Inr (app n ctx))"

definition after_unwatch :: "string list \<Rightarrow> string \<Rightarrow> listen_ctx res" where
  "after_unwatch paths path =
     wc_datasync_unwatch_ex sample_env (fold (\<lambda>p ctx. wc_datasync_watch sample_env ctx p) paths sample_listen_ctx)
       (wc_datasync_path_new path) 1"


text \<open>
  Giving up a masked path sends listen requests for the paths below it although a path
  above is still listened to.
\<close>

lemma unwatch_masked_path:
  "rbind (after_unwatch [''/a'', ''/a/b'', ''/a/b/c''] ''/a/b'') (\<lambda>ctx.
     Inr (map (\<lambda>li. (wc_datasync_path_to_str (li_path li), li_status li)) (avl_elems (listen_reg ctx)))) =
   Inr [(''/a'', LISTEN_PENDING), (''/a/b/c'', LISTEN_PENDING)]"
  by code_simp

end
