(* ===== verification/On_Registry.thy ===== *)
theory On_Registry
  imports Listen Cache
begin

text \<open>
  Subscriptions to data events (\<^verbatim>\<open>lib/datasync/on/on_registry.c\<close> and
  \<^verbatim>\<open>on_api.c\<close>): the registry of callbacks per path, the comparison of the cache with what the
  callbacks were told last, the dispatch of an update to the subscriptions it concerns, and the
  deferred removal of callbacks.

  A callback is known by the address of its list node (the handle given to the application) and
  the number of its function. \<open>app\<close> says what a callback returns, as a function of the
  calls made so far and of the call; callbacks do not call back into the library. The hashes that
  \<^verbatim>\<open>treenode_hash_get\<close> stores in the nodes it visits are not written back to the cache: they
  only memoise (see \<^verbatim>\<open>treenode_hash_get_correct\<close>).
\<close>

section \<open>Data\<close>

datatype on_event_type = ON_CHILD_ADDED | ON_CHILD_REMOVED | ON_CHILD_CHANGED | ON_VALUE

text \<open>The enumerators in the order of the declaration; arrays indexed by them can be compared.\<close>

instantiation on_event_type :: enum
begin

definition enum_on_event_type :: "on_event_type list" where
  "enum_on_event_type = [ON_CHILD_ADDED, ON_CHILD_REMOVED, ON_CHILD_CHANGED, ON_VALUE]"

definition enum_all_on_event_type :: "(on_event_type \<Rightarrow> bool) \<Rightarrow> bool" where
  "enum_all_on_event_type P = list_all P [ON_CHILD_ADDED, ON_CHILD_REMOVED, ON_CHILD_CHANGED, ON_VALUE]"

definition enum_ex_on_event_type :: "(on_event_type \<Rightarrow> bool) \<Rightarrow> bool" where
  "enum_ex_on_event_type P = list_ex P [ON_CHILD_ADDED, ON_CHILD_REMOVED, ON_CHILD_CHANGED, ON_VALUE]"

instance
proof
  show "(UNIV :: on_event_type set) = set Enum.enum"
    unfolding enum_on_event_type_def by (auto intro: on_event_type.exhaust)
  show "distinct (Enum.enum :: on_event_type list)"
    unfolding enum_on_event_type_def by simp
  show "Enum.enum_all P = Ball (UNIV :: on_event_type set) P" for P
    unfolding enum_all_on_event_type_def by (auto intro: on_event_type.induct)
  show "Enum.enum_ex P = Bex (UNIV :: on_event_type set) P" for P
    unfolding enum_ex_on_event_type_def by (auto, metis on_event_type.exhaust)
qed

end

text \<open>The value of the enumerator, as used in masks of event types.\<close>

definition event_num :: "on_event_type \<Rightarrow> nat" where
  "event_num t = (case t of ON_CHILD_ADDED \<Rightarrow> 0 | ON_CHILD_REMOVED \<Rightarrow> 1 | ON_CHILD_CHANGED \<Rightarrow> 2 | ON_VALUE \<Rightarrow> 3)"

record on_cb =
  cb_handle :: nat
  cb_fn :: nat

record on_sub =
  os_cbs :: "on_event_type \<Rightarrow> on_cb list"
  os_children_hashes :: "(string \<times> string) avl"
  os_hash :: string
  os_path :: wc_ds_path

record on_call =
  oc_handle :: nat
  oc_fn :: nat
  oc_data :: string
  oc_key :: "string option"
  oc_prev :: "string option"

record on_ctx = listen_ctx +
  on_reg :: "on_sub avl"
  cache :: data_cache
  next_handle :: nat
  on_calls :: "on_call list"
  deleted_cb_list :: "nat list"

type_synonym app_on = "on_call list \<Rightarrow> on_call \<Rightarrow> bool"

definition compare_internal_hash_data :: "string \<Rightarrow> string \<Rightarrow> int" where
  "compare_internal_hash_data a b = wc_datasync_key_cmp a b"

definition on_registry_new :: "on_sub avl" where
  "on_registry_new = avl_new"

section \<open>Calling back\<close>

definition call_cb ::
    "app_on \<Rightarrow> string \<Rightarrow> string option \<Rightarrow> string option \<Rightarrow> on_cb \<Rightarrow> 'a on_ctx_scheme \<Rightarrow> bool \<times> 'a on_ctx_scheme" where
  "call_cb app data key prev p_cb ctx =
     (let c = \<lparr>oc_handle = cb_handle p_cb, oc_fn = cb_fn p_cb, oc_data = data, oc_key = key, oc_prev = prev\<rparr>
      in (app (on_calls ctx) c, ctx\<lparr>on_calls := on_calls ctx @ [c]\<rparr>))"

definition mark_cb_for_deletion :: "on_cb \<Rightarrow> 'a on_ctx_scheme \<Rightarrow> 'a on_ctx_scheme" where
  "mark_cb_for_deletion p_cb ctx = ctx\<lparr>deleted_cb_list := cb_handle p_cb # deleted_cb_list ctx\<rparr>"

text \<open>One turn of the loops over a list of callbacks: call, and mark when 0 is returned.\<close>

definition call_or_mark ::
    "app_on \<Rightarrow> string \<Rightarrow> string option \<Rightarrow> string option \<Rightarrow> on_cb \<Rightarrow> 'a on_ctx_scheme \<Rightarrow> 'a on_ctx_scheme" where
  "call_or_mark app data key prev p_cb ctx =
     (let (keep, ctx) = call_cb app data key prev p_cb ctx in if keep then ctx else mark_cb_for_deletion p_cb ctx)"

definition trigger_on_child_cb_list ::
    "app_on \<Rightarrow> on_sub \<Rightarrow> on_event_type \<Rightarrow> treenode option \<Rightarrow> string \<Rightarrow> string option \<Rightarrow> 'a on_ctx_scheme \<Rightarrow> 'a on_ctx_scheme" where
  "trigger_on_child_cb_list app sub ty snapshot cur_key prev_key ctx =
     fold (call_or_mark app (case snapshot of None \<Rightarrow> ''null'' | Some n \<Rightarrow> treenode_to_json (Some n)) (Some cur_key) prev_key)
       (os_cbs sub ty) ctx"

section \<open>Children\<close>

definition node_hash :: "treenode option \<Rightarrow> string option" where
  "node_hash n = (case n of None \<Rightarrow> None | Some n \<Rightarrow> fst (treenode_hash_get n))"

definition hash_or_null :: "string option \<Rightarrow> string" where
  "hash_or_null h = (case h of None \<Rightarrow> null_hash | Some h \<Rightarrow> h)"

definition refresh_on_child_sub_hashes :: "children \<Rightarrow> (string \<times> string) avl" where
  "refresh_on_child_sub_hashes children =
     fold (\<lambda>(key, n) t. snd (avl_insert compare_internal_hash_data fst (\<lambda>d. d) t (key, hash_or_null (node_hash (Some n)))))
       (reg_all children) avl_new"

text \<open>A missing element comes after every key.\<close>

fun datasync_key_cmp_null :: "(string \<times> treenode) list \<Rightarrow> (string \<times> string) list \<Rightarrow> int" where
  "datasync_key_cmp_null [] [] = 0"
| "datasync_key_cmp_null [] (b # bs) = 1"
| "datasync_key_cmp_null (a # as) [] = -1"
| "datasync_key_cmp_null (a # as) (b # bs) = wc_datasync_key_cmp (fst a) (fst b)"

text \<open>An event for the callbacks of a type: the child (none when removed), its key and the key before it.\<close>

record child_event =
  ev_type :: on_event_type
  ev_node :: "treenode option"
  ev_key :: string
  ev_prev :: "string option"

text \<open>
  The loop over the children in the cache and the remembered hashes, both in the order of keys:
  the events it triggers and the final value of \<^verbatim>\<open>refresh\<close>.
\<close>

function child_loop ::
    "(string \<times> treenode) list \<Rightarrow> (string \<times> string) list \<Rightarrow> string option \<Rightarrow> bool \<Rightarrow> bool \<times> child_event list" where
  "child_loop cs hs prev refresh =
     (if cs = [] \<and> hs = [] then (refresh, [])
      else let cmp = datasync_key_cmp_null cs hs
           in if cmp < 0
              then let (key, n) = hd cs; (r, es) = child_loop (tl cs) hs (Some key) True
                   in (r, \<lparr>ev_type = ON_CHILD_ADDED, ev_node = Some n, ev_key = key, ev_prev = prev\<rparr> # es)
              else if cmp = 0
              then let (key, n) = hd cs; same = treenode_hash_eq (node_hash (Some n)) (Some (snd (hd hs)));
                       (r, es) = child_loop (tl cs) (tl hs) (Some key) (if same then refresh else True)
                   in (r, if same then es
                          else \<lparr>ev_type = ON_CHILD_CHANGED, ev_node = Some n, ev_key = key, ev_prev = prev\<rparr> # es)
              else let (r, es) = child_loop cs (tl hs) prev True
                   in (r, \<lparr>ev_type = ON_CHILD_REMOVED, ev_node = None, ev_key = fst (hd hs), ev_prev = prev\<rparr> # es))"
  by auto
termination
proof (relation "measure (\<lambda>(cs, hs, prev, refresh). length cs + length hs)", goal_cases)
  case 1
  then show ?case by simp
next
  case (2 cs hs prev refresh)
  then show ?case by (cases cs; cases hs) auto
next
  case (3 cs hs prev refresh)
  then show ?case by (cases cs; cases hs) auto
next
  case (4 cs hs prev refresh)
  then show ?case by (cases cs; cases hs) auto
qed

definition fire_child_event :: "app_on \<Rightarrow> on_sub \<Rightarrow> child_event \<Rightarrow> 'a on_ctx_scheme \<Rightarrow> 'a on_ctx_scheme" where
  "fire_child_event app sub e ctx = trigger_on_child_cb_list app sub (ev_type e) (ev_node e) (ev_key e) (ev_prev e) ctx"

definition set_children_hashes :: "on_sub \<Rightarrow> (string \<times> string) avl \<Rightarrow> 'a on_ctx_scheme \<Rightarrow> 'a on_ctx_scheme" where
  "set_children_hashes sub hs ctx =
     ctx\<lparr>on_reg := reg_modify os_path (\<lambda>s. s\<lparr>os_children_hashes := hs\<rparr>) (on_reg ctx) (os_path sub)\<rparr>"

definition on_child_trig :: "app_on \<Rightarrow> on_sub \<Rightarrow> 'a on_ctx_scheme \<Rightarrow> 'a on_ctx_scheme res" where
  "on_child_trig app sub ctx =
     rbind (data_cache_get_parsed (cache ctx) (os_path sub)) (\<lambda>cached_value.
       case cached_value of
         Some (TN_internal h children) \<Rightarrow>
           let (refresh, es) = child_loop (reg_all children) (reg_all (os_children_hashes sub)) None False;
               ctx = fold (fire_child_event app sub) es ctx
           in Inr (if refresh then set_children_hashes sub (refresh_on_child_sub_hashes children) ctx else ctx)
       | _ \<Rightarrow>
           let ctx = fold (\<lambda>(key, h). trigger_on_child_cb_list app sub ON_CHILD_REMOVED None key None)
                       (reg_all (os_children_hashes sub)) ctx
           in Inr (set_children_hashes sub avl_new ctx))"

section \<open>Values\<close>

definition set_sub_hash :: "on_sub \<Rightarrow> string \<Rightarrow> 'a on_ctx_scheme \<Rightarrow> 'a on_ctx_scheme" where
  "set_sub_hash sub h ctx = ctx\<lparr>on_reg := reg_modify os_path (\<lambda>s. s\<lparr>os_hash := h\<rparr>) (on_reg ctx) (os_path sub)\<rparr>"

definition on_val_trig :: "app_on \<Rightarrow> on_sub \<Rightarrow> 'a on_ctx_scheme \<Rightarrow> 'a on_ctx_scheme res" where
  "on_val_trig app sub ctx =
     (if os_cbs sub ON_VALUE = [] then Inr ctx
      else rbind (data_cache_get_parsed (cache ctx) (os_path sub)) (\<lambda>cached_data.
        let cached_hash = node_hash cached_data
        in if treenode_hash_eq cached_hash (Some (os_hash sub)) then Inr ctx
           else let ctx = fold (call_or_mark app (treenode_to_json cached_data) None None) (os_cbs sub ON_VALUE) ctx
                in Inr (set_sub_hash sub (hash_or_null cached_hash) ctx)))"

definition trig :: "app_on \<Rightarrow> on_sub \<Rightarrow> 'a on_ctx_scheme \<Rightarrow> 'a on_ctx_scheme res" where
  "trig app sub ctx =
     rbind (if os_cbs sub ON_CHILD_ADDED \<noteq> [] \<or> os_cbs sub ON_CHILD_CHANGED \<noteq> [] \<or> os_cbs sub ON_CHILD_REMOVED \<noteq> []
            then on_child_trig app sub ctx else Inr ctx) (\<lambda>ctx.
     if os_cbs sub ON_VALUE \<noteq> [] then on_val_trig app sub ctx else Inr ctx)"

section \<open>Removal\<close>

definition remove_cbs :: "int \<Rightarrow> nat option \<Rightarrow> on_sub \<Rightarrow> on_sub" where
  "remove_cbs type_mask h sub = sub\<lparr>os_cbs := (\<lambda>ty.
     if bit type_mask (event_num ty)
     then filter (\<lambda>p_cb. \<not> (h = None \<or> h = Some (cb_handle p_cb))) (os_cbs sub ty)
     else os_cbs sub ty)\<rparr>"

definition count_cbs :: "on_sub \<Rightarrow> nat" where
  "count_cbs sub = sum_list (map (\<lambda>ty. length (os_cbs sub ty)) [ON_CHILD_ADDED, ON_CHILD_REMOVED, ON_CHILD_CHANGED, ON_VALUE])"

definition on_registry_remove :: "'a on_ctx_scheme \<Rightarrow> wc_ds_path \<Rightarrow> int \<Rightarrow> nat option \<Rightarrow> nat \<times> 'a on_ctx_scheme" where
  "on_registry_remove ctx path type_mask h = (case reg_get os_path (on_reg ctx) path of
      None \<Rightarrow> (0, ctx)
    | Some sub \<Rightarrow>
        let sub' = remove_cbs type_mask h sub;
            removed = count_cbs sub - count_cbs sub'
        in (removed,
            if count_cbs sub' = 0 then ctx\<lparr>on_reg := reg_remove os_path (on_reg ctx) path\<rparr>
            else ctx\<lparr>on_reg := reg_modify os_path (remove_cbs type_mask h) (on_reg ctx) path\<rparr>))"

text \<open>The subscription a handle points to; a handle whose node was freed points nowhere.\<close>

definition handle_sub :: "'a on_ctx_scheme \<Rightarrow> nat \<Rightarrow> on_sub option" where
  "handle_sub ctx h = List.find (\<lambda>sub. \<exists>ty\<in>{ON_CHILD_ADDED, ON_CHILD_REMOVED, ON_CHILD_CHANGED, ON_VALUE}.
     h \<in> cb_handle ` set (os_cbs sub ty)) (avl_elems (on_reg ctx))"

fun deleted_cb_gc_loop :: "sdk_env \<Rightarrow> nat list \<Rightarrow> 'a on_ctx_scheme \<Rightarrow> 'a on_ctx_scheme res" where
  "deleted_cb_gc_loop E [] ctx = Inr ctx"
| "deleted_cb_gc_loop E (h # hs) ctx = (case handle_sub ctx h of
      None \<Rightarrow> Inl UseAfterFree
    | Some sub \<Rightarrow>
        rbind (wc_datasync_unwatch_ex E ctx (os_path sub) 1) (\<lambda>ctx.
          deleted_cb_gc_loop E hs ((snd (on_registry_remove ctx (os_path sub) (-1) (Some h)))\<lparr>deleted_cb_list := hs\<rparr>)))"

definition deleted_cb_gc :: "sdk_env \<Rightarrow> 'a on_ctx_scheme \<Rightarrow> 'a on_ctx_scheme res" where
  "deleted_cb_gc E ctx = deleted_cb_gc_loop E (deleted_cb_list ctx) ctx"

section \<open>Dispatch\<close>

text \<open>Triggering a list of subscriptions one after the other.\<close>

fun trig_all :: "app_on \<Rightarrow> on_sub list \<Rightarrow> 'a on_ctx_scheme \<Rightarrow> 'a on_ctx_scheme res" where
  "trig_all app [] ctx = Inr ctx"
| "trig_all app (sub # subs) ctx = rbind (trig app sub ctx) (trig_all app subs)"

fun trig_above :: "app_on \<Rightarrow> wc_ds_path \<Rightarrow> nat list \<Rightarrow> 'a on_ctx_scheme \<Rightarrow> 'a on_ctx_scheme res" where
  "trig_above app key [] ctx = Inr ctx"
| "trig_above app key (u # us) ctx =
     rbind (case reg_get os_path (on_reg ctx) (key\<lparr>p_nparts := u\<rparr>) of None \<Rightarrow> Inr ctx | Some sub \<Rightarrow> trig app sub ctx)
       (trig_above app key us)"

definition on_registry_dispatch_on_event_ex :: "sdk_env \<Rightarrow> app_on \<Rightarrow> 'a on_ctx_scheme \<Rightarrow> wc_ds_path \<Rightarrow> 'a on_ctx_scheme res" where
  "on_registry_dispatch_on_event_ex E app ctx parsed_path =
     rbind (trig_above app parsed_path [0..<p_nparts parsed_path] ctx) (\<lambda>ctx.
     rbind (trig_all app (takeWhile (\<lambda>sub. wc_datasync_path_starts_with (os_path sub) parsed_path)
              (reg_from os_path (on_reg ctx) parsed_path)) ctx) (\<lambda>ctx.
     deleted_cb_gc E ctx))"

definition on_registry_dispatch_on_event :: "sdk_env \<Rightarrow> app_on \<Rightarrow> 'a on_ctx_scheme \<Rightarrow> string \<Rightarrow> 'a on_ctx_scheme res" where
  "on_registry_dispatch_on_event E app ctx path =
     on_registry_dispatch_on_event_ex E app ctx (wc_datasync_path_new path)"

section \<open>Registration\<close>

text \<open>The first calls for the children that are in the cache; what the callback returns is ignored.\<close>

fun call_children ::
    "app_on \<Rightarrow> on_cb \<Rightarrow> (string \<times> treenode) list \<Rightarrow> string option \<Rightarrow> 'a on_ctx_scheme \<Rightarrow> 'a on_ctx_scheme" where
  "call_children app p_cb [] prev ctx = ctx"
| "call_children app p_cb ((key, n) # cs) prev ctx =
     call_children app p_cb cs (Some key) (snd (call_cb app (treenode_to_json (Some n)) (Some key) prev p_cb ctx))"

definition add_cb :: "on_event_type \<Rightarrow> on_cb \<Rightarrow> on_sub \<Rightarrow> on_sub" where
  "add_cb ty p_cb sub = sub\<lparr>os_cbs := (os_cbs sub)(ty := p_cb # os_cbs sub ty)\<rparr>"

text \<open>The subscription of the path with the new callback, and the registry with it.\<close>

definition registered_sub ::
    "on_sub avl \<Rightarrow> on_event_type \<Rightarrow> wc_ds_path \<Rightarrow> on_cb \<Rightarrow> on_sub \<times> on_sub avl" where
  "registered_sub reg ty p p_cb = (case reg_get os_path reg p of
      None \<Rightarrow>
        let sub = \<lparr>os_cbs = (\<lambda>_. [])(ty := [p_cb]), os_children_hashes = avl_new, os_hash = null_hash,
                   os_path = wc_datasync_path_copy p\<rparr>
        in (sub, reg_insert os_path reg sub)
    | Some tmp \<Rightarrow> (add_cb ty p_cb tmp, reg_modify os_path (add_cb ty p_cb) reg p))"

definition initial_calls ::
    "app_on \<Rightarrow> on_event_type \<Rightarrow> on_sub \<Rightarrow> on_cb \<Rightarrow> treenode option \<Rightarrow> 'a on_ctx_scheme \<Rightarrow> 'a on_ctx_scheme" where
  "initial_calls app ty sub p_cb snapshot ctx =
     (if snapshot \<noteq> None \<or> wc_is_listening ctx (os_path sub) \<or> cnx_state ctx = WC_CNX_STATE_DISCONNECTED
      then case ty of
          ON_VALUE \<Rightarrow>
            set_sub_hash sub (hash_or_null (node_hash snapshot))
              (snd (call_cb app (treenode_to_json snapshot) None None p_cb ctx))
        | ON_CHILD_ADDED \<Rightarrow>
            (case snapshot of
               Some (TN_internal h children) \<Rightarrow>
                 set_children_hashes sub (refresh_on_child_sub_hashes children)
                   (call_children app p_cb (reg_all children) None ctx)
             | _ \<Rightarrow> ctx)
        | _ \<Rightarrow> ctx
      else ctx)"

definition on_registry_add ::
    "app_on \<Rightarrow> 'a on_ctx_scheme \<Rightarrow> on_event_type \<Rightarrow> string \<Rightarrow> nat \<Rightarrow> (nat \<times> 'a on_ctx_scheme) res" where
  "on_registry_add app ctx ty path cb =
     (let p_cb = \<lparr>cb_handle = next_handle ctx, cb_fn = cb\<rparr>;
          (sub, reg) = registered_sub (on_reg ctx) ty (wc_datasync_path_new path) p_cb;
          ctx = ctx\<lparr>on_reg := reg, next_handle := next_handle ctx + 1\<rparr>
      in rbind (data_cache_get_parsed (cache ctx) (os_path sub)) (\<lambda>snapshot.
         Inr (cb_handle p_cb, initial_calls app ty sub p_cb snapshot ctx)))"

section \<open>The interface of the library\<close>

definition wc_datasync_on ::
    "sdk_env \<Rightarrow> app_on \<Rightarrow> on_event_type \<Rightarrow> 'a on_ctx_scheme \<Rightarrow> string \<Rightarrow> nat \<Rightarrow> (nat \<times> 'a on_ctx_scheme) res" where
  "wc_datasync_on E app ty ctx path callback =
     rbind (on_registry_add app ctx ty path callback) (\<lambda>(ret, ctx). Inr (ret, wc_datasync_watch E ctx path))"

definition wc_datasync_on_value where
  "wc_datasync_on_value E app ctx path callback = wc_datasync_on E app ON_VALUE ctx path callback"

definition wc_datasync_on_child_added where
  "wc_datasync_on_child_added E app ctx path callback = wc_datasync_on E app ON_CHILD_ADDED ctx path callback"

definition wc_datasync_on_child_changed where
  "wc_datasync_on_child_changed E app ctx path callback = wc_datasync_on E app ON_CHILD_CHANGED ctx path callback"

definition wc_datasync_on_child_removed where
  "wc_datasync_on_child_removed E app ctx path callback = wc_datasync_on E app ON_CHILD_REMOVED ctx path callback"

definition wc_datasync_on_handle_get_path :: "'a on_ctx_scheme \<Rightarrow> nat \<Rightarrow> string res" where
  "wc_datasync_on_handle_get_path ctx h =
     (case handle_sub ctx h of None \<Rightarrow> Inl UseAfterFree | Some sub \<Rightarrow> Inr (wc_datasync_path_to_str (os_path sub)))"

definition wc_datasync_off_w :: "sdk_env \<Rightarrow> 'a on_ctx_scheme \<Rightarrow> string \<Rightarrow> int \<Rightarrow> nat option \<Rightarrow> 'a on_ctx_scheme res" where
  "wc_datasync_off_w E ctx path event_mask cb =
     (let parsed_path = wc_datasync_path_new path;
          (removed, ctx) = on_registry_remove ctx parsed_path event_mask cb
      in wc_datasync_unwatch_ex E ctx parsed_path (word_of_nat removed))"

definition wc_datasync_off :: "sdk_env \<Rightarrow> 'a on_ctx_scheme \<Rightarrow> nat \<Rightarrow> 'a on_ctx_scheme res" where
  "wc_datasync_off E ctx h =
     rbind (wc_datasync_on_handle_get_path ctx h) (\<lambda>path. wc_datasync_off_w E ctx path (-1) (Some h))"

definition wc_datasync_off_path :: "sdk_env \<Rightarrow> 'a on_ctx_scheme \<Rightarrow> string \<Rightarrow> 'a on_ctx_scheme res" where
  "wc_datasync_off_path E ctx path = wc_datasync_off_w E ctx path (-1) None"

definition wc_datasync_off_path_type :: "sdk_env \<Rightarrow> 'a on_ctx_scheme \<Rightarrow> string \<Rightarrow> on_event_type \<Rightarrow> 'a on_ctx_scheme res" where
  "wc_datasync_off_path_type E ctx path ty = wc_datasync_off_w E ctx path (push_bit (event_num ty) 1) None"

text \<open>\<^verbatim>\<open>"%.4s %s\n"\<close> for each subscription.\<close>

definition dump_on_registry :: "on_sub avl \<Rightarrow> string" where
  "dump_on_registry reg = concat (map (\<lambda>sub.
     [if os_cbs sub ON_VALUE \<noteq> [] then CHR ''v'' else CHR ''-'',
      if os_cbs sub ON_CHILD_ADDED \<noteq> [] then CHR ''a'' else CHR ''-'',
      if os_cbs sub ON_CHILD_REMOVED \<noteq> [] then CHR ''r'' else CHR ''-'',
      if os_cbs sub ON_CHILD_CHANGED \<noteq> [] then CHR ''c'' else CHR ''-''] @
     '' '' @ wc_datasync_path_to_str (os_path sub) @ [CHR 0x0A]) (reg_all reg))"

definition sample_on_ctx :: on_ctx where
  "sample_on_ctx = \<lparr>cnx_state = WC_CNX_STATE_CONNECTED, last_req = 0, pending_req_table = empty_table, ws_sent = [],
     pids = zero_pids, time_offset = 0, listen_reg = listen_registry_new, next_addr = 0, on_reg = on_registry_new,
     cache = data_cache_new, next_handle = 0, on_calls = [], deleted_cb_list = []\<rparr>"

definition set_cache :: "string \<Rightarrow> json \<Rightarrow> 'a on_ctx_scheme \<Rightarrow> 'a on_ctx_scheme res" where
  "set_cache path j ctx = rbind (data_cache_set_ex (cache ctx) (wc_datasync_path_new path) j) (\<lambda>c. Inr (ctx\<lparr>cache := c\<rparr>))"

end
