(* ===== verification/On_Events.thy ===== *)
theory On_Events
  imports On_Registry
begin

text \<open>
  What the subscription registry of \<open>On_Registry\<close> promises: which events a trigger tells
  the callbacks of a subscription, and which subscriptions a dispatch triggers.
\<close>

section \<open>What a change of children amounts to\<close>

definition sorted_keys :: "(string \<times> 'b) list \<Rightarrow> bool" where
  "sorted_keys xs \<longleftrightarrow> sorted_wrt (\<lambda>a b. wc_datasync_key_cmp (fst a) (fst b) < 0) xs \<and> list_all (\<lambda>x. key_canonical (fst x)) xs"

text \<open>The key of the child before the position of a key.\<close>

definition prev_key :: "(string \<times> 'b) list \<Rightarrow> string \<Rightarrow> string option" where
  "prev_key cs k = (let before = filter (\<lambda>c. wc_datasync_key_cmp (fst c) k < 0) cs
     in if before = [] then None else Some (fst (last before)))"

text \<open>
  The events that tell an application that knows the children with the hashes \<open>hs\<close> about the
  children \<open>cs\<close>; \<open>all\<close> are the children among which the previous key is looked up.
\<close>

definition child_events :: "(string \<times> treenode) list \<Rightarrow> (string \<times> treenode) list \<Rightarrow> (string \<times> string) list \<Rightarrow> child_event set" where
  "child_events all cs hs =
     {\<lparr>ev_type = ON_CHILD_ADDED, ev_node = Some n, ev_key = k, ev_prev = prev_key all k\<rparr> | k n.
        (k, n) \<in> set cs \<and> k \<notin> fst ` set hs} \<union>
     {\<lparr>ev_type = ON_CHILD_CHANGED, ev_node = Some n, ev_key = k, ev_prev = prev_key all k\<rparr> | k n.
        (k, n) \<in> set cs \<and> (\<exists>h. (k, h) \<in> set hs \<and> \<not> treenode_hash_eq (tn_digest n) (Some h))} \<union>
     {\<lparr>ev_type = ON_CHILD_REMOVED, ev_node = None, ev_key = k, ev_prev = prev_key all k\<rparr> | k.
        k \<in> fst ` set hs \<and> k \<notin> fst ` set cs}"

lemma sorted_keys_Nil [simp]: "sorted_keys []"
  by (simp add: sorted_keys_def)

lemma sorted_keys_Cons [simp]:
  "sorted_keys (x # xs) \<longleftrightarrow> key_canonical (fst x) \<and> (\<forall>y\<in>set xs. wc_datasync_key_cmp (fst x) (fst y) < 0) \<and> sorted_keys xs"
  by (auto simp: sorted_keys_def)

lemma sorted_keys_append [simp]:
  "sorted_keys (xs @ ys) \<longleftrightarrow> sorted_keys xs \<and> sorted_keys ys \<and> (\<forall>x\<in>set xs. \<forall>y\<in>set ys. wc_datasync_key_cmp (fst x) (fst y) < 0)"
  by (auto simp: sorted_keys_def sorted_wrt_append)

lemma sorted_keys_canonical: "sorted_keys xs \<Longrightarrow> x \<in> set xs \<Longrightarrow> key_canonical (fst x)"
  by (auto simp: sorted_keys_def list_all_iff)

lemma canonical_ok [simp]: "key_canonical k \<Longrightarrow> key_ok k"
  by (simp add: key_canonical_def)

lemma key_less_trans:
  "key_canonical a \<Longrightarrow> key_canonical b \<Longrightarrow> key_canonical c \<Longrightarrow> wc_datasync_key_cmp a b < 0 \<Longrightarrow>
   wc_datasync_key_cmp b c < 0 \<Longrightarrow> wc_datasync_key_cmp a c < 0"
  by (rule dkey.kc_less_trans [of a b c]) simp_all

lemma key_less_irrefl [simp]: "key_canonical a \<Longrightarrow> \<not> wc_datasync_key_cmp a a < 0"
  using dkey.kc_refl [of a] by simp

lemma key_less_asym: "key_canonical a \<Longrightarrow> key_canonical b \<Longrightarrow> wc_datasync_key_cmp a b < 0 \<Longrightarrow> \<not> wc_datasync_key_cmp b a < 0"
  using dkey.kc_swap [of a b] by simp

text \<open>A key below a sorted list is not one of its keys.\<close>

lemma key_less_notin:
  "key_canonical k \<Longrightarrow> (\<forall>y\<in>set ys. wc_datasync_key_cmp k (fst y) < 0) \<Longrightarrow> k \<notin> fst ` set ys"
  by (auto dest!: bspec)

lemma prev_key_split:
  assumes "\<forall>x\<in>set xs. wc_datasync_key_cmp (fst x) k < 0" "\<forall>y\<in>set ys. \<not> wc_datasync_key_cmp (fst y) k < 0"
  shows "prev_key (xs @ ys) k = (if xs = [] then None else Some (fst (last xs)))"
  using assms by (simp add: prev_key_def filter_empty_conv cong: filter_cong)

lemma child_events_added:
  "k \<notin> fst ` set hs \<Longrightarrow> child_events all ((k, n) # cs) hs =
     insert \<lparr>ev_type = ON_CHILD_ADDED, ev_node = Some n, ev_key = k, ev_prev = prev_key all k\<rparr> (child_events all cs hs)"
  unfolding child_events_def by (auto simp: image_iff; force)

lemma child_events_kept:
  "k \<notin> fst ` set cs \<Longrightarrow> k \<notin> fst ` set hs \<Longrightarrow> child_events all ((k, n) # cs) ((k, h) # hs) =
     (if treenode_hash_eq (tn_digest n) (Some h) then {}
      else {\<lparr>ev_type = ON_CHILD_CHANGED, ev_node = Some n, ev_key = k, ev_prev = prev_key all k\<rparr>}) \<union> child_events all cs hs"
  unfolding child_events_def by (auto simp: image_iff; force)

lemma child_events_removed:
  "k \<notin> fst ` set cs \<Longrightarrow> child_events all cs ((k, h) # hs) =
     insert \<lparr>ev_type = ON_CHILD_REMOVED, ev_node = None, ev_key = k, ev_prev = prev_key all k\<rparr> (child_events all cs hs)"
  unfolding child_events_def by (auto simp: image_iff; force)

lemma child_events_Nil [simp]: "child_events all [] [] = {}"
  by (simp add: child_events_def)

lemma child_events_keys: "e \<in> child_events all cs hs \<Longrightarrow> ev_key e \<in> fst ` set cs \<union> fst ` set hs"
  unfolding child_events_def by force

declare child_loop.simps [simp del]

lemma child_loop_Nil [simp]: "child_loop [] [] prev r = (r, [])"
  by (simp add: child_loop.simps)

definition loop_result :: "(string \<times> treenode) list \<Rightarrow> (string \<times> treenode) list \<Rightarrow> (string \<times> string) list \<Rightarrow> bool \<Rightarrow> bool \<times> child_event list \<Rightarrow> bool" where
  "loop_result all cs hs r res \<longleftrightarrow> fst res = (r \<or> snd res \<noteq> []) \<and> set (snd res) = child_events all cs hs \<and>
     sorted_wrt (\<lambda>a b. wc_datasync_key_cmp (ev_key a) (ev_key b) < 0) (snd res)"

text \<open>An event whose key is below all that is left comes first.\<close>

lemma loop_result_Cons:
  assumes "loop_result all cs hs True res" "child_events all cs' hs' = insert e (child_events all cs hs)"
    "\<forall>x\<in>set cs. wc_datasync_key_cmp (ev_key e) (fst x) < 0" "\<forall>x\<in>set hs. wc_datasync_key_cmp (ev_key e) (fst x) < 0"
  shows "loop_result all cs' hs' r (fst res, e # snd res)"
proof -
  have "wc_datasync_key_cmp (ev_key e) (ev_key x) < 0" if "x \<in> set (snd res)" for x
    using assms(1,3,4) child_events_keys [of x all cs hs] that by (auto simp: loop_result_def)
  then show ?thesis using assms(1,2) by (simp add: loop_result_def)
qed

lemma key_below_all:
  "key_canonical k \<Longrightarrow> sorted_keys (x # xs) \<Longrightarrow> wc_datasync_key_cmp k (fst x) < 0 \<Longrightarrow> \<forall>y\<in>set (x # xs). wc_datasync_key_cmp k (fst y) < 0"
  using key_less_trans [of k "fst x"] by (auto dest: sorted_keys_canonical)

text \<open>The previous key when the loop reaches a key.\<close>

lemma prev_key_reached:
  assumes "sorted_keys (old @ cs)" "key_canonical k" "\<forall>x\<in>set old. wc_datasync_key_cmp (fst x) k < 0"
    "\<forall>y\<in>set cs. fst y = k \<or> wc_datasync_key_cmp k (fst y) < 0"
  shows "prev_key (old @ cs) k = (if old = [] then None else Some (fst (last old)))"
proof (rule prev_key_split [OF assms(3)], rule ballI)
  fix y assume y: "y \<in> set cs"
  then have "key_canonical (fst y)" using assms(1) by (auto dest: sorted_keys_canonical)
  then show "\<not> wc_datasync_key_cmp (fst y) k < 0" using y assms(2,4) key_less_asym [of k "fst y"] by auto
qed

text \<open>What holds when the loop has passed the children \<open>old\<close>.\<close>

definition loop_at ::
    "(string \<times> treenode) list \<Rightarrow> (string \<times> treenode) list \<Rightarrow> (string \<times> string) list \<Rightarrow> string option \<Rightarrow> bool" where
  "loop_at old cs hs prev \<longleftrightarrow> sorted_keys (old @ cs) \<and> sorted_keys hs \<and>
     (\<forall>x\<in>set old. \<forall>y\<in>set hs. wc_datasync_key_cmp (fst x) (fst y) < 0) \<and>
     list_all (\<lambda>(k, n). tn_coherent n) cs \<and> prev = (if old = [] then None else Some (fst (last old)))"

lemma loop_at_prev:
  assumes "loop_at old cs hs prev" "key_canonical k" "\<forall>x\<in>set old. wc_datasync_key_cmp (fst x) k < 0"
    "\<forall>y\<in>set cs. fst y = k \<or> wc_datasync_key_cmp k (fst y) < 0"
  shows "prev_key (old @ cs) k = prev"
  using prev_key_reached [OF _ assms(2-4)] assms(1) by (simp add: loop_at_def)

lemma loop_added:
  assumes at: "loop_at old ((k, n) # cs) hs prev" and cmp: "datasync_key_cmp_null ((k, n) # cs) hs < 0"
    and ih: "loop_at (old @ [(k, n)]) cs hs (Some k) \<Longrightarrow>
      loop_result (old @ (k, n) # cs) cs hs True (child_loop cs hs (Some k) True)"
  shows "loop_result (old @ (k, n) # cs) ((k, n) # cs) hs r (child_loop ((k, n) # cs) hs prev r)"
proof -
  have k: "key_canonical k" "\<forall>x\<in>set old. wc_datasync_key_cmp (fst x) k < 0"
    "\<forall>y\<in>set cs. wc_datasync_key_cmp k (fst y) < 0" using at by (auto simp: loop_at_def)
  have lt: "\<forall>y\<in>set hs. wc_datasync_key_cmp k (fst y) < 0"
  proof (cases hs)
    case (Cons a list)
    then show ?thesis using cmp at key_below_all [OF k(1), of a list] by (simp add: loop_at_def)
  qed simp
  have p: "prev_key (old @ (k, n) # cs) k = prev" using k by (intro loop_at_prev [OF at]) auto
  have "loop_result (old @ (k, n) # cs) cs hs True (child_loop cs hs (Some k) True)"
    using at lt by (intro ih) (auto simp: loop_at_def)
  then have "loop_result (old @ (k, n) # cs) ((k, n) # cs) hs r (fst (child_loop cs hs (Some k) True),
    \<lparr>ev_type = ON_CHILD_ADDED, ev_node = Some n, ev_key = k, ev_prev = prev\<rparr> # snd (child_loop cs hs (Some k) True))"
    using k lt p child_events_added [OF key_less_notin [OF k(1) lt], of "old @ (k, n) # cs" n cs]
    by (intro loop_result_Cons) auto
  then show ?thesis using cmp by (subst child_loop.simps) (simp add: case_prod_beta Let_def)
qed

lemma loop_kept:
  assumes at: "loop_at old ((k, n) # cs) ((k, h) # hs) prev"
    and ih: "\<And>r. loop_at (old @ [(k, n)]) cs hs (Some k) \<Longrightarrow>
      loop_result (old @ (k, n) # cs) cs hs r (child_loop cs hs (Some k) r)"
  shows "loop_result (old @ (k, n) # cs) ((k, n) # cs) ((k, h) # hs) r (child_loop ((k, n) # cs) ((k, h) # hs) prev r)"
proof -
  let ?same = "treenode_hash_eq (node_hash (Some n)) (Some h)"
  have digest: "node_hash (Some n) = tn_digest n" using at hash_get_correct [of n] by (simp add: loop_at_def node_hash_def)
  have k: "key_canonical k" "\<forall>x\<in>set old. wc_datasync_key_cmp (fst x) k < 0"
    "\<forall>y\<in>set cs. wc_datasync_key_cmp k (fst y) < 0" "\<forall>y\<in>set hs. wc_datasync_key_cmp k (fst y) < 0"
    using at by (auto simp: loop_at_def)
  have cmp: "wc_datasync_key_cmp k k = 0" using k(1) dkey.kc_refl [of k] by simp
  have p: "prev_key (old @ (k, n) # cs) k = prev" using k by (intro loop_at_prev [OF at]) auto
  have ih: "loop_result (old @ (k, n) # cs) cs hs r (child_loop cs hs (Some k) r)" for r
    using at k by (intro ih) (auto simp: loop_at_def)
  note ev = child_events_kept [OF key_less_notin [OF k(1,3)] key_less_notin [OF k(1,4)], of "old @ (k, n) # cs" n h]
  show ?thesis
  proof (cases ?same)
    case True
    then have "loop_result (old @ (k, n) # cs) ((k, n) # cs) ((k, h) # hs) r (child_loop cs hs (Some k) r)"
      using ih ev digest by (simp add: loop_result_def)
    then show ?thesis using cmp True by (subst child_loop.simps) (simp add: case_prod_beta Let_def)
  next
    case False
    then have "loop_result (old @ (k, n) # cs) ((k, n) # cs) ((k, h) # hs) r (fst (child_loop cs hs (Some k) True),
      \<lparr>ev_type = ON_CHILD_CHANGED, ev_node = Some n, ev_key = k, ev_prev = prev\<rparr> # snd (child_loop cs hs (Some k) True))"
      using k ev ih p digest by (intro loop_result_Cons) auto
    then show ?thesis using cmp False by (subst child_loop.simps) (simp add: case_prod_beta Let_def)
  qed
qed

lemma loop_removed:
  assumes at: "loop_at old cs ((k, h) # hs) prev" and cmp: "datasync_key_cmp_null cs ((k, h) # hs) > 0"
    and ih: "loop_at old cs hs prev \<Longrightarrow> loop_result (old @ cs) cs hs True (child_loop cs hs prev True)"
  shows "loop_result (old @ cs) cs ((k, h) # hs) r (child_loop cs ((k, h) # hs) prev r)"
proof -
  have k: "key_canonical k" "\<forall>x\<in>set old. wc_datasync_key_cmp (fst x) k < 0"
    "\<forall>y\<in>set hs. wc_datasync_key_cmp k (fst y) < 0" using at by (auto simp: loop_at_def)
  have lt: "\<forall>y\<in>set cs. wc_datasync_key_cmp k (fst y) < 0"
  proof (cases cs)
    case (Cons a list)
    then have "wc_datasync_key_cmp k (fst a) < 0"
      using cmp k(1) at dkey.kc_swap [of k "fst a"] by (auto simp: loop_at_def)
    then show ?thesis using at key_below_all [OF k(1), of a list] Cons by (simp add: loop_at_def)
  qed simp
  have p: "prev_key (old @ cs) k = prev" using k lt by (intro loop_at_prev [OF at]) auto
  have "loop_result (old @ cs) cs hs True (child_loop cs hs prev True)"
    using at by (intro ih) (simp add: loop_at_def)
  then have "loop_result (old @ cs) cs ((k, h) # hs) r (fst (child_loop cs hs prev True),
    \<lparr>ev_type = ON_CHILD_REMOVED, ev_node = None, ev_key = k, ev_prev = prev\<rparr> # snd (child_loop cs hs prev True))"
    using k lt p child_events_removed [OF key_less_notin [OF k(1) lt], of "old @ cs" h hs]
    by (intro loop_result_Cons) auto
  then show ?thesis using cmp by (subst child_loop.simps) (simp add: case_prod_beta Let_def)
qed

lemma child_loop_result: "loop_at old cs hs prev \<Longrightarrow> loop_result (old @ cs) cs hs r (child_loop cs hs prev r)"
proof (induction "length cs + length hs" arbitrary: old cs hs prev r rule: less_induct)
  case less
  consider (stop) "cs = []" "hs = []"
    | (added) k n cs' where "cs = (k, n) # cs'" "datasync_key_cmp_null cs hs < 0"
    | (kept) k n cs' h hs' where "cs = (k, n) # cs'" "hs = (k, h) # hs'"
    | (removed) k h hs' where "hs = (k, h) # hs'" "datasync_key_cmp_null cs hs > 0"
  proof (cases cs; cases hs)
    fix c cs' h hs' assume eq: "cs = c # cs'" "hs = h # hs'"
    have "fst c = fst h" if "datasync_key_cmp_null cs hs = 0"
      using that less.prems eq key_cmp_canonical [of "fst c" "fst h"] by (simp add: loop_at_def)
    then show thesis
      using eq added [of "fst c" "snd c" cs'] kept [of "fst c" "snd c" cs' "snd h" hs'] removed [of "fst h" "snd h" hs']
      by (metis linorder_less_linear prod.collapse)
  qed (use that in auto)
  then show ?case
  proof cases
    case stop
    then show ?thesis by (simp add: loop_result_def)
  next
    case added
    then show ?thesis
      using less.hyps [of cs' hs "old @ [(k, n)]" "Some k"] less.prems by (auto intro!: loop_added)
  next
    case kept
    then show ?thesis
      using less.hyps [of cs' hs' "old @ [(k, n)]" "Some k"] less.prems by (auto intro!: loop_kept)
  next
    case removed
    then show ?thesis
      using less.hyps [of cs hs' old prev] less.prems by (auto intro!: loop_removed)
  qed
qed

section \<open>What a trigger does\<close>

text \<open>Calls that were made and marks that were set; nothing else changes.\<close>

definition ran :: "'a on_ctx_scheme \<Rightarrow> on_call list \<Rightarrow> nat list \<Rightarrow> 'a on_ctx_scheme" where
  "ran ctx cs ds = ctx\<lparr>on_calls := on_calls ctx @ cs, deleted_cb_list := ds @ deleted_cb_list ctx\<rparr>"

lemma ran_ran [simp]: "ran (ran ctx cs ds) cs' ds' = ran ctx (cs @ cs') (ds' @ ds)"
  by (simp add: ran_def)

lemma ran_none [simp]: "ran ctx [] [] = ctx"
  by (simp add: ran_def)

lemma ran_sel [simp]:
  "cache (ran ctx cs ds) = cache ctx" "on_reg (ran ctx cs ds) = on_reg ctx" "on_calls (ran ctx cs ds) = on_calls ctx @ cs"
  "deleted_cb_list (ran ctx cs ds) = ds @ deleted_cb_list ctx" "on_ctx.more (ran ctx cs ds) = on_ctx.more ctx"
  by (simp_all add: ran_def)

text \<open>A step that makes the calls \<open>cs\<close>, and marks nothing when the application keeps every callback.\<close>

definition runs :: "app_on \<Rightarrow> ('a on_ctx_scheme \<Rightarrow> 'a on_ctx_scheme) \<Rightarrow> on_call list \<Rightarrow> bool" where
  "runs app f cs \<longleftrightarrow> (\<forall>ctx. \<exists>ds. f ctx = ran ctx cs ds \<and> ((\<forall>h c. app h c) \<longrightarrow> ds = []))"

lemma runs_fold: "(\<And>x. x \<in> set xs \<Longrightarrow> runs app (f x) (g x)) \<Longrightarrow> runs app (fold f xs) (concat (map g xs))"
proof (induction xs)
  case (Cons x xs)
  have "\<exists>ds. fold f (x # xs) ctx = ran ctx (concat (map g (x # xs))) ds \<and> ((\<forall>h c. app h c) \<longrightarrow> ds = [])" for ctx
  proof -
    obtain d where d: "f x ctx = ran ctx (g x) d" "(\<forall>h c. app h c) \<longrightarrow> d = []"
      using Cons.prems [of x] unfolding runs_def by (meson list.set_intros(1))
    obtain ds where "fold f xs (ran ctx (g x) d) = ran (ran ctx (g x) d) (concat (map g xs)) ds"
      "(\<forall>h c. app h c) \<longrightarrow> ds = []"
      using Cons.IH Cons.prems unfolding runs_def by (meson list.set_intros(2))
    then show ?thesis using d by (intro exI [of _ "ds @ d"]) auto
  qed
  then show ?case unfolding runs_def by blast
qed (auto simp: runs_def intro: exI [of _ "[]"])

definition the_call :: "string \<Rightarrow> string option \<Rightarrow> string option \<Rightarrow> on_cb \<Rightarrow> on_call" where
  "the_call data key prev p_cb = \<lparr>oc_handle = cb_handle p_cb, oc_fn = cb_fn p_cb, oc_data = data, oc_key = key, oc_prev = prev\<rparr>"

lemma runs_call: "runs app (call_or_mark app data key prev p_cb) [the_call data key prev p_cb]"
  unfolding runs_def
proof
  fix ctx :: "'a on_ctx_scheme"
  let ?keep = "app (on_calls ctx) (the_call data key prev p_cb)"
  have "call_or_mark app data key prev p_cb ctx = ran ctx [the_call data key prev p_cb] (if ?keep then [] else [cb_handle p_cb])"
    by (simp add: call_or_mark_def call_cb_def mark_cb_for_deletion_def ran_def the_call_def Let_def)
  then show "\<exists>ds. call_or_mark app data key prev p_cb ctx = ran ctx [the_call data key prev p_cb] ds \<and>
      ((\<forall>h c. app h c) \<longrightarrow> ds = [])" by auto
qed

definition event_calls :: "on_sub \<Rightarrow> child_event \<Rightarrow> on_call list" where
  "event_calls sub e =
     map (the_call (case ev_node e of None \<Rightarrow> ''null'' | Some n \<Rightarrow> treenode_to_json (Some n)) (Some (ev_key e)) (ev_prev e))
       (os_cbs sub (ev_type e))"

lemma runs_calls: "runs app (fold (call_or_mark app data key prev) cbs) (map (the_call data key prev) cbs)"
  using runs_fold [of cbs app "call_or_mark app data key prev" "\<lambda>c. [the_call data key prev c]", OF runs_call] by simp

lemma runs_event: "runs app (fire_child_event app sub e) (event_calls sub e)"
  unfolding fire_child_event_def trigger_on_child_cb_list_def event_calls_def by (rule runs_calls)

interpretation hkey: avl_store compare_internal_hash_data "Collect key_canonical" fst "\<lambda>d. d"
proof
  fix a b assume "a \<in> Collect key_canonical" "b \<in> Collect key_canonical"
  then show "compare_internal_hash_data a b < 0 \<longleftrightarrow> 0 < compare_internal_hash_data b a"
    unfolding compare_internal_hash_data_def by (intro dkey.kc_swap) simp_all
next
  fix a b c assume "a \<in> Collect key_canonical" "b \<in> Collect key_canonical" "c \<in> Collect key_canonical"
    "compare_internal_hash_data a b \<le> 0" "compare_internal_hash_data b c \<le> 0"
  then show "compare_internal_hash_data a c \<le> 0"
    unfolding compare_internal_hash_data_def using dkey.kc_trans [of a b c] by simp
qed simp

abbreviation hashes_wf :: "(string \<times> string) avl \<Rightarrow> bool" where
  "hashes_wf \<equiv> avl_wf compare_internal_hash_data (Collect key_canonical) fst"

lemma sorted_hashes: "hashes_wf t \<Longrightarrow> sorted_keys (avl_elems t)"
  using hkey.wf_elems [of t] by (auto simp: sorted_keys_def compare_internal_hash_data_def list_all_iff)

lemma sorted_children: "children_wf t \<Longrightarrow> sorted_keys (avl_elems t)"
  using tchild.wf_elems [of t] by (auto simp: sorted_keys_def internal_element_key_cmp_def list_all_iff)

lemma refresh_elems:
  assumes "children_wf t"
  shows "avl_elems (refresh_on_child_sub_hashes t) = map (\<lambda>(k, n). (k, hash_or_null (node_hash (Some n)))) (avl_elems t) \<and>
    hashes_wf (refresh_on_child_sub_hashes t)"
proof -
  let ?f = "\<lambda>(k, n). (k, hash_or_null (node_hash (Some n)))"
  have sorted: "sorted_wrt (\<lambda>a b. compare_internal_hash_data (fst a) (fst b) < 0) (avl_elems avl_new @ map ?f (avl_elems t))"
    "fst ` set (map ?f (avl_elems t)) \<subseteq> Collect key_canonical"
    using sorted_children [OF assms]
    by (auto simp: sorted_keys_def sorted_wrt_map compare_internal_hash_data_def list_all_iff case_prod_beta)
  have "refresh_on_child_sub_hashes t =
      fold (\<lambda>e t. snd (avl_insert compare_internal_hash_data fst (\<lambda>d. d) t e)) (map ?f (avl_elems t)) avl_new"
    by (auto simp: refresh_on_child_sub_hashes_def reg_all_elems fold_map intro!: fold_cong)
  then show ?thesis using hkey.elems_rebuild [OF avl_wf_new sorted] by simp
qed

text \<open>The children of what is in the cache.\<close>

definition children_tree :: "treenode option \<Rightarrow> children" where
  "children_tree v = (case v of Some (TN_internal h t) \<Rightarrow> t | _ \<Rightarrow> avl_new)"

lemma children_tree_wf:
  "(\<And>n. v = Some n \<Longrightarrow> tn_good n) \<Longrightarrow> children_wf (children_tree v) \<and> list_all (\<lambda>(k, n). tn_coherent n) (avl_elems (children_tree v))"
  by (auto simp: children_tree_def tn_good_def split: option.splits treenode.splits)

definition sub_events :: "treenode option \<Rightarrow> on_sub \<Rightarrow> child_event list" where
  "sub_events v sub = snd (child_loop (avl_elems (children_tree v)) (avl_elems (os_children_hashes sub)) None False)"

lemma sub_events_loop:
  assumes "hashes_wf (os_children_hashes sub)" "\<And>n. v = Some n \<Longrightarrow> tn_good n"
  shows "child_loop (avl_elems (children_tree v)) (avl_elems (os_children_hashes sub)) None False = (sub_events v sub \<noteq> [], sub_events v sub) \<and>
    set (sub_events v sub) = child_events (avl_elems (children_tree v)) (avl_elems (children_tree v)) (avl_elems (os_children_hashes sub)) \<and>
    sorted_wrt (\<lambda>a b. wc_datasync_key_cmp (ev_key a) (ev_key b) < 0) (sub_events v sub)"
proof -
  have "loop_at [] (avl_elems (children_tree v)) (avl_elems (os_children_hashes sub)) None"
    using assms children_tree_wf [of v] sorted_children sorted_hashes by (simp add: loop_at_def)
  from child_loop_result [OF this, of False] show ?thesis
    unfolding sub_events_def loop_result_def by (auto simp: prod_eq_iff)
qed

lemma sub_events_refreshed:
  assumes "\<And>n. v = Some n \<Longrightarrow> tn_good n" "os_children_hashes sub = refresh_on_child_sub_hashes (children_tree v)"
  shows "sub_events v sub = []"
proof -
  have wf: "children_wf (children_tree v)" "list_all (\<lambda>(k, n). tn_coherent n) (avl_elems (children_tree v))"
    using children_tree_wf [of v] assms(1) by blast+
  have el: "set (avl_elems (os_children_hashes sub)) = (\<lambda>(k, n). (k, hash_or_null (node_hash (Some n)))) ` set_avl (children_tree v)"
    using refresh_elems [OF wf(1)] assms(2) by simp
  have uniq: "n = n'" if "(k, n) \<in> set_avl (children_tree v)" "(k, n') \<in> set_avl (children_tree v)" for k n n'
    using that child_elems [OF wf(1)] by auto
  have eq: "treenode_hash_eq (tn_digest n) (Some (hash_or_null (node_hash (Some n))))"
    if "(k, n) \<in> set_avl (children_tree v)" for k n
    using wf(2) that hash_get_correct [of n]
    by (auto simp: treenode_hash_eq_def treenode_hash_is_null_def hash_or_null_def node_hash_def list_all_iff split: option.splits)
  have "child_events (avl_elems (children_tree v)) (avl_elems (children_tree v)) (avl_elems (os_children_hashes sub)) = {}"
    unfolding child_events_def el using eq uniq by (fastforce simp: image_iff)
  then show ?thesis using sub_events_loop [of sub v] assms refresh_elems [OF wf(1)] by simp
qed

definition value_calls :: "treenode option \<Rightarrow> on_sub \<Rightarrow> on_call list" where
  "value_calls v sub = (if treenode_hash_eq (Option.bind v tn_digest) (Some (os_hash sub)) then []
     else map (the_call (treenode_to_json v) None None) (os_cbs sub ON_VALUE))"

text \<open>The calls that tell the callbacks of a subscription about the value in the cache.\<close>

definition sub_calls :: "treenode option \<Rightarrow> on_sub \<Rightarrow> on_call list" where
  "sub_calls v sub = concat (map (event_calls sub) (sub_events v sub)) @ value_calls v sub"

definition seen :: "data_cache \<Rightarrow> wc_ds_path \<Rightarrow> treenode option" where
  "seen c p = (case data_cache_get_parsed c p of Inl _ \<Rightarrow> None | Inr v \<Rightarrow> v)"

definition on_wf :: "'a on_ctx_scheme \<Rightarrow> bool" where
  "on_wf ctx \<longleftrightarrow> cache_wf (cache ctx) \<and> reg_wf os_path (on_reg ctx) \<and>
     list_all (\<lambda>s. hashes_wf (os_children_hashes s)) (avl_elems (on_reg ctx))"

lemma seen_get:
  assumes "cache_wf c" "path_canon p"
  shows "data_cache_get_parsed c p = Inr (seen c p) \<and> (\<forall>n. seen c p = Some n \<longrightarrow> tn_good n)"
proof -
  obtain root where root: "dc_root c = Some root" "tn_good root" using assms(1) by (rule cache_wfE)
  then show ?thesis
    using get_r_good [OF root(2), of "path_parts p"] assms(2)
    by (simp add: seen_def data_cache_get_parsed_def path_canon_def)
qed

text \<open>The registry with one subscription replaced.\<close>

definition reg_replaced :: "on_sub avl \<Rightarrow> on_sub \<Rightarrow> on_sub \<Rightarrow> on_sub avl \<Rightarrow> bool" where
  "reg_replaced reg sub sub' reg' \<longleftrightarrow> reg_wf os_path reg' \<and> path_parts (os_path sub') = path_parts (os_path sub) \<and>
     avl_elems reg' = map (\<lambda>s. if s = sub then sub' else s) (avl_elems reg)"

lemma replaced_refl: "reg_wf os_path reg \<Longrightarrow> reg_replaced reg sub sub reg"
  by (simp add: reg_replaced_def map_idI)

lemma replaced_modify:
  assumes "reg_wf os_path reg" "sub \<in> set (avl_elems reg)" "\<And>s. os_path (f s) = os_path s"
  shows "reg_replaced reg sub (f sub) (reg_modify os_path f reg (os_path sub))"
proof -
  have canon: "path_canon (os_path sub)" using reg_wf_canon [OF assms(1,2)] .
  have "(if path_parts (os_path s) = path_parts (os_path sub) then f s else s) = (if s = sub then f sub else s)"
    if "s \<in> set (avl_elems reg)" for s
    using reg_elems_unique [OF assms(1) that assms(2)] by auto
  then show ?thesis
    using reg_elems_modify [OF assms(1) canon, of f] reg_wf_modify [OF assms(1) canon, of f] assms(3)
    by (simp add: reg_replaced_def cong: map_cong)
qed

lemma replaced_trans:
  assumes "reg_wf os_path reg" "sub \<in> set (avl_elems reg)" "reg_replaced reg sub sub1 reg1" "reg_replaced reg1 sub1 sub2 reg2"
  shows "reg_replaced reg sub sub2 reg2"
proof -
  have "s = sub" if "s \<in> set (avl_elems reg)" "s = sub1" for s
    using reg_elems_unique [OF assms(1) that(1) assms(2)] assms(3) that(2) by (simp add: reg_replaced_def)
  then show ?thesis using assms(3,4) unfolding reg_replaced_def by (auto intro!: map_cong)
qed

text \<open>A trigger: the calls made, and the subscription as it is left, which has nothing more to tell.\<close>

definition told :: "app_on \<Rightarrow> on_call list \<Rightarrow> on_sub \<Rightarrow> on_sub \<Rightarrow> 'a on_ctx_scheme \<Rightarrow> 'a on_ctx_scheme res \<Rightarrow> bool" where
  "told app cs sub sub' ctx res \<longleftrightarrow> (\<exists>reg' ds. res = Inr ((ran ctx cs ds)\<lparr>on_reg := reg'\<rparr>) \<and>
     ((\<forall>h c. app h c) \<longrightarrow> ds = []) \<and> reg_replaced (on_reg ctx) sub sub' reg' \<and>
     os_cbs sub' = os_cbs sub \<and> os_path sub' = os_path sub \<and> hashes_wf (os_children_hashes sub'))"

text \<open>When the value in the cache has no children the loop over the hashes is the same loop.\<close>

lemma child_loop_gone:
  "child_loop [] hs None r = (r \<or> hs \<noteq> [], map (\<lambda>(k, h). \<lparr>ev_type = ON_CHILD_REMOVED, ev_node = None, ev_key = k, ev_prev = None\<rparr>) hs)"
proof (induction hs arbitrary: r)
  case (Cons h hs)
  then show ?case by (subst child_loop.simps) (simp add: case_prod_beta)
qed simp

lemma fire_removed:
  "fold (fire_child_event app sub) (map (\<lambda>(k, h). \<lparr>ev_type = ON_CHILD_REMOVED, ev_node = None, ev_key = k, ev_prev = None\<rparr>) hs) ctx =
   fold (\<lambda>(key, h). trigger_on_child_cb_list app sub ON_CHILD_REMOVED None key None) hs ctx"
  by (induction hs arbitrary: ctx) (auto simp: fire_child_event_def)

lemma on_child_trig_eq:
  assumes "data_cache_get_parsed (cache ctx) (os_path sub) = Inr v"
    and "child_loop (avl_elems (children_tree v)) (avl_elems (os_children_hashes sub)) None False = (sub_events v sub \<noteq> [], sub_events v sub)"
  shows "on_child_trig app sub ctx = Inr (let c = fold (fire_child_event app sub) (sub_events v sub) ctx
    in if (\<exists>h t. v = Some (TN_internal h t)) \<and> sub_events v sub = [] then c
       else set_children_hashes sub (refresh_on_child_sub_hashes (children_tree v)) c)"
proof (cases "\<exists>h t. v = Some (TN_internal h t)")
  case True
  then show ?thesis using assms by (auto simp: on_child_trig_def children_tree_def reg_all_elems Let_def)
next
  case False
  then have "children_tree v = avl_new" by (auto simp: children_tree_def split: option.splits treenode.splits)
  moreover have "refresh_on_child_sub_hashes avl_new = avl_new"
    by (simp add: refresh_on_child_sub_hashes_def reg_all_elems)
  moreover have "on_child_trig app sub ctx = Inr (set_children_hashes sub avl_new
      (fold (\<lambda>(key, h). trigger_on_child_cb_list app sub ON_CHILD_REMOVED None key None) (avl_elems (os_children_hashes sub)) ctx))"
    using False assms(1) by (auto simp: on_child_trig_def reg_all_elems Let_def split: option.splits treenode.splits)
  ultimately show ?thesis
    using False by (simp add: sub_events_def child_loop_gone fire_removed Let_def)
qed

lemma on_child_trig_told:
  assumes wf: "on_wf ctx" and sub: "sub \<in> set (avl_elems (on_reg ctx))" and v: "v = seen (cache ctx) (os_path sub)"
  shows "\<exists>hs. told app (concat (map (event_calls sub) (sub_events v sub))) sub (sub\<lparr>os_children_hashes := hs\<rparr>) ctx (on_child_trig app sub ctx) \<and>
    sub_events v (sub\<lparr>os_children_hashes := hs\<rparr>) = []"
proof -
  have reg: "reg_wf os_path (on_reg ctx)" and hs: "hashes_wf (os_children_hashes sub)"
    using wf sub by (auto simp: on_wf_def list_all_iff)
  have get: "data_cache_get_parsed (cache ctx) (os_path sub) = Inr v" and good: "\<And>n. v = Some n \<Longrightarrow> tn_good n"
    using seen_get [of "cache ctx" "os_path sub"] wf reg_wf_canon [OF reg sub] v by (auto simp: on_wf_def)
  have cw: "children_wf (children_tree v)" using children_tree_wf [OF good] by blast
  obtain ds where ds: "fold (fire_child_event app sub) (sub_events v sub) ctx =
      ran ctx (concat (map (event_calls sub) (sub_events v sub))) ds" "(\<forall>h c. app h c) \<longrightarrow> ds = []"
    using runs_fold [of "sub_events v sub" app "fire_child_event app sub" "event_calls sub", OF runs_event]
    unfolding runs_def by blast
  let ?c = "ran ctx (concat (map (event_calls sub) (sub_events v sub))) ds"
  let ?set = "\<lambda>hs. told app (concat (map (event_calls sub) (sub_events v sub))) sub (sub\<lparr>os_children_hashes := hs\<rparr>) ctx
      (Inr (set_children_hashes sub hs ?c))"
  have set: "?set hs" if "hashes_wf hs" for hs
    using replaced_modify [OF reg sub, of "\<lambda>s. s\<lparr>os_children_hashes := hs\<rparr>"] ds(2) that
    by (auto simp: told_def set_children_hashes_def)
  have keep: "told app [] sub sub ctx (Inr ctx)"
    using replaced_refl [OF reg] hs unfolding told_def by (intro exI [of _ "on_reg ctx"] exI [of _ "[]"]) simp
  note eq = on_child_trig_eq [OF get conjunct1 [OF sub_events_loop [OF hs good]], of app]
  show ?thesis
  proof (cases "(\<exists>h t. v = Some (TN_internal h t)) \<and> sub_events v sub = []")
    case True
    then have "on_child_trig app sub ctx = Inr ctx" using eq by auto
    then show ?thesis using keep True by (intro exI [of _ "os_children_hashes sub"]) simp
  next
    case False
    then have "on_child_trig app sub ctx = Inr (set_children_hashes sub (refresh_on_child_sub_hashes (children_tree v)) ?c)"
      using eq by (auto simp: Let_def ds(1))
    then show ?thesis
      using set [of "refresh_on_child_sub_hashes (children_tree v)"] refresh_elems [OF cw]
        sub_events_refreshed [OF good, where sub = "sub\<lparr>os_children_hashes := refresh_on_child_sub_hashes (children_tree v)\<rparr>"]
      by (intro exI [of _ "refresh_on_child_sub_hashes (children_tree v)"]) simp
  qed
qed

lemma told_keep:
  assumes "on_wf ctx" "sub \<in> set (avl_elems (on_reg ctx))"
  shows "told app [] sub sub ctx (Inr ctx)"
  unfolding told_def using assms replaced_refl
  by (intro exI [of _ "on_reg ctx"] exI [of _ "[]"]) (auto simp: on_wf_def list_all_iff)

lemma told_wf:
  assumes "on_wf ctx" "sub \<in> set (avl_elems (on_reg ctx))" "told app cs sub sub' ctx (Inr ctx')"
  shows "on_wf ctx' \<and> sub' \<in> set (avl_elems (on_reg ctx')) \<and> cache ctx' = cache ctx"
  using assms by (auto simp: told_def on_wf_def reg_replaced_def list_all_iff image_iff simp del: set_avl_elems)

lemma told_trans:
  assumes wf: "on_wf ctx" "sub \<in> set (avl_elems (on_reg ctx))"
    and t: "told app cs sub sub1 ctx (Inr ctx1)" "told app cs' sub1 sub2 ctx1 res"
  shows "told app (cs @ cs') sub sub2 ctx res"
proof -
  obtain reg1 ds1 where 1: "ctx1 = (ran ctx cs ds1)\<lparr>on_reg := reg1\<rparr>" "(\<forall>h c. app h c) \<longrightarrow> ds1 = []"
    "reg_replaced (on_reg ctx) sub sub1 reg1" "os_cbs sub1 = os_cbs sub" "os_path sub1 = os_path sub"
    using t(1) by (auto simp: told_def)
  obtain reg2 ds2 where 2: "res = Inr ((ran ctx1 cs' ds2)\<lparr>on_reg := reg2\<rparr>)" "(\<forall>h c. app h c) \<longrightarrow> ds2 = []"
    "reg_replaced (on_reg ctx1) sub1 sub2 reg2" "os_cbs sub2 = os_cbs sub1" "os_path sub2 = os_path sub1"
    "hashes_wf (os_children_hashes sub2)"
    using t(2) by (auto simp: told_def)
  have "res = Inr ((ran ctx (cs @ cs') (ds2 @ ds1))\<lparr>on_reg := reg2\<rparr>)" using 1(1) 2(1) by (simp add: ran_def)
  moreover have "reg_replaced (on_reg ctx) sub sub2 reg2"
    by (rule replaced_trans [OF _ wf(2) 1(3)]) (use wf(1) 1(1) 2(3) in \<open>simp_all add: on_wf_def\<close>)
  moreover have "(\<forall>h c. app h c) \<longrightarrow> ds2 @ ds1 = []" using 1(2) 2(2) by simp
  ultimately show ?thesis
    unfolding told_def using 1(4,5) 2(4,5,6) by (intro exI [of _ reg2] exI [of _ "ds2 @ ds1"]) simp
qed

lemma node_hash_digest: "(\<And>n. v = Some n \<Longrightarrow> tn_good n) \<Longrightarrow> node_hash v = Option.bind v tn_digest"
  using hash_get_correct by (cases v) (auto simp: node_hash_def tn_good_def)

lemma hash_eq_or_null [simp]: "treenode_hash_eq h (Some (hash_or_null h))"
  by (simp add: treenode_hash_eq_def treenode_hash_is_null_def hash_or_null_def split: option.split)

lemma on_val_trig_told:
  assumes wf: "on_wf ctx" and sub: "sub \<in> set (avl_elems (on_reg ctx))" and v: "v = seen (cache ctx) (os_path sub)"
  shows "\<exists>h. told app (value_calls v sub) sub (sub\<lparr>os_hash := h\<rparr>) ctx (on_val_trig app sub ctx) \<and>
    value_calls v (sub\<lparr>os_hash := h\<rparr>) = []"
proof -
  have reg: "reg_wf os_path (on_reg ctx)" and hs: "hashes_wf (os_children_hashes sub)"
    using wf sub by (auto simp: on_wf_def list_all_iff)
  have get: "data_cache_get_parsed (cache ctx) (os_path sub) = Inr v" and good: "\<And>n. v = Some n \<Longrightarrow> tn_good n"
    using seen_get [of "cache ctx" "os_path sub"] wf reg_wf_canon [OF reg sub] v by (auto simp: on_wf_def)
  note digest = node_hash_digest [OF good]
  obtain ds where ds: "fold (call_or_mark app (treenode_to_json v) None None) (os_cbs sub ON_VALUE) ctx =
      ran ctx (map (the_call (treenode_to_json v) None None) (os_cbs sub ON_VALUE)) ds" "(\<forall>h c. app h c) \<longrightarrow> ds = []"
    using runs_calls [of app] unfolding runs_def by blast
  show ?thesis
  proof (cases "os_cbs sub ON_VALUE = [] \<or> treenode_hash_eq (node_hash v) (Some (os_hash sub))")
    case True
    then have "on_val_trig app sub ctx = Inr ctx" "value_calls v sub = []"
      using get digest by (auto simp: on_val_trig_def value_calls_def)
    then show ?thesis using told_keep [OF wf sub] by (intro exI [of _ "os_hash sub"]) simp
  next
    case False
    let ?h = "hash_or_null (node_hash v)"
    have "on_val_trig app sub ctx = Inr (set_sub_hash sub ?h (ran ctx (value_calls v sub) ds))"
      using False get digest ds(1) by (simp add: on_val_trig_def value_calls_def Let_def)
    moreover have "told app (value_calls v sub) sub (sub\<lparr>os_hash := ?h\<rparr>) ctx (Inr (set_sub_hash sub ?h (ran ctx (value_calls v sub) ds)))"
      using replaced_modify [OF reg sub, of "\<lambda>s. s\<lparr>os_hash := ?h\<rparr>"] ds(2) hs by (auto simp: told_def set_sub_hash_def)
    moreover have "value_calls v (sub\<lparr>os_hash := ?h\<rparr>) = []" by (simp add: value_calls_def flip: digest)
    ultimately show ?thesis by auto
  qed
qed

lemma no_child_cbs:
  assumes "hashes_wf (os_children_hashes sub)" "\<And>n. v = Some n \<Longrightarrow> tn_good n"
    and cbs: "os_cbs sub ON_CHILD_ADDED = []" "os_cbs sub ON_CHILD_CHANGED = []" "os_cbs sub ON_CHILD_REMOVED = []"
  shows "concat (map (event_calls sub) (sub_events v sub)) = []"
proof -
  have "ev_type e \<noteq> ON_VALUE" if "e \<in> set (sub_events v sub)" for e
    using that sub_events_loop [OF assms(1,2)] by (auto simp: child_events_def)
  then have "os_cbs sub (ev_type e) = []" if "e \<in> set (sub_events v sub)" for e
    using that cbs by (cases "ev_type e") auto
  then show ?thesis by (simp add: event_calls_def)
qed

lemma calls_upd [simp]:
  "event_calls (sub\<lparr>os_hash := h\<rparr>) e = event_calls sub e" "sub_events v (sub\<lparr>os_hash := h\<rparr>) = sub_events v sub"
  "event_calls (sub\<lparr>os_children_hashes := hs\<rparr>) e = event_calls sub e"
  "value_calls v (sub\<lparr>os_children_hashes := hs\<rparr>) = value_calls v sub"
  "on_val_trig app (sub\<lparr>os_children_hashes := hs\<rparr>) ctx = on_val_trig app sub ctx"
  by (simp_all add: event_calls_def sub_events_def value_calls_def on_val_trig_def set_sub_hash_def Let_def cong: if_cong)

lemma on_val_trig_skip: "on_val_trig app sub ctx = (if os_cbs sub ON_VALUE \<noteq> [] then on_val_trig app sub ctx else Inr ctx)"
  by (simp add: on_val_trig_def)

lemma trig_told:
  assumes wf: "on_wf ctx" and sub: "sub \<in> set (avl_elems (on_reg ctx))" and v: "v = seen (cache ctx) (os_path sub)"
  shows "\<exists>sub'. told app (sub_calls v sub) sub sub' ctx (trig app sub ctx) \<and> sub_calls v sub' = []"
proof (cases "os_cbs sub ON_CHILD_ADDED = [] \<and> os_cbs sub ON_CHILD_CHANGED = [] \<and> os_cbs sub ON_CHILD_REMOVED = []")
  case True
  have "\<And>n. v = Some n \<Longrightarrow> tn_good n"
    using seen_get [of "cache ctx" "os_path sub"] wf reg_wf_canon [of os_path "on_reg ctx" sub] sub v by (auto simp: on_wf_def)
  then have none: "concat (map (event_calls sub) (sub_events v sub)) = []"
    using True wf sub by (intro no_child_cbs) (auto simp: on_wf_def list_all_iff)
  obtain h where "told app (value_calls v sub) sub (sub\<lparr>os_hash := h\<rparr>) ctx (on_val_trig app sub ctx)"
    "value_calls v (sub\<lparr>os_hash := h\<rparr>) = []" using on_val_trig_told [OF wf sub v] by blast
  moreover have "trig app sub ctx = on_val_trig app sub ctx"
    using True by (subst on_val_trig_skip) (simp add: trig_def)
  moreover have "sub_calls v sub = value_calls v sub" "sub_calls v (sub\<lparr>os_hash := h\<rparr>) = value_calls v (sub\<lparr>os_hash := h\<rparr>)"
    using none by (simp_all add: sub_calls_def)
  ultimately show ?thesis by metis
next
  case False
  obtain hs where child: "told app (concat (map (event_calls sub) (sub_events v sub))) sub (sub\<lparr>os_children_hashes := hs\<rparr>) ctx (on_child_trig app sub ctx)"
    "sub_events v (sub\<lparr>os_children_hashes := hs\<rparr>) = []" using on_child_trig_told [OF wf sub v] by blast
  then obtain ctx1 where ctx1: "on_child_trig app sub ctx = Inr ctx1" by (auto simp: told_def)
  let ?sub1 = "sub\<lparr>os_children_hashes := hs\<rparr>"
  have wf1: "on_wf ctx1" "?sub1 \<in> set (avl_elems (on_reg ctx1))" "v = seen (cache ctx1) (os_path ?sub1)"
    using told_wf [OF wf sub, of app _ ?sub1 ctx1] child(1) ctx1 v by auto
  obtain h where val: "told app (value_calls v ?sub1) ?sub1 (?sub1\<lparr>os_hash := h\<rparr>) ctx1 (on_val_trig app ?sub1 ctx1)"
    "value_calls v (?sub1\<lparr>os_hash := h\<rparr>) = []" using on_val_trig_told [OF wf1] by blast
  have "trig app sub ctx = on_val_trig app sub ctx1"
    using False ctx1 by (subst on_val_trig_skip) (auto simp: trig_def)
  then have "told app (sub_calls v sub) sub (?sub1\<lparr>os_hash := h\<rparr>) ctx (trig app sub ctx)"
    using told_trans [OF wf sub child(1) [unfolded ctx1] val(1)] by (simp add: sub_calls_def)
  moreover have "sub_calls v (?sub1\<lparr>os_hash := h\<rparr>) = []" using child(2) val(2) by (simp add: sub_calls_def)
  ultimately show ?thesis by metis
qed

section \<open>Which subscriptions a dispatch triggers\<close>

lemma sorted_wrt_unique:
  assumes "sorted_wrt R xs" "sorted_wrt R ys" "set xs = set ys" "\<And>x y. x \<in> set xs \<Longrightarrow> y \<in> set xs \<Longrightarrow> R x y \<Longrightarrow> \<not> R y x"
  shows "xs = ys"
  using assms
proof (induction xs arbitrary: ys)
  case (Cons x xs)
  obtain y ys' where ys: "ys = y # ys'" using Cons.prems(3) by (cases ys) simp_all
  have irr: "\<not> R z z" if "z \<in> set (x # xs)" for z using Cons.prems(4) [OF that that] by blast
  have xy: "x = y"
  proof (rule ccontr)
    assume "x \<noteq> y"
    then have "y \<in> set xs" "x \<in> set ys'" using Cons.prems(3) ys by auto
    then have "R x y" "R y x" using Cons.prems(1,2) ys by simp_all
    then show False using Cons.prems(4) [of x y] \<open>y \<in> set xs\<close> by simp
  qed
  have "x \<notin> set xs" using Cons.prems(1) irr [of x] by auto
  moreover have "x \<notin> set ys'" using Cons.prems(2) irr [of x] ys xy by auto
  ultimately have "set xs = set ys'" using Cons.prems(3) ys xy by auto
  then have "xs = ys'" using Cons.prems(1,2,4) ys by (intro Cons.IH) simp_all
  then show ?case using ys xy by simp
qed simp

lemma sorted_wrt_map_filter:
  assumes "sorted_wrt S us" "\<And>u u' x x'. S u u' \<Longrightarrow> f u = Some x \<Longrightarrow> f u' = Some x' \<Longrightarrow> R x x'"
  shows "sorted_wrt R (List.map_filter f us)"
  using assms(1)
proof (induction us)
  case (Cons u us)
  then show ?case using assms(2) [of u] by (auto simp: map_filter_def)
qed (simp add: map_filter_simps)

lemma replaced_map:
  assumes "reg_wf os_path reg" "sub \<in> set (avl_elems reg)" "reg_replaced reg sub sub' reg'" "ps \<noteq> path_parts (os_path sub)"
  shows "reg_map os_path reg' ps = reg_map os_path reg ps"
proof -
  have "reg_map os_path reg' ps = Some x \<longleftrightarrow> reg_map os_path reg ps = Some x" for x
    using assms reg_map_iff [of os_path reg' ps x] reg_map_iff [of os_path reg ps x]
    by (auto simp: reg_replaced_def image_iff simp del: set_avl_elems)
  then show ?thesis by (metis not_None_eq)
qed

definition above :: "on_sub avl \<Rightarrow> wc_ds_path \<Rightarrow> nat list \<Rightarrow> on_sub list" where
  "above reg p us = List.map_filter (\<lambda>u. reg_map os_path reg (take u (path_parts p))) us"

lemma trig_above_eq:
  assumes "on_wf ctx" "path_canon p" "distinct us" "\<forall>u\<in>set us. u < p_nparts p"
  shows "trig_above app p us ctx = trig_all app (above (on_reg ctx) p us) ctx"
  using assms
proof (induction us arbitrary: ctx)
  case (Cons u us)
  have reg: "reg_wf os_path (on_reg ctx)" using Cons.prems(1) by (simp add: on_wf_def)
  have u: "u \<le> p_nparts p" using Cons.prems(4) by simp
  have get: "reg_get os_path (on_reg ctx) (p\<lparr>p_nparts := u\<rparr>) = reg_map os_path (on_reg ctx) (take u (path_parts p))"
    using reg_get_map [OF reg path_canon_cut [OF Cons.prems(2) u]] path_parts_cut [OF u] by simp
  show ?case
  proof (cases "reg_map os_path (on_reg ctx) (take u (path_parts p))")
    case None
    then show ?thesis using Cons get by (simp add: above_def map_filter_simps)
  next
    case (Some sub)
    then have sub: "sub \<in> set (avl_elems (on_reg ctx))" "path_parts (os_path sub) = take u (path_parts p)"
      using reg_map_iff [OF reg] by auto
    obtain sub' where t: "told app (sub_calls (seen (cache ctx) (os_path sub)) sub) sub sub' ctx (trig app sub ctx)"
      using trig_told [OF Cons.prems(1) sub(1) refl] by blast
    then obtain ctx1 where ctx1: "trig app sub ctx = Inr ctx1" by (auto simp: told_def)
    have rep: "reg_replaced (on_reg ctx) sub sub' (on_reg ctx1)" using t ctx1 by (auto simp: told_def)
    have "take u' (path_parts p) \<noteq> path_parts (os_path sub)" if "u' \<in> set us" for u'
    proof
      assume "take u' (path_parts p) = path_parts (os_path sub)"
      then have "length (take u' (path_parts p)) = length (take u (path_parts p))" using sub(2) by simp
      then show False using that Cons.prems(3,4) by auto
    qed
    then have "above (on_reg ctx1) p us = above (on_reg ctx) p us"
      unfolding above_def using replaced_map [OF reg sub(1) rep] by (simp add: map_filter_def cong: filter_cong map_cong)
    moreover have "trig_above app p us ctx1 = trig_all app (above (on_reg ctx1) p us) ctx1"
      using told_wf [OF Cons.prems(1) sub(1), of app _ sub' ctx1] t ctx1 Cons.prems by (intro Cons.IH) auto
    ultimately show ?thesis using Some get ctx1 by (simp add: above_def map_filter_simps)
  qed
qed (simp add: above_def map_filter_simps)

text \<open>
  The subscriptions \<open>subs\<close> were triggered one after the other: their calls were made in this
  order, and each of them is left (as \<open>f\<close> of it) with nothing more to tell.
\<close>

definition notified :: "app_on \<Rightarrow> on_sub list \<Rightarrow> (on_sub \<Rightarrow> on_sub) \<Rightarrow> 'a on_ctx_scheme \<Rightarrow> 'a on_ctx_scheme \<Rightarrow> bool" where
  "notified app subs f ctx ctx' \<longleftrightarrow> on_wf ctx' \<and> cache ctx' = cache ctx \<and> on_ctx.more ctx' = on_ctx.more ctx \<and>
     on_calls ctx' = on_calls ctx @ concat (map (\<lambda>s. sub_calls (seen (cache ctx) (os_path s)) s) subs) \<and>
     ((\<forall>h c. app h c) \<longrightarrow> deleted_cb_list ctx' = deleted_cb_list ctx) \<and>
     avl_elems (on_reg ctx') = map f (avl_elems (on_reg ctx)) \<and> (\<forall>s. s \<notin> set subs \<longrightarrow> f s = s) \<and>
     (\<forall>s\<in>set subs. os_path (f s) = os_path s \<and> os_cbs (f s) = os_cbs s \<and> sub_calls (seen (cache ctx) (os_path s)) (f s) = [])"

lemma trig_all_notified:
  assumes "on_wf ctx" "set subs \<subseteq> set (avl_elems (on_reg ctx))" "distinct subs"
  shows "\<exists>ctx' f. trig_all app subs ctx = Inr ctx' \<and> notified app subs f ctx ctx'"
  using assms
proof (induction subs arbitrary: ctx)
  case Nil
  then show ?case by (intro exI [of _ ctx] exI [of _ "\<lambda>s. s"]) (simp add: notified_def)
next
  case (Cons sub subs)
  have reg: "reg_wf os_path (on_reg ctx)" using Cons.prems(1) by (simp add: on_wf_def)
  have sub: "sub \<in> set (avl_elems (on_reg ctx))" using Cons.prems(2) by simp
  obtain sub' where t: "told app (sub_calls (seen (cache ctx) (os_path sub)) sub) sub sub' ctx (trig app sub ctx)"
    "sub_calls (seen (cache ctx) (os_path sub)) sub' = []"
    using trig_told [OF Cons.prems(1) sub refl] by blast
  obtain reg1 ds where 1: "trig app sub ctx = Inr ((ran ctx (sub_calls (seen (cache ctx) (os_path sub)) sub) ds)\<lparr>on_reg := reg1\<rparr>)"
    "(\<forall>h c. app h c) \<longrightarrow> ds = []" "reg_replaced (on_reg ctx) sub sub' reg1" "os_cbs sub' = os_cbs sub" "os_path sub' = os_path sub"
    using t(1) by (auto simp: told_def)
  let ?c = "(ran ctx (sub_calls (seen (cache ctx) (os_path sub)) sub) ds)\<lparr>on_reg := reg1\<rparr>"
  have wf1: "on_wf ?c" using told_wf [OF Cons.prems(1) sub, of app _ sub' ?c] t(1) 1(1) by simp
  have el: "avl_elems reg1 = map (\<lambda>s. if s = sub then sub' else s) (avl_elems (on_reg ctx))"
    using 1(3) by (simp add: reg_replaced_def)
  have "set subs \<subseteq> set (avl_elems (on_reg ?c))" using Cons.prems(2,3) el by (auto simp: image_iff simp del: set_avl_elems)
  then obtain ctx' f where IH: "trig_all app subs ?c = Inr ctx'" "notified app subs f ?c ctx'"
    using Cons.IH [OF wf1] Cons.prems(3) by auto
  have "sub' \<notin> set subs"
  proof
    assume "sub' \<in> set subs"
    moreover from this have "sub' = sub" using reg_elems_unique [OF reg _ sub, of sub'] Cons.prems(2) 1(5) by auto
    ultimately show False using Cons.prems(3) by simp
  qed
  then have "f sub' = sub'" using IH(2) by (simp add: notified_def)
  then have "map f (avl_elems reg1) = map (\<lambda>s. if s = sub then sub' else f s) (avl_elems (on_reg ctx))"
    by (simp add: el)
  then have "notified app (sub # subs) (\<lambda>s. if s = sub then sub' else f s) ctx ctx'"
    using IH(2) 1(2,4,5) t(2) Cons.prems(3) unfolding notified_def by auto
  then show ?case using IH(1) 1(1) by auto
qed

lemma notified_path: "notified app subs f ctx ctx' \<Longrightarrow> os_path (f s) = os_path s"
  by (cases "s \<in> set subs") (auto simp: notified_def)

definition related :: "wc_ds_path \<Rightarrow> on_sub \<Rightarrow> bool" where
  "related p s \<longleftrightarrow> prefix (path_parts (os_path s)) (path_parts p) \<or> prefix (path_parts p) (path_parts (os_path s))"

lemma set_map_filter: "set (List.map_filter f xs) = {y. \<exists>x\<in>set xs. f x = Some y}"
  by (force simp: map_filter_def)

lemma set_above:
  assumes "reg_wf os_path reg"
  shows "set (above reg p [0..<p_nparts p]) = {s \<in> set (avl_elems reg). strict_prefix (path_parts (os_path s)) (path_parts p)}"
proof -
  have iff: "strict_prefix qs (path_parts p) \<longleftrightarrow> (\<exists>u<p_nparts p. qs = take u (path_parts p))" for qs
  proof
    assume "strict_prefix qs (path_parts p)"
    then show "\<exists>u<p_nparts p. qs = take u (path_parts p)"
      using prefix_length_less [of qs "path_parts p"] by (auto simp: strict_prefix_def prefix_def intro!: exI [of _ "length qs"])
  next
    assume "\<exists>u<p_nparts p. qs = take u (path_parts p)"
    then show "strict_prefix qs (path_parts p)"
      by (metis length_path_parts length_take min.absorb4 order_less_irrefl strict_prefix_def take_is_prefix)
  qed
  show ?thesis by (auto simp: above_def set_map_filter reg_map_iff [OF assms] iff simp del: set_avl_elems)
qed

lemma sorted_above:
  assumes "reg_wf os_path reg"
  shows "sorted_wrt (\<lambda>x y. wc_datasync_path_cmp (os_path x) (os_path y) < 0) (above reg p [0..<p_nparts p])"
  unfolding above_def
proof (rule sorted_wrt_map_filter [where S = "\<lambda>u u'. u < u' \<and> u' < p_nparts p"])
  show "sorted_wrt (\<lambda>u u'. u < u' \<and> u' < p_nparts p) [0..<p_nparts p]"
    by (auto simp: sorted_wrt_iff_nth_less)
  fix u u' x x' assume u: "u < u' \<and> u' < p_nparts p"
    and "reg_map os_path reg (take u (path_parts p)) = Some x" "reg_map os_path reg (take u' (path_parts p)) = Some x'"
  then have x: "x \<in> set (avl_elems reg)" "path_parts (os_path x) = take u (path_parts p)"
    "x' \<in> set (avl_elems reg)" "path_parts (os_path x') = take u' (path_parts p)"
    using reg_map_iff [OF assms] by auto
  have canon: "path_canon (os_path x)" "path_canon (os_path x')" using reg_wf_canon [OF assms] x by auto
  have "length (take u (path_parts p)) \<noteq> length (take u' (path_parts p))" using u by simp
  then have "path_parts (os_path x) \<noteq> path_parts (os_path x')" using x(2,4) by metis
  moreover have "take u (path_parts p) = take u (take u' (path_parts p))" using u by simp
  then have "prefix (path_parts (os_path x)) (path_parts (os_path x'))" using x(2,4) by (metis take_is_prefix)
  ultimately show "wc_datasync_path_cmp (os_path x) (os_path x') < 0"
    using path_cmp_prefix [OF canon(1)] path_cmp_eq [OF canon] by fastforce
qed

lemma above_below_related:
  assumes "reg_wf os_path reg" "path_canon p"
  shows "above reg p [0..<p_nparts p] @ filter (below os_path p) (avl_elems reg) = filter (related p) (avl_elems reg)"
proof (rule sorted_wrt_unique [where R = "\<lambda>x y. wc_datasync_path_cmp (os_path x) (os_path y) < 0"])
  have less: "wc_datasync_path_cmp (os_path a) (os_path b) < 0"
    if a: "a \<in> set (above reg p [0..<p_nparts p])" and b: "b \<in> set (avl_elems reg)" "below os_path p b" for a b
  proof -
    have a: "a \<in> set (avl_elems reg)" "strict_prefix (path_parts (os_path a)) (path_parts p)"
      using a set_above [OF assms(1), of p] by auto
    then have "path_canon (os_path a)" "path_canon (os_path b)" using reg_wf_canon [OF assms(1)] b by auto
    moreover have "strict_prefix (path_parts (os_path a)) (path_parts (os_path b))"
      using a(2) b(2) unfolding below_def by (rule prefix_order.less_le_trans)
    ultimately show ?thesis
      using path_cmp_prefix [of "os_path a" "os_path b"] path_cmp_eq [of "os_path a" "os_path b"]
      by (force simp: strict_prefix_def)
  qed
  show "sorted_wrt (\<lambda>x y. wc_datasync_path_cmp (os_path x) (os_path y) < 0) (above reg p [0..<p_nparts p] @ filter (below os_path p) (avl_elems reg))"
    using sorted_above [OF assms(1)] sorted_wrt_filter [OF reg_wf_sorted [OF assms(1)]] less by (auto simp: sorted_wrt_append simp del: set_avl_elems)
  show "sorted_wrt (\<lambda>x y. wc_datasync_path_cmp (os_path x) (os_path y) < 0) (filter (related p) (avl_elems reg))"
    using reg_wf_sorted [OF assms(1)] by (rule sorted_wrt_filter)
  show set: "set (above reg p [0..<p_nparts p] @ filter (below os_path p) (avl_elems reg)) = set (filter (related p) (avl_elems reg))"
  proof -
    have "related p s \<longleftrightarrow> strict_prefix (path_parts (os_path s)) (path_parts p) \<or> below os_path p s" for s
      unfolding related_def below_def strict_prefix_def using prefix_order.refl by metis
    then show ?thesis unfolding set_append set_filter set_above [OF assms(1), of p] by blast
  qed
  fix x y assume "x \<in> set (above reg p [0..<p_nparts p] @ filter (below os_path p) (avl_elems reg))"
    "y \<in> set (above reg p [0..<p_nparts p] @ filter (below os_path p) (avl_elems reg))"
  then have "path_canon (os_path x)" "path_canon (os_path y)" unfolding set using reg_wf_canon [OF assms(1)] by auto
  then show "wc_datasync_path_cmp (os_path x) (os_path y) < 0 \<Longrightarrow> \<not> wc_datasync_path_cmp (os_path y) (os_path x) < 0"
    using pcanon.kc_swap [of "os_path x" "os_path y"] by simp
qed

lemma trig_all_append: "trig_all app (xs @ ys) ctx = rbind (trig_all app xs ctx) (trig_all app ys)"
proof (induction xs arbitrary: ctx)
  case (Cons x xs)
  then show ?case by (cases "trig app x ctx") simp_all
qed simp

text \<open>The triggers of a dispatch, before the marked callbacks are removed.\<close>

lemma dispatch_trig_all:
  assumes "on_wf ctx" "path_canon p"
  shows "on_registry_dispatch_on_event_ex E app ctx p =
    rbind (trig_all app (filter (related p) (avl_elems (on_reg ctx))) ctx) (deleted_cb_gc E)"
proof -
  have reg: "reg_wf os_path (on_reg ctx)" using assms(1) by (simp add: on_wf_def)
  let ?A = "above (on_reg ctx) p [0..<p_nparts p]"
  have "set ?A \<subseteq> set (avl_elems (on_reg ctx))" using set_above [OF reg, of p] by auto
  moreover have "distinct ?A"
    using above_below_related [OF reg assms(2)] reg_wf_distinct [OF reg] by (metis distinct_append distinct_filter)
  ultimately obtain ctx1 f where 1: "trig_all app ?A ctx = Inr ctx1" "notified app ?A f ctx ctx1"
    using trig_all_notified [OF assms(1)] by blast
  have reg1: "reg_wf os_path (on_reg ctx1)" using 1(2) by (simp add: notified_def on_wf_def)
  have same: "f s = s" if "below os_path p s" for s
    using that 1(2) set_above [OF reg, of p] by (auto simp: notified_def below_def strict_prefix_def dest: prefix_order.antisym)
  have "filter (below os_path p) (map f xs) = filter (below os_path p) xs" for xs
    using notified_path [OF 1(2)] same by (induction xs) (auto simp: below_def)
  then have "filter (below os_path p) (avl_elems (on_reg ctx1)) = filter (below os_path p) (avl_elems (on_reg ctx))"
    using 1(2) by (simp add: notified_def)
  then have "takeWhile (\<lambda>sub. wc_datasync_path_starts_with (os_path sub) p) (reg_from os_path (on_reg ctx1) p) =
      filter (below os_path p) (avl_elems (on_reg ctx))" using reg_below [OF reg1 assms(2)] by simp
  then show ?thesis
    using trig_above_eq [OF assms, of "[0..<p_nparts p]" app] 1(1)
    by (simp add: on_registry_dispatch_on_event_ex_def trig_all_append flip: above_below_related [OF reg assms(2)])
qed

lemma dispatch_notified:
  fixes ctx :: "'a on_ctx_scheme"
  assumes "on_wf ctx" "path_canon p" "\<And>h c. app h c" "deleted_cb_list ctx = []"
  shows "\<exists>ctx' f. on_registry_dispatch_on_event_ex E app ctx p = Inr ctx' \<and>
    notified app (filter (related p) (avl_elems (on_reg ctx))) f ctx ctx' \<and> deleted_cb_list ctx' = []"
proof -
  let ?rel = "filter (related p) (avl_elems (on_reg ctx))"
  have "distinct ?rel" using assms(1) by (intro distinct_filter reg_wf_distinct [of os_path]) (simp add: on_wf_def)
  then obtain ctx' f where 1: "trig_all app ?rel ctx = Inr ctx'" "notified app ?rel f ctx ctx'"
    using trig_all_notified [OF assms(1), of ?rel app] by auto
  moreover have "deleted_cb_list ctx' = []" using 1(2) assms(3,4) by (simp add: notified_def)
  ultimately show ?thesis using dispatch_trig_all [OF assms(1,2), of E app] by (auto simp: deleted_cb_gc_def)
qed

text \<open>
  Claim C7: a trigger never fails, and calls back exactly what changed since the callbacks of
  the subscription were told last: one event for each child that was added, removed, or whose
  contents have another hash, in the order of keys and with the key of the child before it, for
  the callbacks of that type; then the value for the value callbacks when its hash has changed.
\<close>

theorem trig_tells_changes:
  assumes "on_wf ctx" "sub \<in> set (avl_elems (on_reg ctx))" "data_cache_get_parsed (cache ctx) (os_path sub) = Inr v"
  shows "\<exists>es ctx'. trig app sub ctx = Inr ctx' \<and>
    set es = child_events (avl_elems (children_tree v)) (avl_elems (children_tree v)) (avl_elems (os_children_hashes sub)) \<and>
    sorted_wrt (\<lambda>a b. wc_datasync_key_cmp (ev_key a) (ev_key b) < 0) es \<and>
    on_calls ctx' = on_calls ctx @ concat (map (event_calls sub) es) @ value_calls v sub"
proof -
  have v: "v = seen (cache ctx) (os_path sub)" using assms(3) by (simp add: seen_def)
  have "\<And>n. v = Some n \<Longrightarrow> tn_good n"
    using seen_get [of "cache ctx" "os_path sub"] assms(1,2) reg_wf_canon [of os_path "on_reg ctx" sub] v by (auto simp: on_wf_def)
  moreover have "hashes_wf (os_children_hashes sub)" using assms(1,2) by (auto simp: on_wf_def list_all_iff)
  ultimately have "set (sub_events v sub) = child_events (avl_elems (children_tree v)) (avl_elems (children_tree v)) (avl_elems (os_children_hashes sub))"
    "sorted_wrt (\<lambda>a b. wc_datasync_key_cmp (ev_key a) (ev_key b) < 0) (sub_events v sub)"
    using sub_events_loop [of sub v] by blast+
  moreover obtain ctx' where "trig app sub ctx = Inr ctx'" "on_calls ctx' = on_calls ctx @ sub_calls v sub"
    using trig_told [OF assms(1,2) v, of app] by (auto simp: told_def)
  ultimately show ?thesis unfolding sub_calls_def by blast
qed



text \<open>Witness: a path with two children in the cache, of which one is new and one has changed, and a value callback above.\<close>

definition sub_of :: "string \<Rightarrow> (on_event_type \<Rightarrow> on_cb list) \<Rightarrow> (string \<times> string) avl \<Rightarrow> on_sub" where
  "sub_of path cbs hs = \<lparr>os_cbs = cbs, os_children_hashes = hs, os_hash = null_hash, os_path = wc_datasync_path_new path\<rparr>"

definition sample_sub :: on_sub where
  "sample_sub = sub_of ''/a'' (\<lambda>ty. if ty = ON_CHILD_REMOVED then [] else [\<lparr>cb_handle = event_num ty, cb_fn = 7\<rparr>])
     (snd (avl_insert compare_internal_hash_data fst (\<lambda>d. d) avl_new (''x'', ''old'')))"

definition children_of :: "(string \<times> treenode) list \<Rightarrow> children" where
  "children_of cs = fold (\<lambda>c t. snd (avl_insert internal_element_key_cmp fst internal_element_copy t c)) cs avl_new"

definition sample_children :: children where
  "sample_children = children_of [(''x'', TN_bool True), (''y'', TN_bool False)]"

definition sample_sub_ctx :: on_ctx where
  "sample_sub_ctx = sample_on_ctx\<lparr>on_reg := reg_insert os_path avl_new sample_sub,
     cache := \<lparr>dc_root = Some (TN_internal None (children_of [(''a'', TN_internal None sample_children)]))\<rparr>\<rparr>"

lemma children_of_wf:
  assumes "list_all (\<lambda>c. key_canonical (fst c)) cs"
  shows "children_wf (children_of cs)"
proof -
  have "children_wf (fold (\<lambda>c t. snd (avl_insert internal_element_key_cmp fst internal_element_copy t c)) cs t)"
    if "children_wf t" for t
    using assms that by (induction cs arbitrary: t) (auto intro!: tchild.wf_insert)
  then show ?thesis by (simp add: children_of_def)
qed

lemma sample_sub_ctx_elems:
  "avl_elems (on_reg sample_sub_ctx) = [sample_sub]" "avl_elems sample_children = [(''x'', TN_bool True), (''y'', TN_bool False)]"
  "avl_elems (children_of [(''a'', TN_internal None sample_children)]) = [(''a'', TN_internal None sample_children)]"
  "avl_elems (os_children_hashes sample_sub) = [(''x'', ''old'')]"
  by code_simp+

lemma sample_sub_ctx_wf: "on_wf sample_sub_ctx"
proof -
  have keys: "key_canonical ''a''" "key_canonical ''x''" "key_canonical ''y''" by code_simp+
  then have "children_wf sample_children" "children_wf (children_of [(''a'', TN_internal None sample_children)])"
    by (simp_all add: sample_children_def children_of_wf)
  then have "cache_wf (cache sample_sub_ctx)" by (simp add: cache_wf_def sample_sub_ctx_def sample_sub_ctx_elems)
  moreover have "path_canon (os_path sample_sub)" by code_simp
  then have "reg_wf os_path (on_reg sample_sub_ctx)"
    using reg_wf_insert [of os_path avl_new sample_sub] by (simp add: sample_sub_ctx_def)
  moreover have "hashes_wf (os_children_hashes sample_sub)"
    using hkey.wf_insert [of avl_new "(''x'', ''old'')"] keys by (simp add: sample_sub_def sub_of_def)
  ultimately show ?thesis by (simp add: on_wf_def sample_sub_ctx_elems)
qed

theorem trig_tells_changes_witness:
  "\<exists>es ctx'. trig (\<lambda>_ _. True) sample_sub sample_sub_ctx = Inr ctx' \<and> ev_key ` set es = {''x'', ''y''} \<and>
     on_calls ctx' = on_calls sample_sub_ctx @ concat (map (event_calls sample_sub) es) @
       value_calls (Some (TN_internal None sample_children)) sample_sub"
proof -
  have in_reg: "sample_sub \<in> set (avl_elems (on_reg sample_sub_ctx))" by (simp only: sample_sub_ctx_elems) simp
  have get: "data_cache_get_parsed (cache sample_sub_ctx) (os_path sample_sub) = Inr (Some (TN_internal None sample_children))"
    by code_simp
  have "treenode_hash_eq (tn_digest (TN_bool True)) (Some ''old'') = False" by code_simp
  then have "ev_key ` child_events [(''x'', TN_bool True), (''y'', TN_bool False)] [(''x'', TN_bool True), (''y'', TN_bool False)] [(''x'', ''old'')] = {''x'', ''y''}"
    by (simp add: child_events_kept child_events_added insert_commute)
  moreover have ct: "avl_elems (children_tree (Some (TN_internal None sample_children))) = [(''x'', TN_bool True), (''y'', TN_bool False)]"
    by (simp add: children_tree_def sample_sub_ctx_elems)
  moreover obtain es ctx' where 1: "trig (\<lambda>_ _. True) sample_sub sample_sub_ctx = Inr ctx'"
    "set es = child_events (avl_elems (children_tree (Some (TN_internal None sample_children))))
       (avl_elems (children_tree (Some (TN_internal None sample_children)))) (avl_elems (os_children_hashes sample_sub))"
    "on_calls ctx' = on_calls sample_sub_ctx @ concat (map (event_calls sample_sub) es) @
       value_calls (Some (TN_internal None sample_children)) sample_sub"
    using trig_tells_changes [OF sample_sub_ctx_wf in_reg get, of "\<lambda>_ _. True"] by blast
  ultimately have "ev_key ` set es = {''x'', ''y''}" by (simp only: 1(2) ct sample_sub_ctx_elems)
  then show ?thesis using 1(1,3) by blast
qed



text \<open>
  A removal callback that is registered for a path whose children are already in the cache is
  not told the first removal: the hashes of the children are only remembered when a callback
  for additions is registered or an event is dispatched.
\<close>

lemma late_removal_callback_misses:
  "rbind (set_cache ''/a'' (JObject [(''x'', JBool True), (''y'', JBool False)]) sample_on_ctx) (\<lambda>ctx.
   rbind (wc_datasync_on_child_removed sample_env (\<lambda>_ _. True) ctx ''/a'' 1) (\<lambda>(h, ctx).
   rbind (set_cache ''/a/x'' JNull ctx) (\<lambda>ctx.
   rbind (on_registry_dispatch_on_event sample_env (\<lambda>_ _. True) ctx ''/a/x'') (\<lambda>ctx. Inr (on_calls ctx))))) = Inr []"
  by code_simp

end
