(* ===== verification/Auth.thy ===== *)
theory Auth
  imports Request
begin

text \<open>
  The authentication service (\<^verbatim>\<open>lib/auth/auth.c\<close>): the sign-in request to the server
  and the parsing of its answer, and the events of the library
  (\<^verbatim>\<open>webcom-base.h\<close>), which the authentication and datasync services share.

  The functions take the state of the service and the list of the events passed to the
  application so far, and return both. cURL is a parameter: what it calls back when it is
  driven, as a list of calls; a timer of delay 0 makes the library drive cURL again, and
  what is called back then is nested in the call. Running out of memory, the debug output of
  cURL and the log are left out.
\<close>

section \<open>Events\<close>

datatype wc_pollsrc = WC_POLL_DATASYNC | WC_POLL_AUTH

datatype wc_timersrc = WC_TIMER_DATASYNC_KEEPALIVE | WC_TIMER_DATASYNC_RECONNECT | WC_TIMER_AUTH

record wc_pollargs =
  pa_fd :: int
  pa_events :: int
  pa_src :: wc_pollsrc

record wc_timerargs =
  ta_ms :: int
  ta_timer :: wc_timersrc
  ta_repeat :: bool

text \<open>
  What a \<^verbatim>\<open>char *\<close> of the reply points to: nothing, a copy on the heap, a constant
  string of a library; or it was never set.
\<close>

datatype c_pointer = Null | Heap string | Constant string | Unset

record wc_auth_info =
  ai_token :: c_pointer
  ai_expires :: "64 word option"
  ai_provider_uid :: c_pointer
  ai_uid :: c_pointer
  ai_error :: c_pointer
  ai_provider :: c_pointer
  ai_provider_profile :: c_pointer

text \<open>
  The events of the application's callback with their data. The results of requests that the
  application sent are events as well (\<open>Req_result\<close>): its callback, the request and the answer.
\<close>

datatype wc_event =
    WC_EVENT_ADD_FD wc_pollargs
  | WC_EVENT_DEL_FD wc_pollargs
  | WC_EVENT_MODIFY_FD wc_pollargs
  | WC_EVENT_SET_TIMER wc_timerargs
  | WC_EVENT_DEL_TIMER wc_timersrc
  | WC_EVENT_ON_CNX_CLOSED
  | WC_EVENT_ON_SERVER_HANDSHAKE wc_msg
  | WC_EVENT_ON_MSG_RECEIVED wc_msg
  | WC_EVENT_ON_CNX_ERROR string
  | WC_AUTH_ON_AUTH_REPLY wc_auth_info
  | Req_result nat "64 word" wc_action_type wc_req_pending_result string string nat

section \<open>State\<close>

text \<open>
  The pointers to the tokener and to the transfer: null, to a live object, or to one that
  was released. A transfer is its URL and its form data.
\<close>

datatype 'tok tokener_ptr = No_tokener | Tokener 'tok | Freed_tokener

datatype curl_ptr = No_curl | Curl string string | Freed_curl

text \<open>\<open>curl_added\<close> records the transfers handed to cURL.\<close>

record 'tok auth_ctx =
  auth_url :: "string option"
  auth_curl_handle :: curl_ptr
  auth_curl_multi :: bool
  auth_parser :: "'tok tokener_ptr"
  auth_form_data :: "string option"
  curl_added :: "(string \<times> string) list"

definition zero_auth :: "'tok auth_ctx" where
  "zero_auth = \<lparr>auth_url = None, auth_curl_handle = No_curl, auth_curl_multi = False, auth_parser = No_tokener,
     auth_form_data = None, curl_added = []\<rparr>"

type_synonym 'tok auth_state = "'tok auth_ctx \<times> wc_event list"

datatype curl_what = CURL_POLL_NONE | CURL_POLL_IN | CURL_POLL_OUT | CURL_POLL_INOUT | CURL_POLL_REMOVE

text \<open>
  A call of cURL to the library: data received, a socket to watch (with whether a pointer was
  assigned to it), a timer to set with, for a delay of 0, what cURL calls while the library
  drives it again.
\<close>

datatype curl_call = Curl_write string | Curl_sock int curl_what bool | Curl_timer int "curl_call list"

text \<open>
  The libraries: the tokener, the printer, and cURL: what it calls back when a transfer is
  added, when it is driven for a descriptor (with the number of transfers still running), when
  a transfer is removed; its URL encoding; and the value of \<^verbatim>\<open>events\<close> that nobody set.
\<close>

record 'tok auth_env =
  env_parse_ex :: "'tok \<Rightarrow> string \<Rightarrow> tok_result \<times> 'tok"
  env_tok_new :: 'tok
  env_json_plain :: "json \<Rightarrow> string"
  curl_add :: "'tok auth_ctx \<Rightarrow> curl_call list"
  curl_action :: "'tok auth_ctx \<Rightarrow> int \<Rightarrow> curl_call list \<times> nat"
  curl_remove :: "'tok auth_ctx \<Rightarrow> curl_call list"
  curl_easy_escape :: "string \<Rightarrow> string"
  curl_garbage :: int

definition POLLIN :: int where "POLLIN = 1"

definition POLLOUT :: int where "POLLOUT = 4"

section \<open>The answer of the server\<close>

definition zero_info :: wc_auth_info where
  "zero_info = \<lparr>ai_token = Null, ai_expires = Some 0, ai_provider_uid = Null, ai_uid = Null, ai_error = Null,
     ai_provider = Null, ai_provider_profile = Null\<rparr>"

definition unset_info :: wc_auth_info where
  "unset_info = \<lparr>ai_token = Unset, ai_expires = None, ai_provider_uid = Unset, ai_uid = Unset, ai_error = Unset,
     ai_provider = Unset, ai_provider_profile = Unset\<rparr>"

definition auth_strdup :: "string \<Rightarrow> c_pointer" where
  "auth_strdup s = Heap (c_str s 0)"

definition user_string :: "json \<Rightarrow> string \<Rightarrow> (c_pointer \<Rightarrow> wc_auth_info \<Rightarrow> wc_auth_info) \<Rightarrow> wc_auth_info \<Rightarrow> wc_auth_info" where
  "user_string user key set_field pai =
     (case object_get_ex user key of Some (JString s) \<Rightarrow> set_field (auth_strdup s) pai | _ \<Rightarrow> pai)"

definition user_expires :: "json \<Rightarrow> wc_auth_info \<Rightarrow> wc_auth_info" where
  "user_expires user pai =
     (case object_get_ex user ''expires'' of Some (JInt i) \<Rightarrow> pai\<lparr>ai_expires := Some (word_of_int i)\<rparr> | _ \<Rightarrow> pai)"

definition user_profile :: "(json \<Rightarrow> string) \<Rightarrow> json \<Rightarrow> wc_auth_info \<Rightarrow> wc_auth_info" where
  "user_profile plain user pai = (case object_get_ex user ''providerProfile'' of
      Some (JObject ms) \<Rightarrow> pai\<lparr>ai_provider_profile := auth_strdup (plain (JObject ms))\<rparr>
    | _ \<Rightarrow> pai)"

definition parse_user :: "(json \<Rightarrow> string) \<Rightarrow> json \<Rightarrow> wc_auth_info \<Rightarrow> wc_auth_info" where
  "parse_user plain user pai =
     (let pai = user_expires user pai;
          pai = user_string user ''providerUid'' (\<lambda>p. ai_provider_uid_update (\<lambda>_. p)) pai;
          pai = user_string user ''uid'' (\<lambda>p. ai_uid_update (\<lambda>_. p)) pai;
          pai = user_string user ''provider'' (\<lambda>p. ai_provider_update (\<lambda>_. p)) pai
      in user_profile plain user pai)"

definition error_message :: "json \<Rightarrow> string" where
  "error_message root = (case object_get_ex root ''error'' of
      Some (JObject ms) \<Rightarrow> (case object_get_ex (JObject ms) ''message'' of Some (JString s) \<Rightarrow> s | _ \<Rightarrow> ''authentication failure'')
    | _ \<Rightarrow> ''authentication failure'')"

definition wc_auth_parse_json :: "(json \<Rightarrow> string) \<Rightarrow> json \<Rightarrow> wc_auth_info \<Rightarrow> wc_auth_info" where
  "wc_auth_parse_json plain root pai =
     (if object_get_ex root ''success'' = Some (JBool False)
      then pai\<lparr>ai_error := auth_strdup (error_message root)\<rparr>
      else case object_get_ex root ''token'' of
        Some (JString s) \<Rightarrow>
          let pai = pai\<lparr>ai_token := auth_strdup s\<rparr>
          in (case object_get_ex root ''user'' of Some (JObject ms) \<Rightarrow> parse_user plain (JObject ms) pai | _ \<Rightarrow> pai)
      | _ \<Rightarrow> pai\<lparr>ai_error := auth_strdup ''invalid server response''\<rparr>)"

text \<open>\<^verbatim>\<open>FREE_IF_NOT_NULL\<close>: only a copy on the heap can be released.\<close>

fun free_if_not_null :: "c_pointer \<Rightarrow> unit res" where
  "free_if_not_null Null = Inr ()"
| "free_if_not_null (Heap s) = Inr ()"
| "free_if_not_null (Constant s) = Inl InvalidFree"
| "free_if_not_null Unset = Inl Uninitialised"

definition wc_auth_cleanup_info :: "wc_auth_info \<Rightarrow> unit res" where
  "wc_auth_cleanup_info pai =
     rbind (free_if_not_null (ai_error pai)) (\<lambda>_. rbind (free_if_not_null (ai_provider_uid pai)) (\<lambda>_.
     rbind (free_if_not_null (ai_uid pai)) (\<lambda>_. rbind (free_if_not_null (ai_token pai)) (\<lambda>_.
     rbind (free_if_not_null (ai_provider pai)) (\<lambda>_. free_if_not_null (ai_provider_profile pai))))))"

definition wc_auth_parse_body ::
    "('tok, 'z) auth_env_scheme \<Rightarrow> 'tok auth_ctx \<Rightarrow> string \<Rightarrow> wc_auth_info \<Rightarrow> (int \<times> 'tok auth_ctx \<times> wc_auth_info) res" where
  "wc_auth_parse_body E ctx data pai =
     (let ctx = (if auth_parser ctx = No_tokener then ctx\<lparr>auth_parser := Tokener (env_tok_new E)\<rparr> else ctx)
      in case auth_parser ctx of
           Tokener tok \<Rightarrow>
             let (jte, tok) = env_parse_ex E tok data; ctx = ctx\<lparr>auth_parser := Tokener tok\<rparr>
             in (case jte of
                   Tok_success jroot \<Rightarrow>
                     Inr (1, ctx\<lparr>auth_parser := Freed_tokener\<rparr>, wc_auth_parse_json (env_json_plain E) jroot zero_info)
                 | Tok_continue \<Rightarrow> Inr (0, ctx, pai)
                 | Tok_error desc \<Rightarrow> Inr (-1, ctx, pai\<lparr>ai_error := Constant desc\<rparr>))
         | _ \<Rightarrow> Inl UseAfterFree)"

section \<open>The callbacks of cURL\<close>

definition curl_write_cb :: "('tok, 'z) auth_env_scheme \<Rightarrow> string \<Rightarrow> 'tok auth_state \<Rightarrow> (nat \<times> 'tok auth_state) res" where
  "curl_write_cb E data st = (case st of (ctx, evs) \<Rightarrow>
     rbind (wc_auth_parse_body E ctx data unset_info) (\<lambda>(r, ctx, ai).
       if r \<noteq> 0
       then rbind (wc_auth_cleanup_info ai) (\<lambda>_. Inr (length data, (ctx, evs @ [WC_AUTH_ON_AUTH_REPLY ai])))
       else Inr (length data, (ctx, evs))))"

definition curl_sock_cb :: "('tok, 'z) auth_env_scheme \<Rightarrow> int \<Rightarrow> curl_what \<Rightarrow> bool \<Rightarrow> 'tok auth_state \<Rightarrow> 'tok auth_state" where
  "curl_sock_cb E s what sockp st = (case st of (ctx, evs) \<Rightarrow>
     let event = (if sockp then WC_EVENT_MODIFY_FD else WC_EVENT_ADD_FD);
         wcpa = \<lambda>ev. \<lparr>pa_fd = s, pa_events = ev, pa_src = WC_POLL_AUTH\<rparr>
     in case what of
          CURL_POLL_IN \<Rightarrow> (ctx, evs @ [event (wcpa POLLIN)])
        | CURL_POLL_OUT \<Rightarrow> (ctx, evs @ [event (wcpa POLLOUT)])
        | CURL_POLL_INOUT \<Rightarrow> (ctx, evs @ [event (wcpa (POLLIN OR POLLOUT))])
        | CURL_POLL_REMOVE \<Rightarrow> (ctx, evs @ [WC_EVENT_DEL_FD (wcpa (curl_garbage E))])
        | CURL_POLL_NONE \<Rightarrow> (ctx, evs))"

text \<open>
  \<open>curl_call\<close> dispatches a call of cURL to the library's callback; its timer branch is
  \<^verbatim>\<open>curl_timer_cb\<close>.
\<close>

fun curl_callback :: "('tok, 'z) auth_env_scheme \<Rightarrow> curl_call \<Rightarrow> 'tok auth_state \<Rightarrow> 'tok auth_state res"
and curl_callbacks :: "('tok, 'z) auth_env_scheme \<Rightarrow> curl_call list \<Rightarrow> 'tok auth_state \<Rightarrow> 'tok auth_state res" where
  "curl_callback E (Curl_write data) st = rbind (curl_write_cb E data st) (\<lambda>(n, st). Inr st)"
| "curl_callback E (Curl_sock s what sockp) st = Inr (curl_sock_cb E s what sockp st)"
| "curl_callback E (Curl_timer timeout_ms nested) st =
     (if timeout_ms = 0 then curl_callbacks E nested st
      else if timeout_ms > 0
      then Inr (fst st, snd st @ [WC_EVENT_SET_TIMER \<lparr>ta_ms = timeout_ms, ta_timer = WC_TIMER_AUTH, ta_repeat = False\<rparr>])
      else if timeout_ms = -1 then Inr (fst st, snd st @ [WC_EVENT_DEL_TIMER WC_TIMER_AUTH])
      else Inr st)"
| "curl_callbacks E [] st = Inr st"
| "curl_callbacks E (c # cs) st = rbind (curl_callback E c st) (curl_callbacks E cs)"

section \<open>Interface\<close>

definition WEBCOM_AUTH_API_PATH_BEGIN :: string where "WEBCOM_AUTH_API_PATH_BEGIN = ''auth/v2/''"

definition WEBCOM_AUTH_API_PATH_END :: string where "WEBCOM_AUTH_API_PATH_END = ''/password/signin''"

text \<open>What \<^verbatim>\<open>snprintf\<close> leaves in a buffer of \<open>sz\<close> bytes.\<close>

definition snprintf :: "nat \<Rightarrow> string \<Rightarrow> string" where
  "snprintf sz s = take (sz - 1) s"

definition auth_url_text :: "string \<Rightarrow> 16 word \<Rightarrow> string \<Rightarrow> string" where
  "auth_url_text host port app =
     ''https://'' @ host @ '':'' @ dec_int (uint port) @ ''/'' @ WEBCOM_AUTH_API_PATH_BEGIN @ app @ WEBCOM_AUTH_API_PATH_END"

definition auth_multi_init :: "string \<Rightarrow> 16 word \<Rightarrow> string \<Rightarrow> 'tok auth_ctx \<Rightarrow> 'tok auth_ctx" where
  "auth_multi_init host port app ctx =
     (if \<not> auth_curl_multi ctx
      then let api_path_l = 8 + length host + 7 + length WEBCOM_AUTH_API_PATH_BEGIN + length app + length WEBCOM_AUTH_API_PATH_END + 1
           in ctx\<lparr>auth_curl_multi := True, auth_url := Some (snprintf api_path_l (auth_url_text host port app))\<rparr>
      else ctx)"

definition auth_form_text :: "('tok, 'z) auth_env_scheme \<Rightarrow> string \<Rightarrow> string \<Rightarrow> string" where
  "auth_form_text E email password = ''email='' @ curl_easy_escape E email @ ''&password='' @ curl_easy_escape E password"

definition wc_auth_with_password ::
    "('tok, 'z) auth_env_scheme \<Rightarrow> string \<Rightarrow> 16 word \<Rightarrow> string \<Rightarrow> string \<Rightarrow> string \<Rightarrow> 'tok auth_state \<Rightarrow> (int \<times> 'tok auth_state) res" where
  "wc_auth_with_password E host port app email password st = (case st of (ctx, evs) \<Rightarrow>
     if auth_curl_handle ctx \<noteq> No_curl then Inr (0, st)
     else if auth_parser ctx = Freed_tokener then Inl UseAfterFree
     else
       let ctx = auth_multi_init host port app (ctx\<lparr>auth_parser := No_tokener\<rparr>);
           form_data = auth_form_text E email password;
           url = (case auth_url ctx of None \<Rightarrow> [] | Some u \<Rightarrow> u);
           ctx = ctx\<lparr>auth_form_data := Some form_data, auth_curl_handle := Curl url form_data,
                     curl_added := curl_added ctx @ [(url, form_data)]\<rparr>
       in rbind (curl_callbacks E (curl_add E ctx) (ctx, evs)) (\<lambda>st. Inr (1, st)))"

definition curl_end :: "('tok, 'z) auth_env_scheme \<Rightarrow> 'tok auth_state \<Rightarrow> 'tok auth_state res" where
  "curl_end E st = (case auth_curl_handle (fst st) of
      No_curl \<Rightarrow> Inr st
    | Freed_curl \<Rightarrow> Inl UseAfterFree
    | Curl u f \<Rightarrow> rbind (curl_callbacks E (curl_remove E (fst st)) st) (\<lambda>(ctx, evs). Inr (ctx\<lparr>auth_curl_handle := Freed_curl\<rparr>, evs)))"

definition wc_auth_service :: "('tok, 'z) auth_env_scheme \<Rightarrow> int \<Rightarrow> 'tok auth_state \<Rightarrow> 'tok auth_state res" where
  "wc_auth_service E fd st =
     (if \<not> auth_curl_multi (fst st) then Inl Uninitialised
      else let (calls, curl_still_running) = curl_action E (fst st) fd
           in rbind (curl_callbacks E calls st) (\<lambda>st. if curl_still_running = 0 then curl_end E st else Inr st))"

section \<open>What the callbacks leave alone\<close>

text \<open>The events of this service.\<close>

fun auth_event :: "wc_event \<Rightarrow> bool" where
  "auth_event (WC_EVENT_ADD_FD pa) = (pa_src pa = WC_POLL_AUTH)"
| "auth_event (WC_EVENT_DEL_FD pa) = (pa_src pa = WC_POLL_AUTH)"
| "auth_event (WC_EVENT_MODIFY_FD pa) = (pa_src pa = WC_POLL_AUTH)"
| "auth_event (WC_EVENT_SET_TIMER ta) = (ta_timer ta = WC_TIMER_AUTH)"
| "auth_event (WC_EVENT_DEL_TIMER t) = (t = WC_TIMER_AUTH)"
| "auth_event (WC_AUTH_ON_AUTH_REPLY ai) = True"
| "auth_event _ = False"

text \<open>A call that cURL makes adds events of this service and changes only the tokener.\<close>

definition auth_keeps :: "'tok auth_state \<Rightarrow> 'tok auth_state \<Rightarrow> bool" where
  "auth_keeps st st' \<longleftrightarrow> (\<exists>p evs. st' = ((fst st)\<lparr>auth_parser := p\<rparr>, snd st @ evs) \<and> list_all auth_event evs)"

lemma auth_keeps_refl [intro, simp]: "auth_keeps st st"
proof -
  have "st = ((fst st)\<lparr>auth_parser := auth_parser (fst st)\<rparr>, snd st @ [])" by simp
  then show ?thesis unfolding auth_keeps_def by (metis list.pred_inject(1))
qed

lemma auth_keeps_event [intro]: "auth_event ev \<Longrightarrow> auth_keeps (ctx, evs) (ctx\<lparr>auth_parser := p\<rparr>, evs @ [ev])"
  by (auto simp: auth_keeps_def)

lemma auth_keeps_emit [intro]: "auth_event ev \<Longrightarrow> auth_keeps (ctx, evs) (ctx, evs @ [ev])"
  using auth_keeps_event [of ev ctx evs "auth_parser ctx"] by simp

lemma auth_keeps_trans [trans]: "auth_keeps a b \<Longrightarrow> auth_keeps b c \<Longrightarrow> auth_keeps a c"
  by (fastforce simp: auth_keeps_def)

lemma auth_keeps_D:
  assumes "auth_keeps st st'"
  shows "auth_curl_handle (fst st') = auth_curl_handle (fst st)" "curl_added (fst st') = curl_added (fst st)"
    "auth_curl_multi (fst st') = auth_curl_multi (fst st)" "\<exists>evs. snd st' = snd st @ evs \<and> list_all auth_event evs"
  using assms by (auto simp: auth_keeps_def)

lemma write_keeps: "curl_write_cb E data st = Inr (n, st') \<Longrightarrow> auth_keeps st st'"
proof -
  obtain ctx evs where st: "st = (ctx, evs)" by (cases st)
  have parser: "\<exists>p. ctx' = ctx\<lparr>auth_parser := p\<rparr>" if "wc_auth_parse_body E ctx data pai = Inr (r, ctx', ai)" for pai r ctx' ai
    using that by (auto simp: wc_auth_parse_body_def Let_def split: if_splits tokener_ptr.splits prod.splits tok_result.splits)
  assume "curl_write_cb E data st = Inr (n, st')"
  then obtain r ctx' ai where c: "wc_auth_parse_body E ctx data unset_info = Inr (r, ctx', ai)"
    and st': "st' = (ctx', evs @ (if r \<noteq> 0 then [WC_AUTH_ON_AUTH_REPLY ai] else []))"
    by (fastforce simp: st curl_write_cb_def rbind_eq_Inr_iff split: if_splits)
  obtain p where "ctx' = ctx\<lparr>auth_parser := p\<rparr>" using parser [OF c] by blast
  then show ?thesis by (simp add: st st' auth_keeps_def) (metis list.pred_inject auth_event.simps(6))
qed

lemma sock_keeps: "auth_keeps st (curl_sock_cb E s what sockp st)"
  by (cases st) (auto simp: curl_sock_cb_def Let_def split: curl_what.split)

lemma callbacks_keep:
  "curl_callback E c st = Inr st' \<Longrightarrow> auth_keeps st st'"
  "curl_callbacks E cs st = Inr st' \<Longrightarrow> auth_keeps st st'"
proof (induction E c st and E cs st arbitrary: st' and st' rule: curl_callback_curl_callbacks.induct)
  case (1 E data st)
  then show ?case by (auto simp: rbind_eq_Inr_iff intro: write_keeps)
next
  case (2 E s what sockp st)
  then show ?case by (auto intro: sock_keeps)
next
  case (3 E timeout_ms nested st)
  then show ?case by (cases st) (auto split: if_splits)
next
  case (5 E c cs st)
  then obtain st1 where "curl_callback E c st = Inr st1" "curl_callbacks E cs st1 = Inr st'" by (auto simp: rbind_eq_Inr_iff)
  with 5 show ?case by (metis auth_keeps_trans)
qed auto

section \<open>The URL is never cut\<close>

lemma auth_url_fits:
  "snprintf (8 + length host + 7 + length WEBCOM_AUTH_API_PATH_BEGIN + length app + length WEBCOM_AUTH_API_PATH_END + 1)
     (auth_url_text host port app) = auth_url_text host port app"
proof -
  have "unat port < 2 ^ LENGTH(16)" by (rule unsigned_less)
  then have "nat (uint port) < 10 ^ 5" by simp
  then have "length (dec_int (uint port)) \<le> 5" using length_dec_nat [of _ 5] by (simp add: dec_int_def)
  then show ?thesis by (simp add: snprintf_def auth_url_text_def)
qed

section \<open>One sign-in per context\<close>

inductive auth_step :: "('tok, 'z) auth_env_scheme \<Rightarrow> string \<Rightarrow> 16 word \<Rightarrow> string \<Rightarrow> 'tok auth_state \<Rightarrow> 'tok auth_state \<Rightarrow> bool"
  for E host port app where
  sign_in: "wc_auth_with_password E host port app email password st = Inr (r, st') \<Longrightarrow> auth_step E host port app st st'"
| service: "wc_auth_service E fd st = Inr st' \<Longrightarrow> auth_step E host port app st st'"

definition auth_inv :: "string \<Rightarrow> 16 word \<Rightarrow> string \<Rightarrow> 'tok auth_state \<Rightarrow> bool" where
  "auth_inv host port app st \<longleftrightarrow>
     (if auth_curl_multi (fst st)
      then auth_curl_handle (fst st) \<noteq> No_curl \<and> (\<exists>form. curl_added (fst st) = [(auth_url_text host port app, form)])
      else auth_curl_handle (fst st) = No_curl \<and> auth_parser (fst st) = No_tokener \<and> curl_added (fst st) = []) \<and>
     list_all auth_event (snd st)"

lemma auth_inv_keeps: "auth_inv host port app st \<Longrightarrow> auth_curl_multi (fst st) \<Longrightarrow> auth_keeps st st' \<Longrightarrow> auth_inv host port app st'"
  by (auto simp: auth_inv_def auth_keeps_def)

lemma auth_inv_zero [simp]: "auth_inv host port app (zero_auth, [])"
  by (simp add: auth_inv_def zero_auth_def)

lemma with_password_again: "auth_curl_handle (fst st) \<noteq> No_curl \<Longrightarrow> wc_auth_with_password E host port app email password st = Inr (0, st)"
  by (cases st) (simp add: wc_auth_with_password_def)

lemma multi_init_first:
  "\<not> auth_curl_multi ctx \<Longrightarrow>
   auth_multi_init host port app ctx = ctx\<lparr>auth_curl_multi := True, auth_url := Some (auth_url_text host port app)\<rparr>"
  unfolding auth_multi_init_def Let_def auth_url_fits by simp

lemma rbind_return: "rbind m (\<lambda>y. Inr (c, y)) = Inr (r, x) \<Longrightarrow> m = Inr x"
  by (cases m) auto

lemma with_password_inv:
  assumes "auth_inv host port app st" "wc_auth_with_password E host port app email password st = Inr (r, st')"
  shows "auth_inv host port app st'"
proof (cases "auth_curl_multi (fst st)")
  case True
  then have "auth_curl_handle (fst st) \<noteq> No_curl" using assms(1) by (simp add: auth_inv_def)
  then show ?thesis using assms with_password_again [of st E host port app email password] by simp
next
  case False
  let ?form = "auth_form_text E email password"
  let ?ctx = "(fst st)\<lparr>auth_parser := No_tokener, auth_curl_multi := True, auth_url := Some (auth_url_text host port app), auth_form_data := Some ?form,
    auth_curl_handle := Curl (auth_url_text host port app) ?form, curl_added := [(auth_url_text host port app, ?form)]\<rparr>"
  have "wc_auth_with_password E host port app email password st = rbind (curl_callbacks E (curl_add E ?ctx) (?ctx, snd st)) (\<lambda>st. Inr (1, st))"
    using assms(1) False by (cases st) (simp add: wc_auth_with_password_def auth_inv_def multi_init_first Let_def)
  from rbind_return [OF trans [OF this [symmetric] assms(2)]]
  have keeps: "auth_keeps (?ctx, snd st) st'" by (rule callbacks_keep(2))
  have inv: "auth_inv host port app (?ctx, snd st)" using assms(1) False by (simp add: auth_inv_def)
  show ?thesis by (rule auth_inv_keeps [OF inv _ keeps]) simp
qed

lemma curl_end_inv:
  assumes "auth_inv host port app st" "auth_curl_multi (fst st)" "curl_end E st = Inr st'"
  shows "auth_inv host port app st'"
proof (cases "auth_curl_handle (fst st)")
  case (Curl u f)
  then obtain ctx evs where c: "curl_callbacks E (curl_remove E (fst st)) st = Inr (ctx, evs)" and st': "st' = (ctx\<lparr>auth_curl_handle := Freed_curl\<rparr>, evs)"
    using assms(3) by (auto simp: curl_end_def rbind_eq_Inr_iff)
  have "auth_inv host port app (ctx, evs)" "auth_curl_multi ctx"
    using auth_inv_keeps [OF assms(1,2)] callbacks_keep(2) [OF c] assms(2) auth_keeps_D(3) by fastforce+
  then show ?thesis by (simp add: st' auth_inv_def)
qed (use assms in \<open>auto simp: curl_end_def\<close>)

lemma service_inv:
  assumes "auth_inv host port app st" "wc_auth_service E fd st = Inr st'"
  shows "auth_inv host port app st'"
proof -
  obtain st1 where multi: "auth_curl_multi (fst st)" and c: "curl_callbacks E (fst (curl_action E (fst st) fd)) st = Inr st1"
    and e: "(if snd (curl_action E (fst st) fd) = 0 then curl_end E st1 else Inr st1) = Inr st'"
    using assms(2) by (auto simp: wc_auth_service_def rbind_eq_Inr_iff case_prod_beta split: if_splits)
  have "auth_inv host port app st1" "auth_curl_multi (fst st1)"
    using auth_inv_keeps [OF assms(1) multi] callbacks_keep(2) [OF c] multi auth_keeps_D(3) by fastforce+
  then show ?thesis using e curl_end_inv [of host port app st1 E st'] by (auto split: if_splits)
qed

lemma auth_reachable_inv: "(auth_step E host port app)\<^sup>*\<^sup>* (zero_auth, []) st \<Longrightarrow> auth_inv host port app st"
  by (induction rule: rtranclp_induct) (auto elim!: auth_step.cases intro: with_password_inv service_inv)

text \<open>A server that accepts the password, with an answer in two pieces.\<close>

definition sample_answer :: json where
  "sample_answer = JObject [(''token'', JString ''abc''), (''user'', JObject [(''uid'', JString ''u1''), (''expires'', JInt 5)])]"

definition sample_auth_env :: "nat auth_env" where
  "sample_auth_env = \<lparr>env_parse_ex = (\<lambda>n data. if n = 0 then (Tok_continue, 1) else (Tok_success sample_answer, n)),
     env_tok_new = 0, env_json_plain = (\<lambda>_. []), curl_add = (\<lambda>_. [Curl_timer 1 []]),
     curl_action = (\<lambda>_ _. ([Curl_sock 3 CURL_POLL_IN False, Curl_write ''{'', Curl_write ''}''], 0)),
     curl_remove = (\<lambda>_. [Curl_sock 3 CURL_POLL_REMOVE True]), curl_easy_escape = (\<lambda>s. s), curl_garbage = 0\<rparr>"

definition signing_in :: "nat auth_state" where
  "signing_in = snd (projr (wc_auth_with_password sample_auth_env ''h'' 443 ''a'' ''me'' ''pw'' (zero_auth, [])))"

definition signed_in :: "nat auth_state" where
  "signed_in = projr (wc_auth_service sample_auth_env (-1) signing_in)"

text \<open>
  Claim C21: whatever the application calls and whatever cURL calls back, a context hands at
  most one sign-in request to cURL, to the complete URL of its server; once it has, every other
  \<^verbatim>\<open>wc_auth_with_password\<close> returns 0 and does nothing, because the handle of a
  finished transfer is released but never cleared. The application is told only of events of
  this service.
\<close>

theorem one_sign_in_per_context:
  assumes "(auth_step E host port app)\<^sup>*\<^sup>* (zero_auth, []) st"
  shows "list_all auth_event (snd st) \<and>
    (curl_added (fst st) = [] \<or>
     (\<exists>form. curl_added (fst st) = [(''https://'' @ host @ '':'' @ dec_int (uint port) @ ''/auth/v2/'' @ app @ ''/password/signin'', form)]) \<and>
     (\<forall>email password. wc_auth_with_password E host port app email password st = Inr (0, st)))"
  using auth_reachable_inv [OF assms] with_password_again [of st E host port app]
  by (auto simp: auth_inv_def auth_url_text_def WEBCOM_AUTH_API_PATH_BEGIN_def WEBCOM_AUTH_API_PATH_END_def split: if_splits)

theorem one_sign_in_per_context_witness:
  "(auth_step sample_auth_env ''h'' 443 ''a'')\<^sup>*\<^sup>* (zero_auth, []) signed_in \<and>
   map fst (curl_added (fst signed_in)) = [''https://h:443/auth/v2/a/password/signin''] \<and>
   wc_auth_with_password sample_auth_env ''h'' 443 ''a'' ''you'' ''pw'' signed_in = Inr (0, signed_in) \<and>
   list_all auth_event (snd signed_in)"
proof -
  have st1: "wc_auth_with_password sample_auth_env ''h'' 443 ''a'' ''me'' ''pw'' (zero_auth, []) = Inr (1, signing_in)"
    and st2: "wc_auth_service sample_auth_env (-1) signing_in = Inr signed_in" by code_simp+
  have reach: "(auth_step sample_auth_env ''h'' 443 ''a'')\<^sup>*\<^sup>* (zero_auth, []) signed_in"
    using sign_in [OF st1] service [OF st2] by (meson converse_rtranclp_into_rtranclp rtranclp.rtrancl_refl)
  have "map fst (curl_added (fst signed_in)) = [''https://h:443/auth/v2/a/password/signin'']" by code_simp
  then show ?thesis using reach one_sign_in_per_context [OF reach] by auto
qed

section \<open>The answer in pieces\<close>

text \<open>The tokener after pieces that all leave the document unfinished.\<close>

primrec tok_feed :: "('tok \<Rightarrow> string \<Rightarrow> tok_result \<times> 'tok) \<Rightarrow> 'tok \<Rightarrow> string list \<Rightarrow> 'tok option" where
  "tok_feed parse_ex tok [] = Some tok"
| "tok_feed parse_ex tok (p # ps) = (case parse_ex tok p of (Tok_continue, tok) \<Rightarrow> tok_feed parse_ex tok ps | _ \<Rightarrow> None)"

lemma curl_callbacks_append: "curl_callbacks E (cs @ ds) st = rbind (curl_callbacks E cs st) (curl_callbacks E ds)"
  by (induction cs arbitrary: st) (auto simp: rbind_def split: sum.splits)

lemma pieces_continue:
  "auth_parser ctx = Tokener tok \<Longrightarrow> tok_feed (env_parse_ex E) tok ps = Some tok' \<Longrightarrow>
   curl_callbacks E (map Curl_write ps) (ctx, evs) = Inr (ctx\<lparr>auth_parser := Tokener tok'\<rparr>, evs)"
proof (induction ps arbitrary: ctx tok)
  case Nil
  then show ?case by (cases ctx) simp
next
  case (Cons p ps)
  then obtain tok1 where "env_parse_ex E tok p = (Tok_continue, tok1)" "tok_feed (env_parse_ex E) tok1 ps = Some tok'"
    by (auto split: prod.splits tok_result.splits)
  then show ?case using Cons.IH [of "ctx\<lparr>auth_parser := Tokener tok1\<rparr>" tok1] Cons.prems(1)
    by (simp add: curl_write_cb_def wc_auth_parse_body_def)
qed

text \<open>A reply the application can read and the library can release: every field is set, to copies or null.\<close>

definition owned :: "c_pointer \<Rightarrow> bool" where
  "owned p \<longleftrightarrow> (\<exists>s. p = Null \<or> p = Heap s)"

definition info_owned :: "wc_auth_info \<Rightarrow> bool" where
  "info_owned ai \<longleftrightarrow> owned (ai_token ai) \<and> owned (ai_provider_uid ai) \<and> owned (ai_uid ai) \<and> owned (ai_error ai) \<and>
     owned (ai_provider ai) \<and> owned (ai_provider_profile ai) \<and> ai_expires ai \<noteq> None"

lemma owned_simps [simp]: "owned Null" "owned (auth_strdup s)"
  by (simp_all add: owned_def auth_strdup_def)

lemma free_owned [simp]: "owned p \<Longrightarrow> free_if_not_null p = Inr ()"
  by (auto simp: owned_def)

lemma cleanup_owned: "info_owned ai \<Longrightarrow> wc_auth_cleanup_info ai = Inr ()"
  by (simp add: info_owned_def wc_auth_cleanup_info_def)

lemma user_string_owned:
  "info_owned pai \<Longrightarrow> (\<And>s pai. info_owned pai \<Longrightarrow> info_owned (upd (auth_strdup s) pai)) \<Longrightarrow> info_owned (user_string user k upd pai)"
  by (auto simp: user_string_def split: option.split json.split)

lemma user_fields_owned:
  "info_owned pai \<Longrightarrow> info_owned (user_expires user pai)" "info_owned pai \<Longrightarrow> info_owned (user_profile plain user pai)"
  by (auto simp: user_expires_def user_profile_def info_owned_def split: option.split json.split)

lemma parse_user_owned: "info_owned pai \<Longrightarrow> info_owned (parse_user plain user pai)"
  unfolding parse_user_def Let_def
  by (intro user_fields_owned user_string_owned; assumption?) (simp_all add: info_owned_def)

lemma user_fields:
  "(\<And>p pai. f (upd p pai) = f pai) \<Longrightarrow> f (user_string user key upd pai) = f pai"
  by (auto simp: user_string_def split: option.split json.split)

lemma user_expires_fields:
  "ai_error (user_expires user pai) = ai_error pai" "ai_token (user_expires user pai) = ai_token pai"
  by (auto simp: user_expires_def split: option.split json.split)

lemma user_profile_fields:
  "ai_error (user_profile plain user pai) = ai_error pai" "ai_token (user_profile plain user pai) = ai_token pai"
  by (auto simp: user_profile_def split: option.split json.split)

lemma parse_user_fields:
  "ai_error (parse_user plain user pai) = ai_error pai" "ai_token (parse_user plain user pai) = ai_token pai"
  by (simp_all add: parse_user_def Let_def user_profile_fields user_expires_fields user_fields)

lemma auth_strdup_neq [simp]: "auth_strdup s \<noteq> Null"
  by (simp add: auth_strdup_def)

lemma parse_json_reply:
  "info_owned (wc_auth_parse_json plain j zero_info) \<and>
   (ai_token (wc_auth_parse_json plain j zero_info) = Null) \<noteq> (ai_error (wc_auth_parse_json plain j zero_info) = Null)"
proof -
  have zero: "info_owned zero_info" "ai_token zero_info = Null" "ai_error zero_info = Null"
    by (simp_all add: info_owned_def zero_info_def)
  then have upd: "info_owned (zero_info\<lparr>ai_error := auth_strdup s\<rparr>)" "info_owned (zero_info\<lparr>ai_token := auth_strdup s\<rparr>)" for s
    by (simp_all add: info_owned_def)
  show ?thesis
    by (auto simp: wc_auth_parse_json_def Let_def upd zero parse_user_owned parse_user_fields split: option.split json.split)
qed

lemma last_piece:
  assumes "auth_parser ctx = Tokener tok" "tok_feed (env_parse_ex E) tok ps = Some tok'"
  shows "curl_callbacks E (map Curl_write (ps @ [p])) (ctx, evs) = (case fst (env_parse_ex E tok' p) of
      Tok_success j \<Rightarrow> Inr (ctx\<lparr>auth_parser := Freed_tokener\<rparr>, evs @ [WC_AUTH_ON_AUTH_REPLY (wc_auth_parse_json (env_json_plain E) j zero_info)])
    | Tok_continue \<Rightarrow> Inr (ctx\<lparr>auth_parser := Tokener (snd (env_parse_ex E tok' p))\<rparr>, evs)
    | Tok_error d \<Rightarrow> Inl InvalidFree)"
  using pieces_continue [OF assms, of evs] parse_json_reply
  by (auto simp: curl_callbacks_append curl_write_cb_def wc_auth_parse_body_def wc_auth_cleanup_info_def [of "unset_info\<lparr>ai_error := Constant d\<rparr>" for d]
      cleanup_owned split: tok_result.split prod.split)



text \<open>Driving cURL once more after the transfer ended, without a new one, uses what was released.\<close>

lemma service_after_end:
  assumes "auth_curl_multi (fst st)" "auth_curl_handle (fst st) = Freed_curl" "snd (curl_action E (fst st) fd) = 0"
  shows "\<exists>e. wc_auth_service E fd st = Inl e"
proof (cases "curl_callbacks E (fst (curl_action E (fst st) fd)) st")
  case (Inr st1)
  then have "auth_curl_handle (fst st1) = Freed_curl" using auth_keeps_D(1) [OF callbacks_keep(2)] assms(2) by fastforce
  then show ?thesis using Inr assms by (simp add: wc_auth_service_def curl_end_def case_prod_beta)
qed (use assms in \<open>simp add: wc_auth_service_def case_prod_beta\<close>)

text \<open>Both functions of the service add events of the service only.\<close>

definition tells_auth :: "wc_event list \<Rightarrow> wc_event list \<Rightarrow> bool" where
  "tells_auth evs evs' \<longleftrightarrow> (\<exists>new. evs' = evs @ new \<and> list_all auth_event new)"

lemma tells_auth_refl [simp]: "tells_auth evs evs"
  by (simp add: tells_auth_def)

lemma tells_auth_trans: "tells_auth a b \<Longrightarrow> tells_auth b c \<Longrightarrow> tells_auth a c"
  by (auto simp: tells_auth_def)

lemma callbacks_tell: "curl_callbacks E cs st = Inr st' \<Longrightarrow> tells_auth (snd st) (snd st')"
  unfolding tells_auth_def by (rule auth_keeps_D(4) [OF callbacks_keep(2)])

lemma curl_end_tells: "curl_end E st = Inr st' \<Longrightarrow> tells_auth (snd st) (snd st')"
  using callbacks_tell by (fastforce simp: curl_end_def rbind_eq_Inr_iff split: curl_ptr.splits)

lemma service_tells:
  assumes "wc_auth_service E fd st = Inr st'"
  shows "tells_auth (snd st) (snd st')"
proof -
  obtain st1 where c: "curl_callbacks E (fst (curl_action E (fst st) fd)) st = Inr st1"
    and e: "(if snd (curl_action E (fst st) fd) = 0 then curl_end E st1 else Inr st1) = Inr st'"
    using assms by (auto simp: wc_auth_service_def rbind_eq_Inr_iff case_prod_beta split: if_splits)
  have "tells_auth (snd st1) (snd st')" using e curl_end_tells [of E st1 st'] by (auto split: if_splits)
  with callbacks_tell [OF c] show ?thesis by (rule tells_auth_trans)
qed

lemma with_password_tells:
  assumes "wc_auth_with_password E host port app email password st = Inr (r, st')"
  shows "tells_auth (snd st) (snd st')"
proof -
  obtain ctx evs where st: "st = (ctx, evs)" by (cases st)
  show ?thesis
  proof (cases "auth_curl_handle ctx = No_curl")
    case True
    then obtain ctx1 where "rbind (curl_callbacks E (curl_add E ctx1) (ctx1, evs)) (\<lambda>y. Inr (1, y)) = Inr (r, st')"
      using assms by (auto simp: st wc_auth_with_password_def Let_def split: if_splits)
    from callbacks_tell [OF rbind_return [OF this]] show ?thesis by (simp add: st)
  qed (use assms in \<open>simp add: st wc_auth_with_password_def\<close>)
qed

end
