(* ===== verification/Datasync.thy ===== *)
theory Datasync
  imports On_Events Auth
begin

text \<open>
  The datasync service (\<^verbatim>\<open>lib/datasync/datasync.c\<close>) and the base of the library
  (\<^verbatim>\<open>lib/webcom_base.c\<close>): the connection and its states, the timers, the messages from the
  server and the callbacks of the websocket library, on top of the cache, the subscriptions,
  the listen registry and the requests.

  \<open>webcom_ctx\<close> is \<^verbatim>\<open>struct wc_context\<close> with the fields of
  \<^verbatim>\<open>struct wc_datasync_context\<close> in it. The calls to the event callback of the application are
  recorded in \<open>events\<close>, those to libwebsockets in \<open>lws_calls\<close>. What the application's callback
  returns is a parameter; it does not call back into the library (such calls are steps of
  their own). Log messages are left out.
\<close>

section \<open>Data\<close>

datatype lws_call = Lws_client_connect | Lws_service | Lws_service_fd int int int | Lws_callback_on_writable

record 'tok webcom_ctx = on_ctx +
  parser :: "'tok wc_parser option"
  ws_next_reconnect_timer :: "32 word"
  stamp :: "32 word"
  lws_cci_path :: string
  ssl_connection :: bool
  datasync_init :: bool
  app_name :: string
  host :: string
  port :: "16 word"
  no_tls :: bool
  events :: "wc_event list"
  lws_calls :: "lws_call list"
  auth :: "'tok auth_ctx"
  auth_init :: bool

text \<open>The libraries and the application.\<close>

record 'tok webcom_env = "'tok auth_env" +
  env_sdk :: sdk_env
  env_srand48 :: "int \<Rightarrow> int"
  app_callback :: "wc_event list \<Rightarrow> wc_event \<Rightarrow> bool"
  app_on_data :: app_on

definition callback :: "'tok webcom_env \<Rightarrow> wc_event \<Rightarrow> 'tok webcom_ctx \<Rightarrow> bool \<times> 'tok webcom_ctx" where
  "callback E ev ctx = (app_callback E (events ctx) ev, ctx\<lparr>events := events ctx @ [ev]\<rparr>)"

abbreviation notify :: "'tok webcom_env \<Rightarrow> wc_event \<Rightarrow> 'tok webcom_ctx \<Rightarrow> 'tok webcom_ctx" where
  "notify E ev ctx \<equiv> snd (callback E ev ctx)"

definition lws :: "lws_call \<Rightarrow> 'tok webcom_ctx \<Rightarrow> 'tok webcom_ctx" where
  "lws c ctx = ctx\<lparr>lws_calls := lws_calls ctx @ [c]\<rparr>"

section \<open>Messages\<close>

definition invoke_req :: "'tok webcom_ctx req_invoke" where
  "invoke_req cb rid ty status reason data user ctx = (case cb of
      On_listen_result \<Rightarrow> on_listen_result status user ctx
    | App_callback n \<Rightarrow> Inr (ctx\<lparr>events := events ctx @ [Req_result n rid ty status reason data user]\<rparr>))"

text \<open>\<open>tv\<close> and \<open>tv'\<close> are the times of day at the two readings of the clock.\<close>

definition process_handshake ::
    "'tok webcom_env \<Rightarrow> int \<times> int \<Rightarrow> int \<times> int \<Rightarrow> 'tok webcom_ctx \<Rightarrow> wc_msg \<Rightarrow> wc_handshake \<Rightarrow> 'tok webcom_ctx" where
  "process_handshake E tv tv' ctx msg h =
     (let now = wc_datasync_now tv;
          ctx = ctx\<lparr>pids := (pids ctx)\<lparr>rand_buffer := env_srand48 E (sint now)\<rparr>\<rparr>;
          ctx = ctx\<lparr>time_offset := now - word_of_int (h_ts h)\<rparr>;
          ctx = ctx\<lparr>cnx_state := WC_CNX_STATE_CONNECTED\<rparr>;
          ctx = ctx\<lparr>time_offset := wc_datasync_now tv' - word_of_int (h_ts h)\<rparr>;
          ctx = ctx\<lparr>stamp := stamp ctx + 1\<rparr>;
          ctx = wc_listen_resume_all (env_sdk E) ctx;
          ctx = notify E (WC_EVENT_ON_SERVER_HANDSHAKE msg) ctx;
          ta = \<lparr>ta_ms = 50000, ta_timer = WC_TIMER_DATASYNC_KEEPALIVE, ta_repeat = True\<rparr>;
          ctx = ctx\<lparr>ws_next_reconnect_timer := 1\<rparr>
      in notify E (WC_EVENT_SET_TIMER ta) ctx)"

definition process_update ::
    "'tok webcom_env \<Rightarrow> ((string \<Rightarrow> json option) \<Rightarrow> data_cache \<Rightarrow> string \<Rightarrow> string \<Rightarrow> data_cache res) \<Rightarrow>
     'tok webcom_ctx \<Rightarrow> string \<Rightarrow> string \<Rightarrow> 'tok webcom_ctx res" where
  "process_update E set_data ctx path data =
     rbind (set_data (env_tokener (env_sdk E)) (cache ctx) path data) (\<lambda>c.
       on_registry_dispatch_on_event (env_sdk E) (app_on_data E) (ctx\<lparr>cache := c\<rparr>) path)"

definition wc_datasync_process_message ::
    "'tok webcom_env \<Rightarrow> int \<times> int \<Rightarrow> int \<times> int \<Rightarrow> 'tok webcom_ctx \<Rightarrow> wc_msg \<Rightarrow> 'tok webcom_ctx res" where
  "wc_datasync_process_message E tv tv' ctx msg =
     rbind (case msg of
         WC_MSG_CTRL (WC_CTRL_MSG_HANDSHAKE h) \<Rightarrow> Inr (process_handshake E tv tv' ctx msg h)
       | WC_MSG_DATA (WC_DATA_MSG_PUSH (Update_put path data)) \<Rightarrow> process_update E data_cache_set ctx path data
       | WC_MSG_DATA (WC_DATA_MSG_PUSH (Update_merge path data)) \<Rightarrow> process_update E data_cache_merge ctx path data
       | WC_MSG_DATA (WC_DATA_MSG_RESPONSE r) \<Rightarrow> wc_datasync_req_response_dispatch invoke_req ctx r
       | _ \<Rightarrow> Inr ctx)
     (\<lambda>ctx. Inr (notify E (WC_EVENT_ON_MSG_RECEIVED msg) ctx))"

definition wc_datasync_process_data ::
    "'tok webcom_env \<Rightarrow> int \<times> int \<Rightarrow> int \<times> int \<Rightarrow> 'tok webcom_ctx \<Rightarrow> string \<Rightarrow> 'tok webcom_ctx res" where
  "wc_datasync_process_data E tv tv' ctx buf =
     (if parser ctx = None \<and> (buf = [] \<or> hd buf \<noteq> CHR ''{'') then Inr ctx
      else let p = (case parser ctx of None \<Rightarrow> wc_datasync_parser_new (env_tok_new E) | Some p \<Rightarrow> p);
               (res, p', allocated) = wc_datasync_parse_msg_ex (env_print (env_sdk E)) (env_parse_ex E) (Some p) buf;
               ctx = ctx\<lparr>parser := p'\<rparr>
           in case res of
                WC_PARSER_OK msg \<Rightarrow>
                  rbind (wc_datasync_process_message E tv tv' ctx msg) (\<lambda>ctx. Inr (ctx\<lparr>parser := None\<rparr>))
              | WC_PARSER_CONTINUE \<Rightarrow> Inr ctx
              | WC_PARSER_ERROR \<Rightarrow> Inr (ctx\<lparr>parser := None\<rparr>))"

section \<open>The connection\<close>

definition wc_datasync_schedule_reconnect :: "'tok webcom_env \<Rightarrow> 'tok webcom_ctx \<Rightarrow> 'tok webcom_ctx" where
  "wc_datasync_schedule_reconnect E ctx =
     (let wcta = \<lparr>ta_ms = uint (1000 * ws_next_reconnect_timer ctx), ta_timer = WC_TIMER_DATASYNC_RECONNECT, ta_repeat = False\<rparr>;
          ctx = notify E (WC_EVENT_SET_TIMER wcta) ctx
      in if ws_next_reconnect_timer ctx < 256
         then ctx\<lparr>ws_next_reconnect_timer := push_bit 1 (ws_next_reconnect_timer ctx)\<rparr>
         else ctx)"

definition wc_datasync_service_socket :: "'tok webcom_ctx \<Rightarrow> wc_pollargs \<Rightarrow> 'tok webcom_ctx" where
  "wc_datasync_service_socket ctx pa = lws (Lws_service_fd (pa_fd pa) (pa_events pa) (pa_events pa)) ctx"

text \<open>The reasons for which libwebsockets calls back, with their data.\<close>

datatype lws_callback_reason =
    LWS_CALLBACK_ADD_POLL_FD int int
  | LWS_CALLBACK_DEL_POLL_FD int int
  | LWS_CALLBACK_CHANGE_MODE_POLL_FD int int
  | LWS_CALLBACK_CLIENT_ESTABLISHED
  | LWS_CALLBACK_CLIENT_CONNECTION_ERROR string
  | LWS_CALLBACK_CLIENT_RECEIVE string
  | LWS_CALLBACK_CLOSED
  | LWS_CALLBACK_CLIENT_WRITEABLE
  | LWS_CALLBACK_OTHER

definition wc_lws_callback ::
    "'tok webcom_env \<Rightarrow> int \<times> int \<Rightarrow> int \<times> int \<Rightarrow> lws_callback_reason \<Rightarrow> 'tok webcom_ctx \<Rightarrow> (int \<times> 'tok webcom_ctx) res" where
  "wc_lws_callback E tv tv' reason ctx = (case reason of
      LWS_CALLBACK_ADD_POLL_FD fd ev \<Rightarrow>
        Inr (0, notify E (WC_EVENT_ADD_FD \<lparr>pa_fd = fd, pa_events = ev, pa_src = WC_POLL_DATASYNC\<rparr>) ctx)
    | LWS_CALLBACK_DEL_POLL_FD fd ev \<Rightarrow>
        Inr (0, notify E (WC_EVENT_DEL_FD \<lparr>pa_fd = fd, pa_events = ev, pa_src = WC_POLL_DATASYNC\<rparr>) ctx)
    | LWS_CALLBACK_CHANGE_MODE_POLL_FD fd ev \<Rightarrow>
        Inr (0, notify E (WC_EVENT_MODIFY_FD \<lparr>pa_fd = fd, pa_events = ev, pa_src = WC_POLL_DATASYNC\<rparr>) ctx)
    | LWS_CALLBACK_CLIENT_ESTABLISHED \<Rightarrow> Inr (0, ctx)
    | LWS_CALLBACK_CLIENT_CONNECTION_ERROR msg \<Rightarrow>
        let ctx = wc_listen_suspend_all (ctx\<lparr>cnx_state := WC_CNX_STATE_DISCONNECTED\<rparr>);
            (reconnect, ctx) = callback E (WC_EVENT_ON_CNX_ERROR msg) ctx
        in Inr (0, if reconnect then wc_datasync_schedule_reconnect E ctx else ctx)
    | LWS_CALLBACK_CLIENT_RECEIVE buf \<Rightarrow>
        if cnx_state ctx \<noteq> WC_CNX_STATE_DISCONNECTING
        then rbind (wc_datasync_process_data E tv tv' ctx buf) (\<lambda>ctx. Inr (0, ctx))
        else Inr (0, ctx)
    | LWS_CALLBACK_CLOSED \<Rightarrow>
        let ctx = ctx\<lparr>cnx_state := WC_CNX_STATE_DISCONNECTED\<rparr>;
            ctx = notify E (WC_EVENT_DEL_TIMER WC_TIMER_DATASYNC_KEEPALIVE) ctx;
            ctx = wc_listen_suspend_all ctx;
            (reconnect, ctx) = callback E WC_EVENT_ON_CNX_CLOSED ctx
        in Inr (0, if reconnect then wc_datasync_schedule_reconnect E ctx else ctx)
    | LWS_CALLBACK_CLIENT_WRITEABLE \<Rightarrow> Inr (if cnx_state ctx = WC_CNX_STATE_DISCONNECTING then -1 else 0, ctx)
    | LWS_CALLBACK_OTHER \<Rightarrow> Inr (0, ctx))"

definition wc_datasync_close_cnx :: "'tok webcom_ctx \<Rightarrow> 'tok webcom_ctx" where
  "wc_datasync_close_cnx ctx =
     (if cnx_state ctx = WC_CNX_STATE_CONNECTED \<or> cnx_state ctx = WC_CNX_STATE_CONNECTING
      then lws Lws_callback_on_writable (ctx\<lparr>cnx_state := WC_CNX_STATE_DISCONNECTING\<rparr>)
      else ctx)"

definition WEBCOM_WS_PATH :: string where "WEBCOM_WS_PATH = ''/_wss/.ws''"

definition WEBCOM_PROTOCOL_VERSION :: string where "WEBCOM_PROTOCOL_VERSION = ''5''"

definition wc_datasync_init :: "'tok webcom_ctx \<Rightarrow> 'tok webcom_ctx" where
  "wc_datasync_init ctx =
     (let ws_path_l = length WEBCOM_WS_PATH + 3 + length WEBCOM_PROTOCOL_VERSION + 4 + length (app_name ctx) + 1
      in ctx\<lparr>ssl_connection := \<not> no_tls ctx,
             lws_cci_path := snprintf ws_path_l (WEBCOM_WS_PATH @ ''?v='' @ WEBCOM_PROTOCOL_VERSION @ ''&ns='' @ app_name ctx),
             cnx_state := WC_CNX_STATE_DISCONNECTED, datasync_init := True, stamp := 0, cache := data_cache_new,
             on_reg := on_registry_new, listen_reg := listen_registry_new\<rparr>)"

definition wc_datasync_do_connect :: "'tok webcom_ctx \<Rightarrow> 'tok webcom_ctx" where
  "wc_datasync_do_connect ctx =
     (if cnx_state ctx = WC_CNX_STATE_DISCONNECTED
      then lws Lws_service (lws Lws_client_connect (ctx\<lparr>cnx_state := WC_CNX_STATE_CONNECTING\<rparr>))
      else ctx)"

definition wc_datasync_connect :: "'tok webcom_env \<Rightarrow> 'tok webcom_ctx \<Rightarrow> 'tok webcom_ctx" where
  "wc_datasync_connect E ctx =
     (let ctx = (if \<not> datasync_init ctx then wc_datasync_init ctx else ctx) in wc_datasync_schedule_reconnect E ctx)"

definition wc_datasync_keepalive :: "'tok webcom_env \<Rightarrow> 'tok webcom_ctx \<Rightarrow> int \<times> 'tok webcom_ctx" where
  "wc_datasync_keepalive E ctx =
     (env_lws_write (env_sdk E) (ws_sent ctx) ''0'', ctx\<lparr>ws_sent := ws_sent ctx @ [''0'']\<rparr>)"

section \<open>The base of the library\<close>

record wc_context_options =
  o_app_name :: string
  o_host :: string
  o_port :: "16 word"
  o_no_tls :: int

text \<open>
  The structure is cleared when it is allocated; the cache and the registries are not used
  before \<^verbatim>\<open>wc_datasync_init\<close>.
\<close>

definition wc_context_create :: "wc_context_options \<Rightarrow> 'tok webcom_ctx" where
  "wc_context_create options =
     \<lparr>cnx_state = WC_CNX_STATE_DISCONNECTED, last_req = 0, pending_req_table = empty_table, ws_sent = [], pids = zero_pids,
      time_offset = 0, listen_reg = listen_registry_new, next_addr = 0, on_reg = on_registry_new, cache = data_cache_new,
      next_handle = 0, on_calls = [], deleted_cb_list = [], parser = None, ws_next_reconnect_timer = 0, stamp = 0,
      lws_cci_path = [], ssl_connection = False, datasync_init = False, app_name = o_app_name options,
      host = o_host options, port = o_port options, no_tls = (o_no_tls options \<noteq> 0), events = [], lws_calls = [],
      auth = zero_auth, auth_init = False\<rparr>"

text \<open>A function of the authentication service, on its part of the context.\<close>

definition on_auth :: "('tok auth_state \<Rightarrow> 'tok auth_state res) \<Rightarrow> 'tok webcom_ctx \<Rightarrow> 'tok webcom_ctx res" where
  "on_auth f ctx = rbind (f (auth ctx, events ctx)) (\<lambda>(a, evs). Inr (ctx\<lparr>auth := a, events := evs\<rparr>))"

definition wc_dispatch_fd_event :: "'tok webcom_env \<Rightarrow> 'tok webcom_ctx \<Rightarrow> wc_pollargs \<Rightarrow> 'tok webcom_ctx res" where
  "wc_dispatch_fd_event E ctx pa = (case pa_src pa of
      WC_POLL_DATASYNC \<Rightarrow> Inr (wc_datasync_service_socket ctx pa)
    | WC_POLL_AUTH \<Rightarrow> on_auth (wc_auth_service E (pa_fd pa)) ctx)"

definition wc_dispatch_timer_event :: "'tok webcom_env \<Rightarrow> 'tok webcom_ctx \<Rightarrow> wc_timersrc \<Rightarrow> 'tok webcom_ctx res" where
  "wc_dispatch_timer_event E ctx timer = (case timer of
      WC_TIMER_DATASYNC_KEEPALIVE \<Rightarrow> Inr (snd (wc_datasync_keepalive E ctx))
    | WC_TIMER_DATASYNC_RECONNECT \<Rightarrow> Inr (wc_datasync_do_connect ctx)
    | WC_TIMER_AUTH \<Rightarrow> on_auth (wc_auth_service E (-1)) ctx)"

definition wc_get_datasync :: "'tok webcom_ctx \<Rightarrow> 'tok webcom_ctx option" where
  "wc_get_datasync ctx = (if datasync_init ctx then Some ctx else None)"

definition wc_get_auth :: "'tok webcom_ctx \<Rightarrow> 'tok auth_ctx option" where
  "wc_get_auth ctx = (if auth_init ctx then Some (auth ctx) else None)"

text \<open>What is released, in order.\<close>

datatype 'tok freed =
    F_string string | F_lws_context | F_parser "'tok wc_parser" | F_trans wc_action_trans | F_cache data_cache
  | F_on_registry "on_sub avl" | F_listen_registry "listen_item avl" | F_context

definition wc_datasync_context_cleanup :: "'tok webcom_ctx \<Rightarrow> 'tok freed list" where
  "wc_datasync_context_cleanup ctx =
     [F_string (lws_cci_path ctx), F_lws_context] @ (case parser ctx of None \<Rightarrow> [] | Some p \<Rightarrow> [F_parser p]) @
     map F_trans (wc_datasync_free_pending_trans (pending_req_table ctx)) @
     [F_cache (cache ctx), F_on_registry (on_reg ctx), F_listen_registry (listen_reg ctx)]"

definition wc_context_destroy :: "'tok webcom_ctx \<Rightarrow> 'tok freed list" where
  "wc_context_destroy ctx =
     (if datasync_init ctx then wc_datasync_context_cleanup ctx else []) @ [F_string (app_name ctx), F_string (host ctx), F_context]"

end
