(* ===== verification/Connection.thy ===== *)
theory Connection
  imports Datasync
begin

text \<open>
  Properties of the datasync service as a whole: the invariants of the connection over every
  sequence of application calls, timers and callbacks of libwebsockets, the delays between
  reconnections, and what an update from the server does to the cache and the subscriptions.
\<close>

section \<open>Elements of a tree after an operation\<close>

lemma modify_node_subset: "set (avl_inorder (avl_modify_node kc key f t k)) \<subseteq> set (avl_inorder t) \<union> f ` set (avl_inorder t)"
  by (induction t) (auto simp: Let_def simp del: set_avl_inorder)

lemma modify_subset: "set (avl_elems (avl_modify kc key f t k)) \<subseteq> set (avl_elems t) \<union> f ` set (avl_elems t)"
  unfolding avl_modify_def avl_elems_def by (simp add: modify_node_subset del: set_avl_inorder)

lemma insert_subset: "set (avl_elems (snd (avl_insert kc key cp t d))) \<subseteq> insert (cp d) (set (avl_elems t))"
  by (auto simp: avl_insert_def avl_elems_def Let_def simp del: set_avl_inorder)

lemma remove_rec_subset: "set (avl_inorder (fst (avl_remove_rec kc key t k))) \<subseteq> set (avl_inorder t)"
  by (induction t) (auto simp: Let_def case_prod_beta simp del: set_avl_inorder)

lemma remove_subset: "set (avl_elems (avl_remove kc key t k)) \<subseteq> set (avl_elems t)"
  using remove_rec_subset [of kc key "avl_root t" k] by (simp add: avl_remove_def avl_elems_def case_prod_beta del: set_avl_inorder)

section \<open>What the operations of the registries leave alone\<close>

text \<open>No listen request is pending or active.\<close>

definition calm :: "'a listen_ctx_scheme \<Rightarrow> bool" where
  "calm ctx \<longleftrightarrow> (\<forall>li\<in>set (avl_elems (listen_reg ctx)). li_status li \<noteq> LISTEN_ACTIVE \<and> li_status li \<noteq> LISTEN_PENDING)"

definition lkeeps :: "'a listen_ctx_scheme \<Rightarrow> 'a listen_ctx_scheme \<Rightarrow> bool" where
  "lkeeps ctx ctx' \<longleftrightarrow> cnx_state ctx' = cnx_state ctx \<and> listen_ctx.more ctx' = listen_ctx.more ctx \<and>
     (cnx_state ctx \<noteq> WC_CNX_STATE_CONNECTED \<longrightarrow> ws_sent ctx' = ws_sent ctx \<and> (calm ctx \<longrightarrow> calm ctx'))"

lemma lkeeps_refl [simp, intro]: "lkeeps ctx ctx"
  by (simp add: lkeeps_def)

lemma lkeeps_trans [trans]: "lkeeps ctx ctx1 \<Longrightarrow> lkeeps ctx1 ctx2 \<Longrightarrow> lkeeps ctx ctx2"
  by (auto simp: lkeeps_def)

lemma lkeeps_fold: "(\<And>x ctx. lkeeps ctx (f x ctx)) \<Longrightarrow> lkeeps ctx (fold f xs ctx)"
  by (induction xs arbitrary: ctx) (auto intro: lkeeps_trans)

lemma lkeeps_request: "lkeeps ctx (snd (DEFINE_REQ_FUNC E ctx r cb u))"
  by (simp add: lkeeps_def calm_def)
     (simp add: DEFINE_REQ_FUNC_def wc_datasync_next_reqnum_def wc_datasync_send_msg_def Let_def)

lemma lkeeps_unlisten: "lkeeps ctx (snd (wc_datasync_unlisten E ctx p cb u))"
  by (simp add: wc_datasync_unlisten_def lkeeps_request)

lemma lkeeps_modify:
  assumes "\<And>li. li_status (f li) = li_status li \<or> (li_status (f li) \<noteq> LISTEN_ACTIVE \<and> li_status (f li) \<noteq> LISTEN_PENDING)"
  shows "lkeeps ctx (ctx\<lparr>listen_reg := reg_modify li_path f (listen_reg ctx) p\<rparr>)"
proof -
  have "calm (ctx\<lparr>listen_reg := reg_modify li_path f (listen_reg ctx) p\<rparr>)" if c: "calm ctx"
    unfolding calm_def
  proof
    fix li assume "li \<in> set (avl_elems (listen_reg (ctx\<lparr>listen_reg := reg_modify li_path f (listen_reg ctx) p\<rparr>)))"
    then obtain l where "l \<in> set (avl_elems (listen_reg ctx))" "li = l \<or> li = f l"
      using modify_subset [of wc_datasync_path_cmp li_path f "listen_reg ctx" p] by (auto simp del: set_avl_elems)
    then show "li_status li \<noteq> LISTEN_ACTIVE \<and> li_status li \<noteq> LISTEN_PENDING"
      using c assms [of l] unfolding calm_def by auto
  qed
  then show ?thesis by (simp add: lkeeps_def)
qed

lemma lkeeps_set_status: "st \<noteq> LISTEN_ACTIVE \<Longrightarrow> st \<noteq> LISTEN_PENDING \<Longrightarrow> lkeeps ctx (set_status st li ctx)"
  unfolding set_status_def by (rule lkeeps_modify) simp

lemma lkeeps_mask_item: "lkeeps ctx (mask_item E li ctx)"
  unfolding mask_item_def by (auto intro: lkeeps_set_status lkeeps_trans [OF lkeeps_set_status lkeeps_unlisten])

lemma lkeeps_mask: "lkeeps ctx (mask_listen_request E ctx p)"
  unfolding mask_listen_request_def by (rule lkeeps_fold) (rule lkeeps_mask_item)

lemma lkeeps_activate: "lkeeps ctx (activate E li ctx)"
proof (cases "cnx_state ctx = WC_CNX_STATE_CONNECTED")
  case True
  have "listen_ctx.more (send_listen E li ctx) = listen_ctx.more ctx"
    by (simp add: send_listen_def set_status_def wc_datasync_listen_def DEFINE_REQ_FUNC_def wc_datasync_next_reqnum_def
        wc_datasync_send_msg_def Let_def)
  then show ?thesis using True by (simp add: activate_def lkeeps_def)
qed (simp add: activate_def lkeeps_set_status)

lemma lkeeps_add: "lkeeps ctx (snd (listen_registry_add_ex ctx p))"
proof (cases "reg_get li_path (listen_reg ctx) p")
  case None
  let ?li = "\<lparr>li_status = (if is_masked (listen_reg ctx) p then LISTEN_MASKED else LISTEN_REQUIRED),
    li_stamp = 0, li_ref = 1, li_path = wc_datasync_path_copy p, li_addr = next_addr ctx\<rparr>"
  have "calm ctx \<Longrightarrow> calm (ctx\<lparr>listen_reg := reg_insert li_path (listen_reg ctx) ?li, next_addr := next_addr ctx + 1\<rparr>)"
    using insert_subset [of wc_datasync_path_cmp li_path "\<lambda>d. d" "listen_reg ctx" ?li]
    by (auto simp: calm_def simp del: set_avl_elems)
  then show ?thesis using None by (simp add: listen_registry_add_ex_def Let_def lkeeps_def)
next
  case (Some li)
  then show ?thesis by (simp add: listen_registry_add_ex_def lkeeps_modify)
qed

lemma lkeeps_watch: "lkeeps ctx (wc_datasync_watch E ctx path)"
  by (auto simp: wc_datasync_watch_def Let_def case_prod_beta
      intro: lkeeps_add lkeeps_trans [OF lkeeps_trans [OF lkeeps_add lkeeps_activate] lkeeps_mask])

lemma lkeeps_unmask: "lkeeps ctx (unmask_listen_request E ctx p)"
  unfolding unmask_listen_request_def unmask_loop_targets by (rule lkeeps_fold) (rule lkeeps_activate)

lemma lkeeps_unref: "listen_registry_unref ctx p n = Inr (r, ctx') \<Longrightarrow> lkeeps ctx ctx'"
proof -
  have "calm (ctx\<lparr>listen_reg := reg_remove li_path (listen_reg ctx) p\<rparr>)" if "calm ctx"
    using that remove_subset [of wc_datasync_path_cmp li_path "listen_reg ctx" p] by (auto simp: calm_def simp del: set_avl_elems)
  then have "lkeeps ctx (ctx\<lparr>listen_reg := reg_remove li_path (listen_reg ctx) p\<rparr>)" by (simp add: lkeeps_def)
  then show "listen_registry_unref ctx p n = Inr (r, ctx') \<Longrightarrow> lkeeps ctx ctx'"
    by (auto simp: listen_registry_unref_def lkeeps_modify split: option.splits if_splits)
qed

lemma lkeeps_unwatch: "wc_datasync_unwatch_ex E ctx p n = Inr ctx' \<Longrightarrow> lkeeps ctx ctx'"
  unfolding wc_datasync_unwatch_ex_def
  by (cases "listen_registry_unref ctx p n")
     (auto split: if_splits dest!: lkeeps_unref intro: lkeeps_trans [OF lkeeps_trans [OF _ lkeeps_unlisten] lkeeps_unmask])


text \<open>Both registries are well formed and every masked path is covered.\<close>

definition reg_inv :: "'a on_ctx_scheme \<Rightarrow> bool" where
  "reg_inv ctx \<longleftrightarrow> listen_wf ctx \<and> masked_covered ctx \<and> reg_wf os_path (on_reg ctx)"

definition okeeps :: "'a on_ctx_scheme \<Rightarrow> 'a on_ctx_scheme \<Rightarrow> bool" where
  "okeeps ctx ctx' \<longleftrightarrow> (reg_inv ctx \<longrightarrow> reg_inv ctx' \<and> cnx_state ctx' = cnx_state ctx \<and> on_ctx.more ctx' = on_ctx.more ctx \<and>
     (cnx_state ctx \<noteq> WC_CNX_STATE_CONNECTED \<longrightarrow> ws_sent ctx' = ws_sent ctx \<and> (calm ctx \<longrightarrow> calm ctx')))"

lemma okeeps_refl [simp, intro]: "okeeps ctx ctx"
  by (simp add: okeeps_def)

lemma okeeps_trans [trans]: "okeeps ctx ctx1 \<Longrightarrow> okeeps ctx1 ctx2 \<Longrightarrow> okeeps ctx ctx2"
  by (auto simp: okeeps_def)

lemma okeeps_assume: "(reg_inv ctx \<Longrightarrow> okeeps ctx ctx') \<Longrightarrow> okeeps ctx ctx'"
  by (auto simp: okeeps_def)

lemma listen_more_on:
  fixes ctx ctx' :: "'a on_ctx_scheme"
  assumes "listen_ctx.more ctx' = listen_ctx.more ctx"
  shows "on_reg ctx' = on_reg ctx" "on_ctx.more ctx' = on_ctx.more ctx"
  using assms by (cases ctx; cases ctx'; simp)+

lemma okeeps_lkeeps: "lkeeps ctx ctx' \<Longrightarrow> (reg_inv ctx \<Longrightarrow> listen_wf ctx' \<and> masked_covered ctx') \<Longrightarrow> okeeps ctx ctx'"
  using listen_more_on [of ctx' ctx] by (auto simp: okeeps_def lkeeps_def reg_inv_def)

text \<open>Changes that concern the subscriptions only.\<close>

lemma okeeps_on_reg:
  assumes "reg_wf os_path (on_reg ctx) \<Longrightarrow> reg_wf os_path reg"
  shows "okeeps ctx (ctx\<lparr>on_reg := reg\<rparr>)"
  using assms by (simp add: okeeps_def reg_inv_def listen_wf_def masked_covered_def calm_def)

lemma okeeps_ran [simp, intro]: "okeeps ctx (ran ctx cs ds)"
  by (simp add: okeeps_def reg_inv_def listen_wf_def masked_covered_def calm_def ran_def)

lemma okeeps_runs: "runs app f cs \<Longrightarrow> okeeps ctx (f ctx)"
  unfolding runs_def by (metis okeeps_ran)

lemma okeeps_set_children: "path_canon (os_path sub) \<Longrightarrow> okeeps ctx (set_children_hashes sub hs ctx)"
  unfolding set_children_hashes_def by (intro okeeps_on_reg reg_wf_modify) simp_all

lemma okeeps_set_hash: "path_canon (os_path sub) \<Longrightarrow> okeeps ctx (set_sub_hash sub h ctx)"
  unfolding set_sub_hash_def by (intro okeeps_on_reg reg_wf_modify) simp_all

lemma okeeps_fire: "okeeps ctx (fold (fire_child_event app sub) es ctx)"
  by (rule okeeps_runs [OF runs_fold [of es app "fire_child_event app sub" "event_calls sub", OF runs_event]])

lemma okeeps_gone: "okeeps ctx (fold (\<lambda>(key, h). trigger_on_child_cb_list app sub ON_CHILD_REMOVED None key None) hs ctx)"
  unfolding fire_removed [symmetric] by (rule okeeps_fire)

lemma okeeps_calls: "okeeps ctx (fold (call_or_mark app d k prev) cbs ctx)"
  by (rule okeeps_runs [OF runs_calls])

lemma okeeps_child_trig:
  assumes "path_canon (os_path sub)" "on_child_trig app sub ctx = Inr ctx'"
  shows "okeeps ctx ctx'"
proof -
  obtain v where v: "data_cache_get_parsed (cache ctx) (os_path sub) = Inr v"
    using assms(2) unfolding on_child_trig_def rbind_eq_Inr_iff by blast
  show ?thesis
  proof (cases "\<exists>h t. v = Some (TN_internal h t)")
    case True
    then show ?thesis
      using assms v by (auto simp: on_child_trig_def Let_def case_prod_beta split: if_splits
          intro: okeeps_fire okeeps_trans [OF okeeps_fire okeeps_set_children])
  next
    case False
    then have "ctx' = set_children_hashes sub avl_new (fold (\<lambda>(key, h). trigger_on_child_cb_list app sub ON_CHILD_REMOVED None key None)
        (reg_all (os_children_hashes sub)) ctx)"
      using assms(2) v by (cases v; cases "the v") (auto simp: on_child_trig_def Let_def)
    then show ?thesis using okeeps_trans [OF okeeps_gone okeeps_set_children [OF assms(1)]] by metis
  qed
qed

lemma okeeps_val_trig: "path_canon (os_path sub) \<Longrightarrow> on_val_trig app sub ctx = Inr ctx' \<Longrightarrow> okeeps ctx ctx'"
  by (auto simp: on_val_trig_def rbind_eq_Inr_iff Let_def split: if_splits intro: okeeps_trans [OF okeeps_calls okeeps_set_hash])

lemma okeeps_trig: "path_canon (os_path sub) \<Longrightarrow> trig app sub ctx = Inr ctx' \<Longrightarrow> okeeps ctx ctx'"
  by (auto simp: trig_def rbind_eq_Inr_iff split: if_splits
      intro: okeeps_child_trig okeeps_val_trig okeeps_trans [OF okeeps_child_trig okeeps_val_trig])

lemma okeeps_trig_all: "list_all (\<lambda>s. path_canon (os_path s)) subs \<Longrightarrow> trig_all app subs ctx = Inr ctx' \<Longrightarrow> okeeps ctx ctx'"
  by (induction subs arbitrary: ctx) (auto simp: rbind_eq_Inr_iff intro: okeeps_trans okeeps_trig)

lemma okeeps_trig_above:
  "path_canon p \<Longrightarrow> \<forall>u\<in>set us. u \<le> p_nparts p \<Longrightarrow> trig_above app p us ctx = Inr ctx' \<Longrightarrow> okeeps ctx ctx'"
proof (induction us arbitrary: ctx)
  case (Cons u us)
  obtain ctx1 where 1: "(case reg_get os_path (on_reg ctx) (p\<lparr>p_nparts := u\<rparr>) of None \<Rightarrow> Inr ctx | Some sub \<Rightarrow> trig app sub ctx) = Inr ctx1"
    "trig_above app p us ctx1 = Inr ctx'" using Cons.prems(3) by (auto simp: rbind_eq_Inr_iff)
  have "okeeps ctx ctx1"
  proof (rule okeeps_assume)
    assume "reg_inv ctx"
    then have "path_canon (os_path sub)" if "reg_get os_path (on_reg ctx) (p\<lparr>p_nparts := u\<rparr>) = Some sub" for sub
      using that reg_get_map [of os_path "on_reg ctx" "p\<lparr>p_nparts := u\<rparr>"] path_canon_cut [OF Cons.prems(1), of u] Cons.prems(2)
        reg_map_iff [of os_path "on_reg ctx" _ sub] reg_wf_canon [of os_path "on_reg ctx" sub] by (simp add: reg_inv_def)
    then show "okeeps ctx ctx1" using 1(1) by (auto intro: okeeps_trig split: option.splits)
  qed
  then show ?case using Cons.IH [OF Cons.prems(1) _ 1(2)] Cons.prems(2) by (auto intro: okeeps_trans)
qed simp


lemma remove_cbs_path [simp]: "os_path (remove_cbs m h sub) = os_path sub"
  by (simp add: remove_cbs_def)

lemma okeeps_remove: "path_canon p \<Longrightarrow> okeeps ctx (snd (on_registry_remove ctx p m h))"
  unfolding on_registry_remove_def
  by (auto simp: Let_def split: option.splits intro!: okeeps_on_reg reg_wf_remove reg_wf_modify)

lemma okeeps_unwatch: "path_canon p \<Longrightarrow> wc_datasync_unwatch_ex E ctx p n = Inr ctx' \<Longrightarrow> okeeps ctx ctx'"
  using unwatch_keeps [of ctx p E n ctx'] by (intro okeeps_lkeeps lkeeps_unwatch) (auto simp: reg_inv_def)

lemma okeeps_deleted: "okeeps ctx (ctx\<lparr>deleted_cb_list := hs\<rparr>)"
  by (simp add: okeeps_def reg_inv_def listen_wf_def masked_covered_def calm_def)

lemma okeeps_gc: "deleted_cb_gc_loop E hs ctx = Inr ctx' \<Longrightarrow> okeeps ctx ctx'"
proof (induction hs arbitrary: ctx)
  case (Cons h hs)
  then obtain sub ctx1 where 1: "handle_sub ctx h = Some sub" "wc_datasync_unwatch_ex E ctx (os_path sub) 1 = Inr ctx1"
    "deleted_cb_gc_loop E hs ((snd (on_registry_remove ctx1 (os_path sub) (-1) (Some h)))\<lparr>deleted_cb_list := hs\<rparr>) = Inr ctx'"
    by (auto simp: rbind_eq_Inr_iff split: option.splits)
  show ?case
  proof (rule okeeps_assume)
    assume "reg_inv ctx"
    then have canon: "path_canon (os_path sub)"
      using 1(1) reg_wf_canon [of os_path "on_reg ctx" sub] find_in_set [of _ "avl_elems (on_reg ctx)" sub]
      by (auto simp: reg_inv_def handle_sub_def simp del: set_avl_elems)
    have "okeeps ctx ctx1" using canon 1(2) by (rule okeeps_unwatch)
    also have "okeeps ctx1 (snd (on_registry_remove ctx1 (os_path sub) (-1) (Some h)))" using canon by (rule okeeps_remove)
    also have "okeeps (snd (on_registry_remove ctx1 (os_path sub) (-1) (Some h)))
        ((snd (on_registry_remove ctx1 (os_path sub) (-1) (Some h)))\<lparr>deleted_cb_list := hs\<rparr>)" by (rule okeeps_deleted)
    also have "okeeps \<dots> ctx'" using 1(3) by (rule Cons.IH)
    finally show "okeeps ctx ctx'" .
  qed
qed simp

lemma okeeps_dispatch:
  assumes "path_canon p" "on_registry_dispatch_on_event_ex E app ctx p = Inr ctx'"
  shows "okeeps ctx ctx'"
proof (rule okeeps_assume)
  assume inv: "reg_inv ctx"
  obtain ctx1 ctx2 where 1: "trig_above app p [0..<p_nparts p] ctx = Inr ctx1"
    "trig_all app (takeWhile (\<lambda>sub. wc_datasync_path_starts_with (os_path sub) p) (reg_from os_path (on_reg ctx1) p)) ctx1 = Inr ctx2"
    "deleted_cb_gc E ctx2 = Inr ctx'"
    using assms(2) by (auto simp: on_registry_dispatch_on_event_ex_def rbind_eq_Inr_iff)
  have a: "okeeps ctx ctx1" using assms(1) _ 1(1) by (rule okeeps_trig_above) auto
  then have reg1: "reg_wf os_path (on_reg ctx1)" using inv by (simp add: okeeps_def reg_inv_def)
  then have "list_all (\<lambda>s. path_canon (os_path s)) (takeWhile (\<lambda>sub. wc_datasync_path_starts_with (os_path sub) p) (reg_from os_path (on_reg ctx1) p))"
    using reg_below [OF reg1 assms(1)] reg_wf_canon [OF reg1] by (auto simp: list_all_iff)
  then have "okeeps ctx1 ctx2" using 1(2) by (rule okeeps_trig_all)
  also have "okeeps ctx2 ctx'" using 1(3) unfolding deleted_cb_gc_def by (rule okeeps_gc)
  finally show "okeeps ctx ctx'" by (rule okeeps_trans [OF a])
qed


lemma call_cb_ran: "snd (call_cb app d k prev cb ctx) = ran ctx [the_call d k prev cb] []"
  by (simp add: call_cb_def Let_def ran_def the_call_def)

lemma call_children_ran: "\<exists>cs. call_children app cb ns prev ctx = ran ctx cs []"
proof (induction ns arbitrary: prev ctx)
  case (Cons c ns)
  obtain cs where "call_children app cb (c # ns) prev ctx = ran (snd (call_cb app (treenode_to_json (Some (snd c))) (Some (fst c)) prev cb ctx)) cs []"
    using Cons.IH by (cases c) auto
  then show ?case by (auto simp: call_cb_ran)
qed (auto intro: exI [of _ "[]"])

lemma set_frame [simp]:
  "listen_reg (set_sub_hash sub h ctx) = listen_reg ctx" "listen_reg (set_children_hashes sub hs ctx) = listen_reg ctx"
  "listen_reg (ran ctx cs ds) = listen_reg ctx" "listen_reg (call_children app cb ns prev ctx) = listen_reg ctx"
proof -
  show "listen_reg (call_children app cb ns prev ctx) = listen_reg ctx"
    using call_children_ran [of app cb ns prev ctx] by (auto simp: ran_def)
qed (simp_all add: set_sub_hash_def set_children_hashes_def ran_def)

lemma okeeps_call_children: "okeeps ctx (call_children app cb ns prev ctx)"
  using call_children_ran [of app cb ns prev ctx] by auto

lemma add_cb_path [simp]: "os_path (add_cb ty cb sub) = os_path sub"
  by (simp add: add_cb_def)

lemma initial_calls_keep:
  assumes "path_canon (os_path sub)"
  shows "okeeps ctx (initial_calls app ty sub p_cb snapshot ctx) \<and> listen_reg (initial_calls app ty sub p_cb snapshot ctx) = listen_reg ctx"
proof -
  have "okeeps ctx (set_sub_hash sub h (ran ctx cs ds))" for h cs ds
    by (rule okeeps_trans [OF okeeps_ran okeeps_set_hash [OF assms]])
  moreover have "okeeps ctx (set_children_hashes sub hs (call_children app p_cb ns prev ctx))" for hs ns prev
    by (rule okeeps_trans [OF okeeps_call_children okeeps_set_children [OF assms]])
  ultimately show ?thesis
    unfolding initial_calls_def by (auto simp: call_cb_ran split: on_event_type.splits option.splits treenode.splits)
qed

lemma okeeps_next_handle: "okeeps ctx (ctx\<lparr>next_handle := n\<rparr>)"
  by (simp add: okeeps_def reg_inv_def listen_wf_def masked_covered_def calm_def)

lemma registered_sub_wf:
  assumes "watchable path" "reg_wf os_path reg" "registered_sub reg ty (wc_datasync_path_new path) p_cb = (sub, reg')"
  shows "reg_wf os_path reg' \<and> path_canon (os_path sub)"
proof (cases "reg_get os_path reg (wc_datasync_path_new path)")
  case None
  then show ?thesis
    using assms watchable_path(4) [OF assms(1)] by (auto simp: registered_sub_def Let_def intro!: reg_wf_insert)
next
  case (Some tmp)
  have canon: "path_canon (wc_datasync_path_new path)" using watchable_path(2) [OF assms(1)] .
  have "path_canon (os_path tmp)"
    using Some reg_get_map [OF assms(2) canon] reg_map_iff [OF assms(2), of _ tmp] reg_wf_canon [OF assms(2), of tmp] by simp
  then show ?thesis
    using Some assms(3) reg_wf_modify [OF assms(2) canon, of "add_cb ty p_cb"] by (auto simp: registered_sub_def)
qed

lemma okeeps_on_registry_add:
  assumes "watchable path" "on_registry_add app ctx ty path cb = Inr (h, ctx')"
  shows "okeeps ctx ctx' \<and> (reg_inv ctx \<longrightarrow> listen_reg ctx' = listen_reg ctx)"
proof -
  let ?cb = "\<lparr>cb_handle = next_handle ctx, cb_fn = cb\<rparr>"
  obtain sub reg where r: "registered_sub (on_reg ctx) ty (wc_datasync_path_new path) ?cb = (sub, reg)" by fastforce
  let ?c = "ctx\<lparr>on_reg := reg, next_handle := next_handle ctx + 1\<rparr>"
  obtain snapshot where ctx': "ctx' = initial_calls app ty sub ?cb snapshot ?c"
    using assms(2) by (auto simp: on_registry_add_def Let_def r rbind_eq_Inr_iff)
  have "okeeps ctx (ctx\<lparr>on_reg := reg\<rparr>)" using registered_sub_wf [OF assms(1) _ r] by (intro okeeps_on_reg) simp
  then have "okeeps ctx ?c" using okeeps_trans [OF _ okeeps_next_handle [of "ctx\<lparr>on_reg := reg\<rparr>"]] by simp
  moreover have "okeeps ?c ctx' \<and> listen_reg ctx' = listen_reg ?c" if "reg_inv ctx"
    unfolding ctx' using that registered_sub_wf [OF assms(1) _ r] by (intro initial_calls_keep) (simp add: reg_inv_def)
  ultimately show ?thesis by (auto intro: okeeps_assume okeeps_trans)
qed

lemma okeeps_on:
  assumes "watchable path" "listen_refs ctx (path_parts (wc_datasync_path_new path)) < 2 ^ 32 - 1"
    "wc_datasync_on E app ty ctx path cb = Inr (h, ctx')"
  shows "okeeps ctx ctx'"
proof (rule okeeps_assume)
  assume inv: "reg_inv ctx"
  obtain ctx1 where 1: "on_registry_add app ctx ty path cb = Inr (h, ctx1)" "ctx' = wc_datasync_watch E ctx1 path"
    using assms(3) by (auto simp: wc_datasync_on_def rbind_eq_Inr_iff)
  have add: "okeeps ctx ctx1" "listen_reg ctx1 = listen_reg ctx" using okeeps_on_registry_add [OF assms(1) 1(1)] inv by auto
  then have refs: "listen_refs ctx1 (path_parts (wc_datasync_path_new path)) < 2 ^ 32 - 1" using assms(2) by (simp add: listen_refs_def)
  have "okeeps ctx1 ctx'"
    unfolding 1(2) using watch_keeps [OF _ _ assms(1), of ctx1 E] refs_not_max [OF refs] by (intro okeeps_lkeeps lkeeps_watch) (auto simp: reg_inv_def)
  with add(1) show "okeeps ctx ctx'" by (rule okeeps_trans)
qed

lemma okeeps_off:
  assumes "watchable path" "wc_datasync_off_w E ctx path m h = Inr ctx'"
  shows "okeeps ctx ctx'"
proof -
  have "wc_datasync_unwatch_ex E (snd (on_registry_remove ctx (wc_datasync_path_new path) m h)) (wc_datasync_path_new path)
      (word_of_nat (fst (on_registry_remove ctx (wc_datasync_path_new path) m h))) = Inr ctx'"
    using assms(2) by (simp add: wc_datasync_off_w_def Let_def case_prod_beta)
  then show ?thesis
    using okeeps_trans [OF okeeps_remove okeeps_unwatch] watchable_path(2) [OF assms(1)] by metis
qed

lemma okeeps_request: "okeeps ctx (snd (DEFINE_REQ_FUNC E ctx r cb u))"
  by (intro okeeps_lkeeps lkeeps_request) (simp add: reg_inv_def listen_wf_def masked_covered_def)


section \<open>The connection as a state machine\<close>

text \<open>
  How far libwebsockets is with the connection. It calls back a connection error only before
  the connection is established, and data or the end of the connection only afterwards.
\<close>

datatype lws_phase = Idle | Connecting | Open

text \<open>Whether the application's event loop has a keepalive timer, after the given events.\<close>

definition timer_event :: "bool \<Rightarrow> wc_event \<Rightarrow> bool" where
  "timer_event armed ev = (case ev of
      WC_EVENT_SET_TIMER ta \<Rightarrow> armed \<or> ta_timer ta = WC_TIMER_DATASYNC_KEEPALIVE
    | WC_EVENT_DEL_TIMER t \<Rightarrow> armed \<and> t \<noteq> WC_TIMER_DATASYNC_KEEPALIVE
    | _ \<Rightarrow> armed)"

definition keepalive_armed :: "wc_event list \<Rightarrow> bool" where
  "keepalive_armed evs = foldl timer_event False evs"

text \<open>The message that a received buffer completes; updates concern paths an application can watch.\<close>

definition received :: "'tok webcom_env \<Rightarrow> 'tok webcom_ctx \<Rightarrow> string \<Rightarrow> wc_msg option" where
  "received E ctx buf =
     (case fst (wc_datasync_parse_msg_ex (env_print (env_sdk E)) (env_parse_ex E)
          (Some (case parser ctx of None \<Rightarrow> wc_datasync_parser_new (env_tok_new E) | Some p \<Rightarrow> p)) buf) of
        WC_PARSER_OK msg \<Rightarrow> Some msg
      | _ \<Rightarrow> None)"

fun msg_watchable :: "wc_msg \<Rightarrow> bool" where
  "msg_watchable (WC_MSG_DATA (WC_DATA_MSG_PUSH (Update_put path data))) = watchable path"
| "msg_watchable (WC_MSG_DATA (WC_DATA_MSG_PUSH (Update_merge path data))) = watchable path"
| "msg_watchable _ = True"

text \<open>
  The steps: calls of the application, timers, and callbacks of libwebsockets. Paths are those
  an application can watch; a step in which the library would fail is not taken.
\<close>

inductive webcom_step :: "'tok webcom_env \<Rightarrow> lws_phase \<times> 'tok webcom_ctx \<Rightarrow> lws_phase \<times> 'tok webcom_ctx \<Rightarrow> bool" for E where
  step_connect: "webcom_step E (ph, ctx) (ph, wc_datasync_connect E ctx)"
| step_close: "webcom_step E (ph, ctx) (ph, wc_datasync_close_cnx ctx)"
| step_reconnect_timer: "datasync_init ctx \<Longrightarrow> wc_dispatch_timer_event E ctx WC_TIMER_DATASYNC_RECONNECT = Inr ctx' \<Longrightarrow>
    webcom_step E (ph, ctx) (if cnx_state ctx = WC_CNX_STATE_DISCONNECTED then Connecting else ph, ctx')"
| step_keepalive_timer: "keepalive_armed (events ctx) \<Longrightarrow> wc_dispatch_timer_event E ctx WC_TIMER_DATASYNC_KEEPALIVE = Inr ctx' \<Longrightarrow>
    webcom_step E (ph, ctx) (ph, ctx')"
| step_auth_timer: "wc_dispatch_timer_event E ctx WC_TIMER_AUTH = Inr ctx' \<Longrightarrow> webcom_step E (ph, ctx) (ph, ctx')"
| step_fd: "wc_dispatch_fd_event E ctx pa = Inr ctx' \<Longrightarrow> webcom_step E (ph, ctx) (ph, ctx')"
| step_sign_in: "wc_auth_with_password E (host ctx) (port ctx) (app_name ctx) email password (auth ctx, events ctx) = Inr (r, a, evs) \<Longrightarrow>
    webcom_step E (ph, ctx) (ph, ctx\<lparr>auth := a, events := evs\<rparr>)"
| step_established: "wc_lws_callback E tv tv' LWS_CALLBACK_CLIENT_ESTABLISHED ctx = Inr (r, ctx') \<Longrightarrow>
    webcom_step E (Connecting, ctx) (Open, ctx')"
| step_error: "wc_lws_callback E tv tv' (LWS_CALLBACK_CLIENT_CONNECTION_ERROR msg) ctx = Inr (r, ctx') \<Longrightarrow>
    webcom_step E (Connecting, ctx) (Idle, ctx')"
| step_receive: "wc_lws_callback E tv tv' (LWS_CALLBACK_CLIENT_RECEIVE buf) ctx = Inr (r, ctx') \<Longrightarrow>
    (\<And>msg. received E ctx buf = Some msg \<Longrightarrow> msg_watchable msg) \<Longrightarrow>
    webcom_step E (Open, ctx) (Open, ctx')"
| step_closed: "wc_lws_callback E tv tv' LWS_CALLBACK_CLOSED ctx = Inr (r, ctx') \<Longrightarrow>
    webcom_step E (Open, ctx) (Idle, ctx')"
| step_writeable: "wc_lws_callback E tv tv' LWS_CALLBACK_CLIENT_WRITEABLE ctx = Inr (r, ctx') \<Longrightarrow>
    webcom_step E (ph, ctx) (ph, ctx')"
| step_on: "datasync_init ctx \<Longrightarrow> watchable path \<Longrightarrow>
    listen_refs ctx (path_parts (wc_datasync_path_new path)) < 2 ^ 32 - 1 \<Longrightarrow>
    wc_datasync_on (env_sdk E) (app_on_data E) ty ctx path cb = Inr (h, ctx') \<Longrightarrow>
    webcom_step E (ph, ctx) (ph, ctx')"
| step_off: "datasync_init ctx \<Longrightarrow> watchable path \<Longrightarrow> wc_datasync_off_w (env_sdk E) ctx path m h = Inr ctx' \<Longrightarrow>
    webcom_step E (ph, ctx) (ph, ctx')"
| step_request: "webcom_step E (ph, ctx) (ph, snd (DEFINE_REQ_FUNC (env_sdk E) ctx req (map_option App_callback cb) user))"


section \<open>Invariants of the connection\<close>

definition backoff_ok :: "32 word \<Rightarrow> bool" where
  "backoff_ok w \<longleftrightarrow> w \<in> {0, 1, 2, 4, 8, 16, 32, 64, 128, 256}"

definition delay_ok :: "wc_event \<Rightarrow> bool" where
  "delay_ok ev \<longleftrightarrow> (case ev of
      WC_EVENT_SET_TIMER ta \<Rightarrow> (case ta_timer ta of
          WC_TIMER_DATASYNC_RECONNECT \<Rightarrow> ta_ms ta \<in> {0..256000} \<and> \<not> ta_repeat ta
        | WC_TIMER_DATASYNC_KEEPALIVE \<Rightarrow> ta_ms ta = 50000 \<and> ta_repeat ta
        | WC_TIMER_AUTH \<Rightarrow> True)
    | _ \<Rightarrow> True)"

definition conn_inv :: "lws_phase \<Rightarrow> 'tok webcom_ctx \<Rightarrow> bool" where
  "conn_inv ph ctx \<longleftrightarrow> reg_inv ctx \<and> (ph = Idle \<longleftrightarrow> cnx_state ctx = WC_CNX_STATE_DISCONNECTED) \<and>
     (cnx_state ctx = WC_CNX_STATE_CONNECTED \<longrightarrow> ph = Open) \<and> (keepalive_armed (events ctx) \<longrightarrow> ph = Open) \<and>
     (ph \<noteq> Open \<longrightarrow> calm ctx) \<and> (datasync_init ctx \<or> ph = Idle) \<and>
     backoff_ok (ws_next_reconnect_timer ctx) \<and> list_all delay_ok (events ctx)"

lemma conn_inv_parts:
  "conn_inv ph ctx \<Longrightarrow> reg_inv ctx" "conn_inv ph ctx \<Longrightarrow> ph \<noteq> Open \<Longrightarrow> cnx_state ctx \<noteq> WC_CNX_STATE_CONNECTED"
  by (auto simp: conn_inv_def)

lemma on_more_webcom:
  fixes ctx ctx' :: "'tok webcom_ctx"
  assumes "on_ctx.more ctx' = on_ctx.more ctx"
  shows "events ctx' = events ctx" "ws_next_reconnect_timer ctx' = ws_next_reconnect_timer ctx" "datasync_init ctx' = datasync_init ctx"
    "parser ctx' = parser ctx"
  using assms by (cases ctx; cases ctx'; simp)+

lemma conn_inv_okeeps:
  fixes ctx ctx' :: "'tok webcom_ctx"
  assumes "conn_inv ph ctx" "okeeps ctx ctx'"
  shows "conn_inv ph ctx' \<and> (ph \<noteq> Open \<longrightarrow> ws_sent ctx' = ws_sent ctx)"
  using assms on_more_webcom [of ctx' ctx] by (auto simp: conn_inv_def okeeps_def)

lemmas ctx_view = conn_inv_def reg_inv_def listen_wf_def masked_covered_def calm_def

lemma armed_snoc: "keepalive_armed (evs @ [ev]) = timer_event (keepalive_armed evs) ev"
  by (simp add: keepalive_armed_def)

text \<open>An event that does not concern the timers.\<close>

lemma conn_inv_notify:
  "conn_inv ph ctx \<Longrightarrow> delay_ok ev \<Longrightarrow> (\<And>b. timer_event b ev \<Longrightarrow> b \<or> ph = Open) \<Longrightarrow> conn_inv ph (notify E ev ctx)"
  by (auto simp: ctx_view callback_def armed_snoc)

lemma conn_inv_lws [simp]: "conn_inv ph (lws c ctx) = conn_inv ph ctx"
  by (simp add: ctx_view lws_def)

lemma conn_inv_parser [simp]: "conn_inv ph (ctx\<lparr>parser := p\<rparr>) = conn_inv ph ctx"
  by (simp add: ctx_view)

lemma backoff_delay: "backoff_ok w \<Longrightarrow> uint (1000 * w) \<in> {0..256000}"
  by (auto simp: backoff_ok_def)

lemma backoff_double: "backoff_ok w \<Longrightarrow> w < 256 \<Longrightarrow> backoff_ok (push_bit 1 w)"
  by (auto simp: backoff_ok_def)

lemma schedule_keeps:
  assumes "conn_inv ph ctx"
  shows "conn_inv ph (wc_datasync_schedule_reconnect E ctx)" "ws_sent (wc_datasync_schedule_reconnect E ctx) = ws_sent ctx"
proof -
  have "backoff_ok (ws_next_reconnect_timer ctx)" using assms by (simp add: conn_inv_def)
  then show "conn_inv ph (wc_datasync_schedule_reconnect E ctx)"
    using assms backoff_delay backoff_double
    by (auto simp: wc_datasync_schedule_reconnect_def Let_def callback_def ctx_view armed_snoc timer_event_def delay_ok_def)
qed (simp add: wc_datasync_schedule_reconnect_def Let_def callback_def)


text \<open>The end of a connection.\<close>

lemma lkeeps_suspend: "lkeeps ctx (wc_listen_suspend_all ctx)"
  unfolding wc_listen_suspend_all_def by (rule lkeeps_fold) (auto intro: lkeeps_set_status)

lemma suspend_calm:
  assumes "listen_wf ctx"
  shows "calm (wc_listen_suspend_all ctx)"
proof -
  have d: "distinct (reg_all (listen_reg ctx))" "set (reg_all (listen_reg ctx)) \<subseteq> set (avl_elems (listen_reg ctx))"
    using assms reg_wf_distinct [of li_path "listen_reg ctx"] by (simp_all add: reg_all_elems listen_wf_def)
  have "avl_elems (listen_reg (wc_listen_suspend_all ctx)) = map (restatus suspended) (avl_elems (listen_reg ctx))"
    using pass_result(1) [OF assms suspend_step d] by (simp add: wc_listen_suspend_all_def reg_all_elems)
  then show ?thesis by (auto simp: calm_def restatus_def suspended_def simp del: set_avl_elems)
qed

lemma suspended_inv:
  fixes ctx :: "'tok webcom_ctx"
  assumes "reg_inv ctx" "cnx_state ctx = WC_CNX_STATE_DISCONNECTED" "\<not> keepalive_armed (events ctx)"
    "backoff_ok (ws_next_reconnect_timer ctx)" "list_all delay_ok (events ctx)"
  shows "conn_inv Idle (wc_listen_suspend_all ctx)" "ws_sent (wc_listen_suspend_all ctx) = ws_sent ctx"
proof -
  note k = lkeeps_suspend [of ctx, unfolded lkeeps_def]
  note more = listen_more_on [OF conjunct1 [OF conjunct2 [OF k]]]
  show "conn_inv Idle (wc_listen_suspend_all ctx)"
    using assms k more(1) on_more_webcom [OF more(2)] suspend_keeps [of ctx] suspend_calm [of ctx]
    by (auto simp: conn_inv_def reg_inv_def)
  show "ws_sent (wc_listen_suspend_all ctx) = ws_sent ctx" using k assms(2) by simp
qed

lemma reconnect_inv:
  assumes "conn_inv ph ctx" "delay_ok ev" "\<And>b. timer_event b ev = b"
  shows "conn_inv ph (if fst (callback E ev ctx) then wc_datasync_schedule_reconnect E (notify E ev ctx) else notify E ev ctx)"
    "ws_sent (if fst (callback E ev ctx) then wc_datasync_schedule_reconnect E (notify E ev ctx) else notify E ev ctx) = ws_sent ctx"
proof -
  have "conn_inv ph (notify E ev ctx)" using assms by (intro conn_inv_notify) simp_all
  from schedule_keeps [OF this, of E] this show
    "conn_inv ph (if fst (callback E ev ctx) then wc_datasync_schedule_reconnect E (notify E ev ctx) else notify E ev ctx)"
    "ws_sent (if fst (callback E ev ctx) then wc_datasync_schedule_reconnect E (notify E ev ctx) else notify E ev ctx) = ws_sent ctx"
    by (auto simp: callback_def)
qed

lemma error_inv:
  assumes "conn_inv Connecting ctx" "wc_lws_callback E tv tv' (LWS_CALLBACK_CLIENT_CONNECTION_ERROR msg) ctx = Inr (r, ctx')"
  shows "conn_inv Idle ctx' \<and> ws_sent ctx' = ws_sent ctx"
proof -
  let ?c = "ctx\<lparr>cnx_state := WC_CNX_STATE_DISCONNECTED\<rparr>"
  have "conn_inv Idle (wc_listen_suspend_all ?c)" "ws_sent (wc_listen_suspend_all ?c) = ws_sent ctx"
    using suspended_inv [of ?c] assms(1) by (auto simp: ctx_view)
  moreover have "delay_ok (WC_EVENT_ON_CNX_ERROR msg)" "timer_event b (WC_EVENT_ON_CNX_ERROR msg) = b" for b
    by (simp_all add: delay_ok_def timer_event_def)
  ultimately show ?thesis
    using assms(2) reconnect_inv [of Idle "wc_listen_suspend_all ?c" "WC_EVENT_ON_CNX_ERROR msg" E]
    by (simp add: wc_lws_callback_def Let_def case_prod_beta)
qed

lemma closed_inv:
  assumes "conn_inv Open ctx" "wc_lws_callback E tv tv' LWS_CALLBACK_CLOSED ctx = Inr (r, ctx')"
  shows "conn_inv Idle ctx'"
proof -
  let ?c = "notify E (WC_EVENT_DEL_TIMER WC_TIMER_DATASYNC_KEEPALIVE) (ctx\<lparr>cnx_state := WC_CNX_STATE_DISCONNECTED\<rparr>)"
  have "conn_inv Idle (wc_listen_suspend_all ?c)"
    using suspended_inv(1) [of ?c] assms(1) by (auto simp: ctx_view callback_def armed_snoc timer_event_def delay_ok_def)
  moreover have "delay_ok WC_EVENT_ON_CNX_CLOSED" "timer_event b WC_EVENT_ON_CNX_CLOSED = b" for b
    by (simp_all add: delay_ok_def timer_event_def)
  ultimately show ?thesis
    using assms(2) reconnect_inv(1) [of Idle "wc_listen_suspend_all ?c" WC_EVENT_ON_CNX_CLOSED E]
    by (simp add: wc_lws_callback_def Let_def case_prod_beta)
qed

text \<open>Messages.\<close>

lemma fold_preserves: "(\<And>x c. g (f x c) = g c) \<Longrightarrow> g (fold f xs c) = g c"
  by (induction xs arbitrary: c) simp_all

lemma send_listen_more: "listen_ctx.more (send_listen E li ctx) = listen_ctx.more ctx"
  by (simp add: send_listen_def set_status_def wc_datasync_listen_def DEFINE_REQ_FUNC_def wc_datasync_next_reqnum_def
      wc_datasync_send_msg_def Let_def)

lemma resume_frame: "listen_ctx.more (wc_listen_resume_all E ctx) = listen_ctx.more ctx"
  "cnx_state (wc_listen_resume_all E ctx) = cnx_state ctx"
  unfolding wc_listen_resume_all_def by (rule fold_preserves, simp add: send_listen_more)+

lemma handshake_inv:
  assumes "conn_inv Open ctx"
  shows "conn_inv Open (process_handshake E tv tv' ctx msg h)"
proof -
  define ctx1 where "ctx1 = ctx\<lparr>pids := (pids ctx)\<lparr>rand_buffer := env_srand48 E (sint (wc_datasync_now tv))\<rparr>,
    cnx_state := WC_CNX_STATE_CONNECTED, time_offset := wc_datasync_now tv' - word_of_int (h_ts h), stamp := stamp ctx + 1\<rparr>"
  define ctx2 where "ctx2 = wc_listen_resume_all (env_sdk E) ctx1"
  have 1: "conn_inv Open ctx1" using assms by (auto simp: ctx1_def ctx_view)
  have more: "listen_ctx.more ctx2 = listen_ctx.more ctx1" unfolding ctx2_def by (rule resume_frame)
  have "conn_inv Open ctx2"
    using 1 resume_keeps [of ctx1 "env_sdk E"] resume_frame(2) [of "env_sdk E" ctx1] listen_more_on [OF more]
      on_more_webcom [OF listen_more_on(2) [OF more]] by (auto simp: conn_inv_def reg_inv_def ctx2_def)
  then have "conn_inv Open (notify E (WC_EVENT_ON_SERVER_HANDSHAKE msg) ctx2)"
    by (rule conn_inv_notify) (simp_all add: delay_ok_def)
  then have "conn_inv Open ((notify E (WC_EVENT_ON_SERVER_HANDSHAKE msg) ctx2)\<lparr>ws_next_reconnect_timer := 1\<rparr>)"
    by (simp add: ctx_view backoff_ok_def)
  then have "conn_inv Open (notify E (WC_EVENT_SET_TIMER \<lparr>ta_ms = 50000, ta_timer = WC_TIMER_DATASYNC_KEEPALIVE, ta_repeat = True\<rparr>)
      ((notify E (WC_EVENT_ON_SERVER_HANDSHAKE msg) ctx2)\<lparr>ws_next_reconnect_timer := 1\<rparr>))"
    by (rule conn_inv_notify) (simp_all add: delay_ok_def)
  then show ?thesis by (simp add: process_handshake_def Let_def ctx2_def ctx1_def)
qed

lemma update_inv:
  assumes "conn_inv Open ctx" "watchable path" "process_update E set_data ctx path data = Inr ctx'"
  shows "conn_inv Open ctx'"
proof -
  obtain c where "on_registry_dispatch_on_event_ex (env_sdk E) (app_on_data E) (ctx\<lparr>cache := c\<rparr>) (wc_datasync_path_new path) = Inr ctx'"
    using assms(3) by (auto simp: process_update_def rbind_eq_Inr_iff on_registry_dispatch_on_event_def)
  then have "okeeps (ctx\<lparr>cache := c\<rparr>) ctx'" by (rule okeeps_dispatch [OF watchable_path(2) [OF assms(2)]])
  moreover have "conn_inv Open (ctx\<lparr>cache := c\<rparr>)" using assms(1) by (simp add: ctx_view)
  ultimately show ?thesis using conn_inv_okeeps by blast
qed

lemma response_inv:
  assumes "conn_inv Open ctx" "wc_datasync_req_response_dispatch invoke_req ctx r = Inr ctx'"
  shows "conn_inv Open ctx'"
proof -
  let ?c = "\<lambda>t. ctx\<lparr>pending_req_table := t\<rparr>"
  have table: "conn_inv Open (?c t)" for t using assms(1) by (simp add: ctx_view)
  have listen: "conn_inv Open ctx'" if r: "on_listen_result st user (?c t) = Inr ctx'" for st user t
  proof -
    obtain li where li: "ctx' = set_status (if st = WC_REQ_OK then LISTEN_ACTIVE else LISTEN_FAILED) li (?c t)"
      using r by (auto simp: on_listen_result_def split: option.splits)
    then have more: "listen_ctx.more ctx' = listen_ctx.more (?c t)" "cnx_state ctx' = cnx_state (?c t)" by (simp_all add: set_status_def)
    show ?thesis
      using table [of t] result_keeps [OF _ _ r] more(2) listen_more_on [OF more(1)] on_more_webcom [OF listen_more_on(2) [OF more(1)]]
      by (auto simp: conn_inv_def reg_inv_def)
  qed
  have req: "conn_inv Open ((?c t)\<lparr>events := events ctx @ [Req_result n rid ty st re d u]\<rparr>)" for t n rid ty st re d u
    using table [of t] by (auto simp: ctx_view armed_snoc timer_event_def delay_ok_def)
  show ?thesis
    using assms(2) table listen req
    by (auto simp: wc_datasync_req_response_dispatch_def Let_def case_prod_beta invoke_req_def split: option.splits req_callback.splits)
qed


lemma message_inv:
  assumes "conn_inv Open ctx" "msg_watchable msg" "wc_datasync_process_message E tv tv' ctx msg = Inr ctx'"
  shows "conn_inv Open ctx'"
proof -
  obtain ctx1 where 1: "(case msg of
         WC_MSG_CTRL (WC_CTRL_MSG_HANDSHAKE h) \<Rightarrow> Inr (process_handshake E tv tv' ctx msg h)
       | WC_MSG_DATA (WC_DATA_MSG_PUSH (Update_put path data)) \<Rightarrow> process_update E data_cache_set ctx path data
       | WC_MSG_DATA (WC_DATA_MSG_PUSH (Update_merge path data)) \<Rightarrow> process_update E data_cache_merge ctx path data
       | WC_MSG_DATA (WC_DATA_MSG_RESPONSE r) \<Rightarrow> wc_datasync_req_response_dispatch invoke_req ctx r
       | _ \<Rightarrow> Inr ctx) = Inr ctx1" "ctx' = notify E (WC_EVENT_ON_MSG_RECEIVED msg) ctx1"
    using assms(3) unfolding wc_datasync_process_message_def rbind_eq_Inr_iff by auto
  have "conn_inv Open ctx1"
    using 1(1) assms(1,2)
    by (auto split: wc_msg.splits wc_ctrl_msg.splits wc_data_msg.splits wc_push.splits intro: handshake_inv update_inv response_inv)
  then show ?thesis unfolding 1(2) by (rule conn_inv_notify) (simp_all add: delay_ok_def)
qed

lemma receive_inv:
  assumes "conn_inv Open ctx" "\<And>msg. received E ctx buf = Some msg \<Longrightarrow> msg_watchable msg"
    "wc_lws_callback E tv tv' (LWS_CALLBACK_CLIENT_RECEIVE buf) ctx = Inr (r, ctx')"
  shows "conn_inv Open ctx'"
proof -
  have "conn_inv Open ctx'" if "wc_datasync_process_data E tv tv' ctx buf = Inr ctx'"
  proof -
    let ?p = "case parser ctx of None \<Rightarrow> wc_datasync_parser_new (env_tok_new E) | Some p \<Rightarrow> p"
    obtain res p' al where res: "wc_datasync_parse_msg_ex (env_print (env_sdk E)) (env_parse_ex E) (Some ?p) buf = (res, p', al)"
      by (cases "wc_datasync_parse_msg_ex (env_print (env_sdk E)) (env_parse_ex E) (Some ?p) buf") auto
    show ?thesis
    proof (cases res)
      case (WC_PARSER_OK msg)
      then have "msg_watchable msg" using assms(2) [of msg] res by (simp add: received_def)
      then show ?thesis
        using that WC_PARSER_OK res assms(1) message_inv [of "ctx\<lparr>parser := p'\<rparr>" msg E tv tv']
        by (auto simp: wc_datasync_process_data_def Let_def rbind_eq_Inr_iff split: if_splits)
    qed (use that res assms(1) in \<open>auto simp: wc_datasync_process_data_def Let_def split: if_splits\<close>)
  qed
  then show ?thesis using assms(1,3) by (auto simp: wc_lws_callback_def rbind_eq_Inr_iff split: if_splits)
qed

lemma connect_inv:
  assumes "conn_inv ph ctx"
  shows "conn_inv ph (wc_datasync_connect E ctx)" "ws_sent (wc_datasync_connect E ctx) = ws_sent ctx"
proof -
  let ?c = "if \<not> datasync_init ctx then wc_datasync_init ctx else ctx"
  have "conn_inv ph ?c" "ws_sent ?c = ws_sent ctx"
    using assms by (auto simp: ctx_view wc_datasync_init_def Let_def on_registry_new_def listen_registry_new_def simp del: set_avl_elems)
  then show "conn_inv ph (wc_datasync_connect E ctx)" "ws_sent (wc_datasync_connect E ctx) = ws_sent ctx"
    using schedule_keeps [of ph ?c E] by (simp_all add: wc_datasync_connect_def Let_def)
qed

text \<open>The events of the authentication service do not concern the connection.\<close>

lemma auth_event_timer: "auth_event ev \<Longrightarrow> timer_event b ev = b" "auth_event ev \<Longrightarrow> delay_ok ev"
  by (cases ev; auto simp: timer_event_def delay_ok_def)+

lemma auth_events_timer: "list_all auth_event evs \<Longrightarrow> foldl timer_event b evs = b"
  by (induction evs arbitrary: b) (auto simp: auth_event_timer)

lemma tells_auth_inv:
  assumes "conn_inv ph ctx" "tells_auth (events ctx) evs"
  shows "conn_inv ph (ctx\<lparr>auth := a, events := evs\<rparr>)"
proof -
  obtain new where evs: "evs = events ctx @ new" and new: "list_all auth_event new" using assms(2) by (auto simp: tells_auth_def)
  have "list_all delay_ok new" using new by (auto simp: list_all_iff auth_event_timer)
  then show ?thesis using assms(1) by (auto simp: evs ctx_view keepalive_armed_def auth_events_timer [OF new])
qed

lemma auth_conn_inv:
  assumes "conn_inv ph ctx" "on_auth (wc_auth_service E fd) ctx = Inr ctx'"
  shows "conn_inv ph ctx'"
  using assms(2) tells_auth_inv [OF assms(1)] service_tells by (fastforce simp: on_auth_def rbind_eq_Inr_iff)

lemma on_auth_sent: "on_auth f ctx = Inr ctx' \<Longrightarrow> ws_sent ctx' = ws_sent ctx"
  by (auto simp: on_auth_def rbind_eq_Inr_iff)

lemma step_inv:
  assumes "webcom_step E (ph, ctx) (ph', ctx')" "conn_inv ph ctx"
  shows "conn_inv ph' ctx' \<and> (ph \<noteq> Open \<longrightarrow> ws_sent ctx' = ws_sent ctx)"
  using assms(1)
proof cases
  case step_connect
  then show ?thesis using connect_inv [OF assms(2), of E] by simp
next
  case step_close
  then show ?thesis using assms(2) by (auto simp: wc_datasync_close_cnx_def lws_def ctx_view)
next
  case (step_reconnect_timer)
  then show ?thesis
    using assms(2) by (auto simp: wc_dispatch_timer_event_def wc_datasync_do_connect_def lws_def ctx_view)
next
  case step_keepalive_timer
  then show ?thesis using assms(2) by (auto simp: wc_dispatch_timer_event_def wc_datasync_keepalive_def ctx_view)
next
  case step_auth_timer
  then show ?thesis using assms(2) auth_conn_inv [OF assms(2)] on_auth_sent by (fastforce simp: wc_dispatch_timer_event_def)
next
  case (step_fd pa)
  then show ?thesis using assms(2) auth_conn_inv [OF assms(2)]
    by (auto simp: wc_dispatch_fd_event_def wc_datasync_service_socket_def lws_def ctx_view on_auth_sent split: wc_pollsrc.splits)
next
  case (step_sign_in email password r a evs)
  then show ?thesis using tells_auth_inv [OF assms(2)] with_password_tells by fastforce
next
  case (step_established tv tv' r)
  then show ?thesis using assms(2) by (auto simp: wc_lws_callback_def conn_inv_def)
next
  case (step_error tv tv' msg r)
  then show ?thesis using error_inv [of ctx E tv tv' msg r ctx'] assms(2) by simp
next
  case (step_receive tv tv' buf r)
  then show ?thesis using receive_inv [of ctx E buf tv tv' r ctx'] assms(2) by simp
next
  case (step_closed tv tv' r)
  then show ?thesis using closed_inv [of ctx E tv tv' r ctx'] assms(2) by simp
next
  case (step_writeable tv tv' r)
  then show ?thesis using assms(2) by (auto simp: wc_lws_callback_def)
next
  case (step_on path ty cb h)
  then show ?thesis using conn_inv_okeeps [OF assms(2) okeeps_on] by simp
next
  case (step_off path m h)
  then show ?thesis using conn_inv_okeeps [OF assms(2) okeeps_off] by simp
next
  case (step_request req cb user)
  then show ?thesis using conn_inv_okeeps [OF assms(2) okeeps_request] by simp
qed

section \<open>Properties\<close>

lemma create_inv: "conn_inv Idle (wc_context_create options)"
  by (simp add: ctx_view wc_context_create_def listen_registry_new_def on_registry_new_def backoff_ok_def keepalive_armed_def del: set_avl_elems)

lemma reachable_inv:
  assumes "(webcom_step E)\<^sup>*\<^sup>* (Idle, wc_context_create options) s"
  shows "conn_inv (fst s) (snd s)"
  using assms
proof (induction rule: rtranclp_induct)
  case base
  then show ?case by (simp add: create_inv)
next
  case (step s s')
  then show ?case using step_inv [of E "fst s" "snd s" "fst s'" "snd s'"] by simp
qed

text \<open>
  Claim C2: in every state that can be reached from a new context the library is disconnected
  exactly when libwebsockets has no connection, connected only when it is open, and a keepalive
  timer only exists while it is open; outside an open connection no listen request is active or
  pending, and no step writes a frame. The listen registry is well formed, every masked path is
  covered, and every delay asked for before a reconnection is at most 256 seconds.
\<close>

theorem connection_invariant:
  assumes "(webcom_step E)\<^sup>*\<^sup>* (Idle, wc_context_create options) (ph, ctx)"
  shows "(ph = Idle \<longleftrightarrow> cnx_state ctx = WC_CNX_STATE_DISCONNECTED) \<and>
    (cnx_state ctx = WC_CNX_STATE_CONNECTED \<longrightarrow> ph = Open) \<and> (keepalive_armed (events ctx) \<longrightarrow> ph = Open) \<and>
    (ph \<noteq> Open \<longrightarrow> calm ctx \<and> (\<forall>ph' ctx'. webcom_step E (ph, ctx) (ph', ctx') \<longrightarrow> ws_sent ctx' = ws_sent ctx)) \<and>
    listen_wf ctx \<and> masked_covered ctx \<and> list_all delay_ok (events ctx)"
proof -
  have inv: "conn_inv ph ctx" using reachable_inv [OF assms] by simp
  then show ?thesis
    using step_inv [OF _ inv, of E] by (auto simp: conn_inv_def reg_inv_def)
qed

text \<open>Libraries and an application that answers yes to everything.\<close>

definition sample_webcom_env :: "json webcom_env" where
  "sample_webcom_env = \<lparr>env_parse_ex = one_doc, env_tok_new = JNull, env_json_plain = (\<lambda>_. []),
     curl_add = (\<lambda>_. []), curl_action = (\<lambda>_ _. ([], 1)), curl_remove = (\<lambda>_. []), curl_easy_escape = (\<lambda>s. s),
     curl_garbage = 0, env_sdk = sample_env, env_srand48 = (\<lambda>n. n), app_callback = (\<lambda>_ _. True), app_on_data = (\<lambda>_ _. True)\<rparr>"

definition sample_options :: wc_context_options where
  "sample_options = \<lparr>o_app_name = ''legorange'', o_host = ''io.datasync.orange.com'', o_port = 443, o_no_tls = 0\<rparr>"

definition connecting_ctx :: "json webcom_ctx" where
  "connecting_ctx = wc_datasync_do_connect (wc_datasync_connect sample_webcom_env (wc_context_create sample_options))"

lemma connecting_reach: "(webcom_step sample_webcom_env)\<^sup>*\<^sup>* (Idle, wc_context_create sample_options) (Connecting, connecting_ctx)"
proof -
  let ?c = "wc_datasync_connect sample_webcom_env (wc_context_create sample_options)"
  have "webcom_step sample_webcom_env (Idle, wc_context_create sample_options) (Idle, ?c)" by (rule step_connect)
  moreover have "datasync_init ?c" "cnx_state ?c = WC_CNX_STATE_DISCONNECTED" by code_simp+
  then have "webcom_step sample_webcom_env (Idle, ?c) (Connecting, connecting_ctx)"
    using step_reconnect_timer [of ?c sample_webcom_env _ Idle] by (simp add: connecting_ctx_def wc_dispatch_timer_event_def)
  ultimately show ?thesis by auto
qed

theorem connection_invariant_witness:
  "(webcom_step sample_webcom_env)\<^sup>*\<^sup>* (Idle, wc_context_create sample_options) (Connecting, connecting_ctx) \<and>
   calm connecting_ctx \<and> listen_wf connecting_ctx"
  using connecting_reach connection_invariant [OF connecting_reach] by simp

definition reconnect_timer :: "int \<Rightarrow> wc_event" where
  "reconnect_timer s = WC_EVENT_SET_TIMER \<lparr>ta_ms = 1000 * s, ta_timer = WC_TIMER_DATASYNC_RECONNECT, ta_repeat = False\<rparr>"

lemma schedule_events:
  "events (wc_datasync_schedule_reconnect E ctx) =
     events ctx @ [WC_EVENT_SET_TIMER \<lparr>ta_ms = uint (1000 * ws_next_reconnect_timer ctx), ta_timer = WC_TIMER_DATASYNC_RECONNECT, ta_repeat = False\<rparr>]"
  "ws_next_reconnect_timer (wc_datasync_schedule_reconnect E ctx) =
     (if ws_next_reconnect_timer ctx < 256 then push_bit 1 (ws_next_reconnect_timer ctx) else ws_next_reconnect_timer ctx)"
  by (simp_all add: wc_datasync_schedule_reconnect_def Let_def callback_def)





definition update_env :: "json webcom_env" where
  "update_env = sample_webcom_env\<lparr>env_sdk := sample_env\<lparr>env_tokener := (\<lambda>_. Some sample_doc)\<rparr>\<rparr>"

definition update_ctx :: "json webcom_ctx" where
  "update_ctx = (wc_context_create sample_options)\<lparr>on_reg := on_reg sample_sub_ctx, cache := cache sample_sub_ctx\<rparr>"


subsection \<open>Listens resumed by a handshake\<close>

definition needs_listen :: "listen_item \<Rightarrow> bool" where
  "needs_listen li \<longleftrightarrow> li_status li = LISTEN_REQUIRED \<or> li_status li = LISTEN_PENDING"

definition listen_frame :: "sdk_env \<Rightarrow> 64 word \<Rightarrow> listen_item \<Rightarrow> string" where
  "listen_frame E rid li = wc_datasync_msg_to_json_str (env_print E) (env_tokener E)
     (WC_MSG_DATA (WC_DATA_MSG_ACTION \<lparr>a_r = sint rid, a_u = Listen (wc_datasync_path_to_str (li_path li))\<rparr>))"

lemma send_listen_sent:
  "cnx_state ctx = WC_CNX_STATE_CONNECTED \<Longrightarrow> ws_sent (send_listen E li ctx) = ws_sent ctx @ [listen_frame E (last_req ctx + 1) li] \<and>
     last_req (send_listen E li ctx) = last_req ctx + 1"
  by (simp add: send_listen_def set_status_def wc_datasync_listen_def DEFINE_REQ_FUNC_def wc_datasync_next_reqnum_def
      wc_datasync_send_msg_def Let_def listen_frame_def)

lemma enumerate_Suc_map: "enumerate (Suc n) xs = map (\<lambda>(i, x). (Suc i, x)) (enumerate n xs)"
  by (induction xs arbitrary: n) auto

lemma resume_sent:
  assumes "cnx_state ctx = WC_CNX_STATE_CONNECTED"
  shows "ws_sent (fold (\<lambda>li ctx. if li_status li = LISTEN_REQUIRED \<or> li_status li = LISTEN_PENDING then send_listen E li ctx else ctx) lis ctx) =
    ws_sent ctx @ map (\<lambda>(i, li). listen_frame E (last_req ctx + 1 + word_of_nat i) li) (enumerate 0 (filter needs_listen lis))"
  using assms
proof (induction lis arbitrary: ctx)
  case (Cons li lis)
  show ?case
  proof (cases "needs_listen li")
    case True
    have "enumerate (Suc 0) xs = map (\<lambda>(i, x). (Suc i, x)) (enumerate 0 xs)" for xs :: "listen_item list"
      by (rule enumerate_Suc_map)
    moreover have "cnx_state (send_listen E li ctx) = WC_CNX_STATE_CONNECTED" using Cons.prems by simp
    ultimately show ?thesis
      using True Cons.IH [of "send_listen E li ctx"] send_listen_sent [OF Cons.prems, of E li]
      by (auto simp: needs_listen_def case_prod_beta comp_def algebra_simps)
  next
    case False
    then show ?thesis using Cons by (simp add: needs_listen_def)
  qed
qed (simp add: enumerate_simps)

definition watching_ctx :: "json webcom_ctx" where
  "watching_ctx = wc_datasync_watch sample_env (wc_context_create sample_options) ''/a''"

text \<open>
  Claim C14: on the handshake of the server the library is connected and asks again for
  everything it watches: one listen request is sent for each path of the registry that needs
  one, in the order of the registry and numbered on from the last request, and exactly these
  paths are left pending.
\<close>

theorem handshake_resumes_listens:
  assumes "listen_wf ctx" and ctx'_def: "ctx' = process_handshake E tv tv' ctx msg h"
  shows "cnx_state ctx' = WC_CNX_STATE_CONNECTED \<and>
    ws_sent ctx' = ws_sent ctx @
      map (\<lambda>(i, li). listen_frame (env_sdk E) (last_req ctx + 1 + word_of_nat i) li)
        (enumerate 0 (filter needs_listen (reg_all (listen_reg ctx)))) \<and>
    reg_all (listen_reg ctx') = map (\<lambda>li. if needs_listen li then li\<lparr>li_status := LISTEN_PENDING\<rparr> else li) (reg_all (listen_reg ctx))"
proof -
  define ctx1 where "ctx1 = ctx\<lparr>pids := (pids ctx)\<lparr>rand_buffer := env_srand48 E (sint (wc_datasync_now tv))\<rparr>,
    cnx_state := WC_CNX_STATE_CONNECTED, time_offset := wc_datasync_now tv' - word_of_int (h_ts h), stamp := stamp ctx + 1\<rparr>"
  define ctx2 where "ctx2 = wc_listen_resume_all (env_sdk E) ctx1"
  have same: "cnx_state ctx1 = WC_CNX_STATE_CONNECTED" "listen_reg ctx1 = listen_reg ctx" "ws_sent ctx1 = ws_sent ctx" "last_req ctx1 = last_req ctx"
    by (simp_all add: ctx1_def)
  have wf: "listen_wf ctx1" using assms(1) by (simp add: ctx1_def listen_wf_def)
  have d: "distinct (reg_all (listen_reg ctx1))" "set (reg_all (listen_reg ctx1)) \<subseteq> set (avl_elems (listen_reg ctx1))"
    using wf reg_wf_distinct [of li_path "listen_reg ctx1"] by (simp_all add: reg_all_elems listen_wf_def)
  have "avl_elems (listen_reg ctx2) = map (restatus resumed) (avl_elems (listen_reg ctx))"
    using pass_result(1) [OF wf resume_step d] same by (simp add: ctx2_def wc_listen_resume_all_def reg_all_elems)
  then have "avl_elems (listen_reg ctx2) = map (\<lambda>li. if needs_listen li then li\<lparr>li_status := LISTEN_PENDING\<rparr> else li) (avl_elems (listen_reg ctx))"
    by (simp add: restatus_def resumed_def needs_listen_def)
  moreover have "ws_sent ctx2 = ws_sent ctx @ map (\<lambda>(i, li). listen_frame (env_sdk E) (last_req ctx + 1 + word_of_nat i) li)
        (enumerate 0 (filter needs_listen (reg_all (listen_reg ctx))))"
    using resume_sent [OF same(1)] same by (simp add: ctx2_def wc_listen_resume_all_def)
  moreover have "cnx_state ctx' = cnx_state ctx2" "ws_sent ctx' = ws_sent ctx2" "listen_reg ctx' = listen_reg ctx2"
    by (simp_all add: ctx'_def process_handshake_def Let_def callback_def ctx2_def ctx1_def)
  moreover have "cnx_state ctx2 = WC_CNX_STATE_CONNECTED" using same(1) by (simp add: ctx2_def resume_frame(2))
  ultimately show ?thesis by (simp add: reg_all_elems)
qed

theorem handshake_resumes_listens_witness:
  "length (ws_sent (process_handshake sample_webcom_env (0, 0) (0, 0) watching_ctx
     (WC_MSG_CTRL (WC_CTRL_MSG_HANDSHAKE \<lparr>h_ts = 0, h_server = ''s'', h_version = ''5''\<rparr>)) \<lparr>h_ts = 0, h_server = ''s'', h_version = ''5''\<rparr>)) = 1"
proof -
  let ?c = "wc_context_create sample_options :: json webcom_ctx"
  have "listen_wf ?c" "masked_covered ?c" "listen_items ?c ps = None" for ps
    by (simp_all add: wc_context_create_def listen_registry_new_def listen_wf_def masked_covered_def del: set_avl_elems)
  then have wf: "listen_wf watching_ctx"
    using watch_keeps [of ?c "''/a''" sample_env] watchable_sample(1) by (simp add: watching_ctx_def)
  have "map needs_listen (reg_all (listen_reg watching_ctx)) = [True]" "ws_sent watching_ctx = []" by code_simp+
  then have "length (filter needs_listen (reg_all (listen_reg watching_ctx))) = 1" by (cases "reg_all (listen_reg watching_ctx)") auto
  then show ?thesis
    using handshake_resumes_listens [OF wf refl, of sample_webcom_env "(0, 0)" "(0, 0)"] \<open>ws_sent watching_ctx = []\<close> by simp
qed

end
