(* ===== verification/Libev.thy ===== *)
theory Libev
  imports Connection
begin

text \<open>
  The integration with libev (\<^verbatim>\<open>lib/libev.c\<close>): the events of the library start and
  stop the watchers of the loop, and the watchers call the library back. A watcher is the
  arguments it was started with while it is active. Initialising a watcher that is active is
  forbidden by libev, an \<open>ApiMisuse\<close>. Delays are in milliseconds.
\<close>

section \<open>State\<close>

text \<open>Which of the application's callbacks are given, and what they answer after earlier calls.\<close>

datatype eli_call =
    On_connected
  | On_disconnected
  | On_error "32 word" string
  | On_auth_error c_pointer
  | On_auth_success wc_auth_info

record wc_eli_callbacks =
  has_on_connected :: bool
  has_on_disconnected :: bool
  has_on_error :: bool
  has_on_auth_error :: bool
  has_on_auth_success :: bool
  eli_answer :: "eli_call list \<Rightarrow> eli_call \<Rightarrow> int"

record libev_data =
  lid_callbacks :: wc_eli_callbacks
  fd_watcher :: "wc_pollsrc \<Rightarrow> (int \<times> int) option"
  timer_events :: "wc_timersrc \<Rightarrow> (int \<times> int) option"
  next_try :: "32 word"
  eli_calls :: "eli_call list"

definition POLLERR :: int where "POLLERR = 8"

definition POLLHUP :: int where "POLLHUP = 16"

definition WC_POLLHUP :: int where "WC_POLLHUP = or POLLHUP POLLERR"

definition EV_READ :: int where "EV_READ = 1"

definition EV_WRITE :: int where "EV_WRITE = 2"

section \<open>The watchers call the library\<close>

definition wc_on_fd_event_libev_cb :: "'tok webcom_env \<Rightarrow> libev_data \<Rightarrow> wc_pollsrc \<Rightarrow> int \<Rightarrow> 'tok webcom_ctx \<Rightarrow> 'tok webcom_ctx res" where
  "wc_on_fd_event_libev_cb E lid src revents ctx = (case fd_watcher lid src of
      None \<Rightarrow> Inr ctx
    | Some (fd, watched) \<Rightarrow>
        let pa = \<lparr>pa_fd = fd,
                  pa_events = or (if and revents EV_READ \<noteq> 0 then POLLIN else 0) (if and revents EV_WRITE \<noteq> 0 then POLLOUT else 0),
                  pa_src = src\<rparr>
        in wc_dispatch_fd_event E ctx pa)"

text \<open>A timer that does not repeat is not active any more when it calls back.\<close>

definition timer_fired :: "wc_timersrc \<Rightarrow> libev_data \<Rightarrow> libev_data" where
  "timer_fired t lid = (case timer_events lid t of
      Some (ms, repeat) \<Rightarrow> if repeat = 0 then lid\<lparr>timer_events := (timer_events lid)(t := None)\<rparr> else lid
    | None \<Rightarrow> lid)"

definition wc_on_timer_libev_cb :: "'tok webcom_env \<Rightarrow> wc_timersrc \<Rightarrow> 'tok webcom_ctx \<Rightarrow> 'tok webcom_ctx res" where
  "wc_on_timer_libev_cb E timer ctx = wc_dispatch_timer_event E ctx timer"

section \<open>The library calls the integration\<close>

definition ev_mask :: "int \<Rightarrow> int" where
  "ev_mask evs = or (if and evs (or POLLIN WC_POLLHUP) \<noteq> 0 then EV_READ else 0) (if and evs POLLOUT \<noteq> 0 then EV_WRITE else 0)"

definition ev_io_init_start :: "wc_pollargs \<Rightarrow> libev_data \<Rightarrow> libev_data res" where
  "ev_io_init_start pa lid =
     (if fd_watcher lid (pa_src pa) \<noteq> None then Inl ApiMisuse
      else Inr (lid\<lparr>fd_watcher := (fd_watcher lid)(pa_src pa \<mapsto> (pa_fd pa, ev_mask (pa_events pa)))\<rparr>))"

definition ev_io_stop :: "wc_pollsrc \<Rightarrow> libev_data \<Rightarrow> libev_data" where
  "ev_io_stop src lid = lid\<lparr>fd_watcher := (fd_watcher lid)(src := None)\<rparr>"

definition ev_timer_init_start :: "wc_timerargs \<Rightarrow> libev_data \<Rightarrow> libev_data res" where
  "ev_timer_init_start ta lid =
     (if timer_events lid (ta_timer ta) \<noteq> None then Inl ApiMisuse
      else Inr (lid\<lparr>timer_events := (timer_events lid)(ta_timer ta \<mapsto> (ta_ms ta, if ta_repeat ta then ta_ms ta else 0))\<rparr>))"

definition ev_timer_stop :: "wc_timersrc \<Rightarrow> libev_data \<Rightarrow> libev_data" where
  "ev_timer_stop t lid = lid\<lparr>timer_events := (timer_events lid)(t := None)\<rparr>"

text \<open>\<^verbatim>\<open>CALLBACK_SAFE_INT\<close> and \<^verbatim>\<open>CALLBACK_SAFE_VOID\<close>.\<close>

definition callback_safe :: "(wc_eli_callbacks \<Rightarrow> bool) \<Rightarrow> eli_call \<Rightarrow> libev_data \<Rightarrow> int \<times> libev_data" where
  "callback_safe has c lid =
     (if has (lid_callbacks lid)
      then (eli_answer (lid_callbacks lid) (eli_calls lid) c, lid\<lparr>eli_calls := eli_calls lid @ [c]\<rparr>)
      else (0, lid))"

definition wc_libev_cb :: "wc_event \<Rightarrow> libev_data \<Rightarrow> (int \<times> libev_data) res" where
  "wc_libev_cb event lid = (case event of
      WC_EVENT_ADD_FD pollargs \<Rightarrow> rbind (ev_io_init_start pollargs lid) (\<lambda>lid. Inr (0, lid))
    | WC_EVENT_DEL_FD pollargs \<Rightarrow> Inr (0, ev_io_stop (pa_src pollargs) lid)
    | WC_EVENT_MODIFY_FD pollargs \<Rightarrow> rbind (ev_io_init_start pollargs (ev_io_stop (pa_src pollargs) lid)) (\<lambda>lid. Inr (0, lid))
    | WC_EVENT_ON_SERVER_HANDSHAKE msg \<Rightarrow> Inr (0, snd (callback_safe has_on_connected On_connected lid))
    | WC_EVENT_ON_CNX_CLOSED \<Rightarrow> Inr (callback_safe has_on_disconnected On_disconnected lid)
    | WC_EVENT_ON_CNX_ERROR data \<Rightarrow> Inr (callback_safe has_on_error (On_error (next_try lid) data) lid)
    | WC_EVENT_SET_TIMER timerargs \<Rightarrow> rbind (ev_timer_init_start timerargs lid) (\<lambda>lid. Inr (0, lid))
    | WC_EVENT_DEL_TIMER wctimer \<Rightarrow> Inr (0, if timer_events lid wctimer \<noteq> None then ev_timer_stop wctimer lid else lid)
    | WC_AUTH_ON_AUTH_REPLY ai \<Rightarrow>
        (case ai_error ai of
           Unset \<Rightarrow> Inl Uninitialised
         | Null \<Rightarrow> Inr (0, snd (callback_safe has_on_auth_success (On_auth_success ai) lid))
         | err \<Rightarrow> Inr (0, snd (callback_safe has_on_auth_error (On_auth_error err) lid)))
    | _ \<Rightarrow> Inr (0, lid))"

definition new_libev_data :: "wc_eli_callbacks \<Rightarrow> libev_data" where
  "new_libev_data callbacks =
     \<lparr>lid_callbacks = callbacks, fd_watcher = (\<lambda>_. None), timer_events = (\<lambda>_. None), next_try = 0, eli_calls = []\<rparr>"

definition wc_context_create_with_libev :: "wc_context_options \<Rightarrow> wc_eli_callbacks \<Rightarrow> 'tok webcom_ctx \<times> libev_data" where
  "wc_context_create_with_libev options callbacks = (wc_context_create options, new_libev_data callbacks)"

section \<open>The loop follows the library\<close>

text \<open>What happens to the watchers: an event of the library, or a timer that fires.\<close>

datatype loop_input = Lib_event wc_event | Timer_fired wc_timersrc

fun libev_run :: "loop_input list \<Rightarrow> libev_data \<Rightarrow> libev_data res" where
  "libev_run [] lid = Inr lid"
| "libev_run (Lib_event ev # ins) lid = rbind (wc_libev_cb ev lid) (\<lambda>(r, lid). libev_run ins lid)"
| "libev_run (Timer_fired t # ins) lid = libev_run ins (timer_fired t lid)"

fun lib_events :: "loop_input list \<Rightarrow> wc_event list" where
  "lib_events [] = []"
| "lib_events (Lib_event ev # ins) = ev # lib_events ins"
| "lib_events (Timer_fired t # ins) = lib_events ins"

definition ka_armed :: "libev_data \<Rightarrow> bool" where
  "ka_armed lid \<longleftrightarrow> (\<exists>ms. timer_events lid WC_TIMER_DATASYNC_KEEPALIVE = Some (ms, ms) \<and> ms \<noteq> 0)"

definition ka_fine :: "libev_data \<Rightarrow> bool" where
  "ka_fine lid \<longleftrightarrow> timer_events lid WC_TIMER_DATASYNC_KEEPALIVE = None \<or> ka_armed lid"

lemma callback_safe_timers [simp]: "timer_events (snd (callback_safe has c lid)) = timer_events lid"
  by (simp add: callback_safe_def)

lemma libev_cb_ka:
  assumes "wc_libev_cb ev lid = Inr (r, lid')" "ka_fine lid" "delay_ok ev"
  shows "ka_fine lid' \<and> ka_armed lid' = timer_event (ka_armed lid) ev"
proof (cases ev)
  case (WC_EVENT_SET_TIMER ta)
  then show ?thesis using assms
    by (cases "ta_timer ta") (auto simp: wc_libev_cb_def ev_timer_init_start_def rbind_eq_Inr_iff ka_fine_def ka_armed_def timer_event_def delay_ok_def split: if_splits)
next
  case (WC_EVENT_DEL_TIMER t)
  then show ?thesis using assms
    by (cases t) (auto simp: wc_libev_cb_def ev_timer_stop_def ka_fine_def ka_armed_def timer_event_def split: if_splits)
next
  case (WC_AUTH_ON_AUTH_REPLY ai)
  then have "timer_events lid' = timer_events lid" using assms(1) by (auto simp: wc_libev_cb_def split: c_pointer.splits)
  then show ?thesis using assms(2) WC_AUTH_ON_AUTH_REPLY by (simp add: ka_fine_def ka_armed_def timer_event_def)
next
  case (WC_EVENT_ON_CNX_ERROR data)
  then have "timer_events lid' = timer_events lid" using assms(1) by (auto simp: wc_libev_cb_def callback_safe_def split: if_splits)
  then show ?thesis using assms(2) WC_EVENT_ON_CNX_ERROR by (simp add: ka_fine_def ka_armed_def timer_event_def)
next
  case WC_EVENT_ON_CNX_CLOSED
  then have "timer_events lid' = timer_events lid" using assms(1) by (auto simp: wc_libev_cb_def callback_safe_def split: if_splits)
  then show ?thesis using assms(2) WC_EVENT_ON_CNX_CLOSED by (simp add: ka_fine_def ka_armed_def timer_event_def)
qed (use assms in \<open>auto simp: wc_libev_cb_def ev_io_init_start_def ev_io_stop_def rbind_eq_Inr_iff ka_fine_def ka_armed_def timer_event_def split: if_splits\<close>)

lemma timer_fired_ka: "ka_fine lid \<Longrightarrow> ka_fine (timer_fired t lid) \<and> ka_armed (timer_fired t lid) = ka_armed lid"
  by (auto simp: ka_fine_def ka_armed_def timer_fired_def split: option.splits)

lemma libev_run_ka:
  "libev_run ins lid = Inr lid' \<Longrightarrow> ka_fine lid \<Longrightarrow> list_all delay_ok (lib_events ins) \<Longrightarrow>
   ka_fine lid' \<and> ka_armed lid' = foldl timer_event (ka_armed lid) (lib_events ins)"
proof (induction ins lid rule: libev_run.induct)
  case (2 ev ins lid)
  then obtain r lid1 where "wc_libev_cb ev lid = Inr (r, lid1)" "libev_run ins lid1 = Inr lid'" by (auto simp: rbind_eq_Inr_iff)
  then show ?case using 2 libev_cb_ka [of ev lid r lid1] by auto
qed (auto simp: timer_fired_ka)

text \<open>
  Claim C27: when libev is driven by the events of a context, in any interleaving with its own
  timers, a keepalive timer is active in the loop exactly when the library has asked for one
  and not cancelled it; so it is only active while the connection is open.
\<close>

theorem loop_keepalive_follows_connection:
  assumes "(webcom_step E)\<^sup>*\<^sup>* (Idle, wc_context_create options) (ph, ctx)"
    and "libev_run ins (new_libev_data callbacks) = Inr lid" "lib_events ins = events ctx"
  shows "(timer_events lid WC_TIMER_DATASYNC_KEEPALIVE \<noteq> None) = keepalive_armed (events ctx) \<and>
    (timer_events lid WC_TIMER_DATASYNC_KEEPALIVE \<noteq> None \<longrightarrow> ph = Open)"
proof -
  have inv: "conn_inv ph ctx" using reachable_inv [OF assms(1)] by simp
  have "ka_fine (new_libev_data callbacks)" "\<not> ka_armed (new_libev_data callbacks)"
    by (simp_all add: ka_fine_def ka_armed_def new_libev_data_def)
  then have "ka_fine lid" "ka_armed lid = keepalive_armed (events ctx)"
    using libev_run_ka [OF assms(2)] inv assms(3) by (auto simp: conn_inv_def keepalive_armed_def)
  then show ?thesis using inv by (auto simp: ka_fine_def ka_armed_def conn_inv_def)
qed

definition silent_callbacks :: wc_eli_callbacks where
  "silent_callbacks = \<lparr>has_on_connected = False, has_on_disconnected = False, has_on_error = False, has_on_auth_error = False,
     has_on_auth_success = False, eli_answer = (\<lambda>_ _. 0)\<rparr>"

theorem loop_keepalive_follows_connection_witness:
  "\<exists>lid. libev_run [Lib_event (reconnect_timer 0), Timer_fired WC_TIMER_DATASYNC_RECONNECT] (new_libev_data silent_callbacks) = Inr lid \<and>
     timer_events lid WC_TIMER_DATASYNC_KEEPALIVE = None"
proof -
  let ?ins = "[Lib_event (reconnect_timer 0), Timer_fired WC_TIMER_DATASYNC_RECONNECT]"
  have ev: "events connecting_ctx = [reconnect_timer 0]" by code_simp
  have "\<exists>lid. libev_run ?ins (new_libev_data silent_callbacks) = Inr lid"
    by (simp add: wc_libev_cb_def ev_timer_init_start_def new_libev_data_def reconnect_timer_def)
  then obtain lid where lid: "libev_run ?ins (new_libev_data silent_callbacks) = Inr lid" by blast
  have "\<not> keepalive_armed [reconnect_timer 0]" by (simp add: keepalive_armed_def timer_event_def reconnect_timer_def)
  then have "timer_events lid WC_TIMER_DATASYNC_KEEPALIVE = None"
    using loop_keepalive_follows_connection [OF connecting_reach lid] unfolding ev by (metis lib_events.simps)
  with lid show ?thesis by blast
qed

text \<open>
  A timer that is set again before it fired, as cURL asks for when it only changes its delay,
  is initialised while active.
\<close>

lemma timer_set_twice:
  "rbind (wc_libev_cb (WC_EVENT_SET_TIMER \<lparr>ta_ms = a, ta_timer = t, ta_repeat = r\<rparr>) (new_libev_data cbs))
     (\<lambda>(r, lid). wc_libev_cb (WC_EVENT_SET_TIMER \<lparr>ta_ms = b, ta_timer = t, ta_repeat = r'\<rparr>) lid) = Inl ApiMisuse"
  by (simp add: wc_libev_cb_def ev_timer_init_start_def new_libev_data_def)

text \<open>Two sockets of cURL share one watcher.\<close>

lemma two_sockets_one_watcher:
  "rbind (wc_libev_cb (WC_EVENT_ADD_FD \<lparr>pa_fd = a, pa_events = x, pa_src = s\<rparr>) (new_libev_data cbs))
     (\<lambda>(r, lid). wc_libev_cb (WC_EVENT_ADD_FD \<lparr>pa_fd = b, pa_events = y, pa_src = s\<rparr>) lid) = Inl ApiMisuse"
  by (simp add: wc_libev_cb_def ev_io_init_start_def new_libev_data_def)

end
