(* ===== verification/Other_Loops.thy ===== *)
theory Other_Loops
  imports Libev
begin

text \<open>
  The integrations with libevent and libuv (\<^verbatim>\<open>lib/libevent.c\<close>, \<^verbatim>\<open>lib/libuv.c\<close>): the
  callback that follows the events of the library, with its timers for keepalives and
  reconnections. Both were written for an earlier interface of the library, in which the
  application decides on reconnections and the integration schedules them; the connection
  service now does both. They keep the delay before the next attempt in \<open>next_try\<close>.
\<close>

section \<open>State\<close>

text \<open>
  The structures that a library keeps for the program: never set (the memory is not cleared),
  set but not active, or active. Setting up an active one again is forbidden.
\<close>

datatype 'a slot = Slot_unset | Slot_idle 'a | Slot_active 'a

text \<open>
  A watcher is its descriptor and what it waits for, a timer its delay and its period, in
  seconds (libevent) or milliseconds (libuv).
\<close>

datatype poll_flag = Readable | Writable | Persist | Disconnect

record loop_data =
  ld_callbacks :: wc_eli_callbacks
  con_watcher :: "(int \<times> poll_flag list) slot"
  ka_timer :: "(int \<times> int) slot"
  recon_timer :: "(int \<times> int) slot"
  ld_next_try :: "32 word"
  ld_calls :: "eli_call list"

definition assign :: "'a \<Rightarrow> 'a slot \<Rightarrow> 'a slot res" where
  "assign x s = (case s of Slot_active y \<Rightarrow> Inl ApiMisuse | _ \<Rightarrow> Inr (Slot_active x))"

definition event_del :: "'a slot \<Rightarrow> 'a slot res" where
  "event_del s = (case s of Slot_unset \<Rightarrow> Inl Uninitialised | Slot_idle x \<Rightarrow> Inr (Slot_idle x) | Slot_active x \<Rightarrow> Inr (Slot_idle x))"

text \<open>The callbacks are called without a test.\<close>

definition ld_call :: "(wc_eli_callbacks \<Rightarrow> bool) \<Rightarrow> eli_call \<Rightarrow> loop_data \<Rightarrow> (int \<times> loop_data) res" where
  "ld_call has c ld =
     (if has (ld_callbacks ld)
      then Inr (eli_answer (ld_callbacks ld) (ld_calls ld) c, ld\<lparr>ld_calls := ld_calls ld @ [c]\<rparr>)
      else Inl NullDeref)"

definition new_loop_data :: "wc_eli_callbacks \<Rightarrow> loop_data" where
  "new_loop_data callbacks =
     \<lparr>ld_callbacks = callbacks, con_watcher = Slot_unset, ka_timer = Slot_unset, recon_timer = Slot_unset,
      ld_next_try = 0, ld_calls = []\<rparr>"

definition grow_next_try :: "32 word \<Rightarrow> 32 word" where
  "grow_next_try n = (if n = 0 then 1 else if n < 128 then push_bit 1 n else n)"

text \<open>Both callbacks end alike; only the unit of the delay differs.\<close>

definition reconnect_or_reset :: "int \<Rightarrow> int \<Rightarrow> loop_data \<Rightarrow> loop_data res" where
  "reconnect_or_reset delay reconnect ld =
     (if reconnect \<noteq> 0
      then rbind (assign (delay, 0) (recon_timer ld)) (\<lambda>t.
        Inr (ld\<lparr>ld_next_try := grow_next_try (ld_next_try ld), recon_timer := t\<rparr>))
      else Inr (ld\<lparr>ld_next_try := 0\<rparr>))"

section \<open>libevent\<close>

definition libevent_flags :: "int \<Rightarrow> poll_flag list" where
  "libevent_flags evs =
     (if and evs (or POLLIN WC_POLLHUP) \<noteq> 0 then [Readable] else []) @ (if and evs POLLOUT \<noteq> 0 then [Writable] else []) @ [Persist]"

definition libevent_watch :: "wc_pollargs \<Rightarrow> loop_data \<Rightarrow> loop_data res" where
  "libevent_watch pa ld =
     rbind (assign (pa_fd pa, libevent_flags (pa_events pa)) (con_watcher ld)) (\<lambda>w. Inr (ld\<lparr>con_watcher := w\<rparr>))"

definition wc_libevent_switch :: "wc_event \<Rightarrow> loop_data \<Rightarrow> (int \<times> loop_data) res" where
  "wc_libevent_switch event ld = (case event of
      WC_EVENT_ADD_FD pa \<Rightarrow> rbind (libevent_watch pa ld) (\<lambda>ld. Inr (0, ld))
    | WC_EVENT_DEL_FD pa \<Rightarrow> rbind (event_del (con_watcher ld)) (\<lambda>w. Inr (0, ld\<lparr>con_watcher := w\<rparr>))
    | WC_EVENT_MODIFY_FD pa \<Rightarrow>
        rbind (event_del (con_watcher ld)) (\<lambda>w. rbind (libevent_watch pa (ld\<lparr>con_watcher := w\<rparr>)) (\<lambda>ld. Inr (0, ld)))
    | WC_EVENT_ON_SERVER_HANDSHAKE msg \<Rightarrow>
        rbind (assign (50, 50) (ka_timer ld)) (\<lambda>t. let ld = ld\<lparr>ka_timer := t\<rparr> in
        rbind (if ld_next_try ld \<noteq> 0
               then rbind (event_del (recon_timer ld)) (\<lambda>t. Inr (ld\<lparr>recon_timer := t, ld_next_try := 0\<rparr>))
               else Inr ld) (\<lambda>ld.
        rbind (ld_call has_on_connected On_connected ld) (\<lambda>(r, ld). Inr (0, ld))))
    | WC_EVENT_ON_CNX_CLOSED \<Rightarrow>
        rbind (event_del (ka_timer ld)) (\<lambda>t. ld_call has_on_disconnected On_disconnected (ld\<lparr>ka_timer := t\<rparr>))
    | WC_EVENT_ON_CNX_ERROR data \<Rightarrow> ld_call has_on_error (On_error (ld_next_try ld) data) ld
    | _ \<Rightarrow> Inr (0, ld))"

definition wc_libevent_cb :: "wc_event \<Rightarrow> loop_data \<Rightarrow> loop_data res" where
  "wc_libevent_cb event ld =
     rbind (wc_libevent_switch event ld) (\<lambda>(reconnect, ld). reconnect_or_reset (uint (ld_next_try ld)) reconnect ld)"

section \<open>libuv\<close>

definition libuv_flags :: "int \<Rightarrow> poll_flag list" where
  "libuv_flags evs =
     (if and evs POLLIN \<noteq> 0 then [Readable] else []) @ (if and evs POLLOUT \<noteq> 0 then [Writable] else []) @
     (if and evs WC_POLLHUP \<noteq> 0 then [Disconnect] else [])"

text \<open>\<^verbatim>\<open>uv_poll_start\<close> may be called on an active watcher.\<close>

definition libuv_restart :: "wc_pollargs \<Rightarrow> loop_data \<Rightarrow> loop_data res" where
  "libuv_restart pa ld = (case con_watcher ld of
      Slot_unset \<Rightarrow> Inl Uninitialised
    | Slot_idle (fd, fl) \<Rightarrow> Inr (ld\<lparr>con_watcher := Slot_active (fd, libuv_flags (pa_events pa))\<rparr>)
    | Slot_active (fd, fl) \<Rightarrow> Inr (ld\<lparr>con_watcher := Slot_active (fd, libuv_flags (pa_events pa))\<rparr>))"

definition wc_libuv_switch :: "wc_event \<Rightarrow> loop_data \<Rightarrow> (int \<times> loop_data) res" where
  "wc_libuv_switch event ld = (case event of
      WC_EVENT_ADD_FD pa \<Rightarrow>
        rbind (assign (pa_fd pa, libuv_flags (pa_events pa)) (con_watcher ld)) (\<lambda>w. Inr (0, ld\<lparr>con_watcher := w\<rparr>))
    | WC_EVENT_DEL_FD pa \<Rightarrow> rbind (event_del (con_watcher ld)) (\<lambda>w. Inr (0, ld\<lparr>con_watcher := w\<rparr>))
    | WC_EVENT_MODIFY_FD pa \<Rightarrow> rbind (libuv_restart pa ld) (\<lambda>ld. Inr (0, ld))
    | WC_EVENT_ON_SERVER_HANDSHAKE msg \<Rightarrow>
        rbind (assign (50000, 50000) (ka_timer ld)) (\<lambda>t. let ld = ld\<lparr>ka_timer := t\<rparr> in
        rbind (if ld_next_try ld \<noteq> 0
               then rbind (event_del (recon_timer ld)) (\<lambda>t. Inr (ld\<lparr>recon_timer := t, ld_next_try := 0\<rparr>))
               else Inr ld) (\<lambda>ld.
        rbind (ld_call has_on_connected On_connected ld) (\<lambda>(r, ld). Inr (0, ld))))
    | WC_EVENT_ON_CNX_CLOSED \<Rightarrow>
        rbind (event_del (ka_timer ld)) (\<lambda>t. ld_call has_on_disconnected On_disconnected (ld\<lparr>ka_timer := t\<rparr>))
    | WC_EVENT_ON_CNX_ERROR data \<Rightarrow> ld_call has_on_error (On_error (ld_next_try ld) data) ld
    | _ \<Rightarrow> Inr (0, ld))"

definition wc_libuv_cb :: "wc_event \<Rightarrow> loop_data \<Rightarrow> loop_data res" where
  "wc_libuv_cb event ld =
     rbind (wc_libuv_switch event ld) (\<lambda>(reconnect, ld). reconnect_or_reset (uint (1000 * ld_next_try ld)) reconnect ld)"

section \<open>The delay before a reconnection\<close>

definition recon_fired :: "wc_timersrc \<Rightarrow> loop_data \<Rightarrow> loop_data" where
  "recon_fired t ld = (case (t, recon_timer ld) of
      (WC_TIMER_DATASYNC_RECONNECT, Slot_active x) \<Rightarrow> ld\<lparr>recon_timer := Slot_idle x\<rparr> | _ \<Rightarrow> ld)"

fun loop_run :: "(wc_event \<Rightarrow> loop_data \<Rightarrow> loop_data res) \<Rightarrow> loop_input list \<Rightarrow> loop_data \<Rightarrow> loop_data res" where
  "loop_run cb [] ld = Inr ld"
| "loop_run cb (Lib_event ev # ins) ld = rbind (cb ev ld) (loop_run cb ins)"
| "loop_run cb (Timer_fired t # ins) ld = loop_run cb ins (recon_fired t ld)"

definition ends_attempt :: "wc_event \<Rightarrow> bool" where
  "ends_attempt ev \<longleftrightarrow> ev = WC_EVENT_ON_CNX_CLOSED \<or> (\<exists>data. ev = WC_EVENT_ON_CNX_ERROR data)"

text \<open>No two attempts end without another event in between, such as the descriptor of the second one.\<close>

fun apart :: "bool \<Rightarrow> wc_event list \<Rightarrow> bool" where
  "apart ended [] \<longleftrightarrow> True"
| "apart ended (ev # evs) \<longleftrightarrow> \<not> (ended \<and> ends_attempt ev) \<and> apart (ends_attempt ev) evs"

definition slot_at_once :: "(int \<times> int) slot \<Rightarrow> bool" where
  "slot_at_once s \<longleftrightarrow> (\<forall>d p. s = Slot_active (d, p) \<longrightarrow> d = 0)"

definition at_once :: "loop_data \<Rightarrow> bool" where
  "at_once ld \<longleftrightarrow> slot_at_once (recon_timer ld)"

definition quiet_switch :: "(wc_event \<Rightarrow> loop_data \<Rightarrow> (int \<times> loop_data) res) \<Rightarrow> bool" where
  "quiet_switch f \<longleftrightarrow> (\<forall>ev ld r ld'. f ev ld = Inr (r, ld') \<longrightarrow>
     (ld_next_try ld' = ld_next_try ld \<or> ld_next_try ld' = 0) \<and> (at_once ld \<longrightarrow> at_once ld') \<and> (\<not> ends_attempt ev \<longrightarrow> r = 0))"

lemma ld_call_fields: "ld_call has c ld = Inr (r, ld') \<Longrightarrow> ld_next_try ld' = ld_next_try ld \<and> recon_timer ld' = recon_timer ld"
  by (auto simp: ld_call_def split: if_splits)

lemma event_del_idle: "event_del s = Inr s' \<Longrightarrow> slot_at_once s'"
  by (auto simp: event_del_def slot_at_once_def split: slot.splits)

lemma quiet_libevent: "quiet_switch wc_libevent_switch"
  unfolding quiet_switch_def
proof (intro allI impI)
  fix ev ld r ld' assume "wc_libevent_switch ev ld = Inr (r, ld')"
  then show "(ld_next_try ld' = ld_next_try ld \<or> ld_next_try ld' = 0) \<and> (at_once ld \<longrightarrow> at_once ld') \<and> (\<not> ends_attempt ev \<longrightarrow> r = 0)"
    by (cases ev) (auto simp: wc_libevent_switch_def libevent_watch_def rbind_eq_Inr_iff at_once_def ends_attempt_def Let_def
        dest!: ld_call_fields dest: event_del_idle split: if_splits)
qed

lemma quiet_libuv: "quiet_switch wc_libuv_switch"
  unfolding quiet_switch_def
proof (intro allI impI)
  fix ev ld r ld' assume "wc_libuv_switch ev ld = Inr (r, ld')"
  then show "(ld_next_try ld' = ld_next_try ld \<or> ld_next_try ld' = 0) \<and> (at_once ld \<longrightarrow> at_once ld') \<and> (\<not> ends_attempt ev \<longrightarrow> r = 0)"
    by (cases ev) (auto simp: wc_libuv_switch_def libuv_restart_def rbind_eq_Inr_iff at_once_def ends_attempt_def Let_def
        dest!: ld_call_fields dest: event_del_idle split: if_splits slot.splits)
qed

lemma assigned: "assign x s = Inr t \<Longrightarrow> t = Slot_active x"
  by (auto simp: assign_def split: slot.splits)

lemma loop_step_at_once:
  assumes "quiet_switch f" "rbind (f ev ld) (\<lambda>(r, ld). reconnect_or_reset (uint (u * ld_next_try ld)) r ld) = Inr ld'"
    and "at_once ld" "\<not> ended \<longrightarrow> ld_next_try ld = 0" "\<not> (ended \<and> ends_attempt ev)"
  shows "at_once ld'" "\<not> ends_attempt ev \<longrightarrow> ld_next_try ld' = 0"
proof -
  obtain r ld1 where 1: "f ev ld = Inr (r, ld1)" "reconnect_or_reset (uint (u * ld_next_try ld1)) r ld1 = Inr ld'"
    using assms(2) by (auto simp: rbind_eq_Inr_iff)
  have q: "ld_next_try ld1 = ld_next_try ld \<or> ld_next_try ld1 = 0" "at_once ld1" "\<not> ends_attempt ev \<longrightarrow> r = 0"
    using assms(1) 1(1) assms(3) unfolding quiet_switch_def by blast+
  show "at_once ld'"
  proof (cases "r = 0")
    case False
    then have "ld_next_try ld1 = 0" using q assms(4,5) by auto
    then show ?thesis using 1(2) False by (auto simp: reconnect_or_reset_def rbind_eq_Inr_iff at_once_def slot_at_once_def dest!: assigned)
  qed (use 1 q in \<open>auto simp: reconnect_or_reset_def at_once_def\<close>)
  show "\<not> ends_attempt ev \<longrightarrow> ld_next_try ld' = 0" using 1 q(3) by (auto simp: reconnect_or_reset_def)
qed

definition drives :: "(wc_event \<Rightarrow> loop_data \<Rightarrow> loop_data res) \<Rightarrow> bool" where
  "drives cb \<longleftrightarrow> (\<forall>ev ld ld' ended. cb ev ld = Inr ld' \<longrightarrow> at_once ld \<longrightarrow> (\<not> ended \<longrightarrow> ld_next_try ld = 0) \<longrightarrow>
     \<not> (ended \<and> ends_attempt ev) \<longrightarrow> at_once ld' \<and> (\<not> ends_attempt ev \<longrightarrow> ld_next_try ld' = 0))"

lemma drives_libevent: "drives wc_libevent_cb"
  unfolding drives_def wc_libevent_cb_def using loop_step_at_once [OF quiet_libevent, where u = 1] by auto

lemma drives_libuv: "drives wc_libuv_cb"
  unfolding drives_def wc_libuv_cb_def using loop_step_at_once [OF quiet_libuv, where u = 1000] by auto

lemma recon_fired_at_once: "at_once ld \<Longrightarrow> at_once (recon_fired t ld) \<and> ld_next_try (recon_fired t ld) = ld_next_try ld"
  by (auto simp: recon_fired_def at_once_def slot_at_once_def split: wc_timersrc.splits slot.splits)

lemma loop_run_at_once:
  "drives cb \<Longrightarrow> loop_run cb ins ld = Inr ld' \<Longrightarrow> apart ended (lib_events ins) \<Longrightarrow> at_once ld \<Longrightarrow>
   (\<not> ended \<longrightarrow> ld_next_try ld = 0) \<Longrightarrow> at_once ld'"
proof (induction cb ins ld arbitrary: ended rule: loop_run.induct)
  case (2 cb ev ins ld)
  then obtain ld1 where 1: "cb ev ld = Inr ld1" "loop_run cb ins ld1 = Inr ld'" by (auto simp: rbind_eq_Inr_iff)
  have "at_once ld1 \<and> (\<not> ends_attempt ev \<longrightarrow> ld_next_try ld1 = 0)"
    using 2(2) [unfolded drives_def, rule_format, OF 1(1) 2(5), of ended] 2(4,6) by simp
  then show ?case using 2(1) [OF 1(1) 2(2) 1(2), of "ends_attempt ev"] 2(4) by simp
next
  case (3 cb t ins ld)
  then show ?case using recon_fired_at_once [of ld t] by simp
qed simp

text \<open>
  Claim C38: with libevent and with libuv the delay before a reconnection never grows: as long
  as the library tells anything between two ends of connection attempts, such as the
  descriptor of the second one, the delay is forgotten and every reconnection is immediate.
\<close>

theorem reconnections_at_once:
  assumes "loop_run cb ins (new_loop_data callbacks) = Inr ld" "cb = wc_libevent_cb \<or> cb = wc_libuv_cb"
    and "apart False (lib_events ins)" "recon_timer ld = Slot_active (delay, period)"
  shows "delay = 0"
proof -
  have "drives cb" using assms(2) drives_libevent drives_libuv by blast
  then have "at_once ld" using loop_run_at_once [OF _ assms(1,3)] by (simp add: new_loop_data_def at_once_def slot_at_once_def)
  then show ?thesis using assms(4) by (simp add: at_once_def slot_at_once_def)
qed

definition always_reconnect :: wc_eli_callbacks where
  "always_reconnect = \<lparr>has_on_connected = True, has_on_disconnected = True, has_on_error = True, has_on_auth_error = False,
     has_on_auth_success = False, eli_answer = (\<lambda>_ _. 1)\<rparr>"

definition two_failures :: "loop_input list" where
  "two_failures =
     [Lib_event (WC_EVENT_ADD_FD \<lparr>pa_fd = 5, pa_events = 1, pa_src = WC_POLL_DATASYNC\<rparr>), Lib_event (WC_EVENT_ON_CNX_ERROR ''''),
      Lib_event (WC_EVENT_DEL_FD \<lparr>pa_fd = 5, pa_events = 1, pa_src = WC_POLL_DATASYNC\<rparr>), Timer_fired WC_TIMER_DATASYNC_RECONNECT,
      Lib_event (WC_EVENT_ADD_FD \<lparr>pa_fd = 6, pa_events = 1, pa_src = WC_POLL_DATASYNC\<rparr>), Lib_event (WC_EVENT_ON_CNX_ERROR '''')]"

theorem reconnections_at_once_witness:
  "\<exists>ld delay. loop_run wc_libevent_cb two_failures (new_loop_data always_reconnect) = Inr ld \<and>
     recon_timer ld = Slot_active (delay, 0) \<and> delay = 0"
proof -
  have "\<exists>ld delay. loop_run wc_libevent_cb two_failures (new_loop_data always_reconnect) = Inr ld \<and> recon_timer ld = Slot_active (delay, 0)"
    by (simp add: two_failures_def wc_libevent_cb_def wc_libevent_switch_def libevent_watch_def reconnect_or_reset_def
        new_loop_data_def always_reconnect_def ld_call_def assign_def event_del_def recon_fired_def)
  then obtain ld delay where 1: "loop_run wc_libevent_cb two_failures (new_loop_data always_reconnect) = Inr ld"
    "recon_timer ld = Slot_active (delay, 0)" by blast
  have "apart False (lib_events two_failures)" by (simp add: two_failures_def ends_attempt_def)
  then have "delay = 0" using reconnections_at_once [OF 1(1) _ _ 1(2)] by blast
  then show ?thesis using 1 by blast
qed

text \<open>Only attempts that end one after the other make the delay grow.\<close>

lemma delay_grows:
  "\<exists>ld. loop_run wc_libuv_cb (concat (replicate 3 [Lib_event (WC_EVENT_ON_CNX_ERROR ''''), Timer_fired WC_TIMER_DATASYNC_RECONNECT]))
     (new_loop_data always_reconnect) = Inr ld \<and> recon_timer ld = Slot_idle (2000, 0)"
  by (simp add: numeral_3_eq_3 wc_libuv_cb_def wc_libuv_switch_def reconnect_or_reset_def new_loop_data_def always_reconnect_def
      ld_call_def assign_def recon_fired_def grow_next_try_def)

text \<open>A connection that closes before the handshake stops a timer that was never set up.\<close>

lemma closed_before_handshake:
  "wc_libevent_cb WC_EVENT_ON_CNX_CLOSED (new_loop_data cbs) = Inl Uninitialised"
  "wc_libuv_cb WC_EVENT_ON_CNX_CLOSED (new_loop_data cbs) = Inl Uninitialised"
  by (simp_all add: wc_libevent_cb_def wc_libevent_switch_def wc_libuv_cb_def wc_libuv_switch_def new_loop_data_def event_del_def)

end
