(* ===== verification/Ht.thy ===== *)
theory Ht
  imports Hash "HOL-Library.Multiset"
begin

text \<open>
  The hash table of the collection library (\<^verbatim>\<open>lib/collection/ht.c\<close>). A bucket is the
  list of its chained items. An item that was freed while a pointer of the chain still leads
  to it stays in the list, marked as not live; reading it is a \<open>UseAfterFree\<close>. The hash, the
  comparison and the release functions are fields of the table, as in the code; what is
  released is recorded. Running out of memory is left out.
\<close>

section \<open>Data\<close>

record ('k, 'v) ht_item =
  hi_hash :: wc_hash_t
  hi_key :: 'k
  hi_value :: 'v
  hi_live :: bool

record ('k, 'v) ht_table =
  hash_two_factor :: nat
  ht_count :: "32 word"
  ht_buckets :: "('k, 'v) ht_item list list"
  ht_mask :: wc_hash_t
  key_eq :: "'k \<Rightarrow> 'k \<Rightarrow> bool"
  key_hash :: "'k \<Rightarrow> wc_hash_t"
  has_key_free :: bool
  has_val_free :: bool

datatype ('k, 'v) ht_freed = Freed_key 'k | Freed_val 'v

definition HT_MIN_TWO_FACTOR :: nat where "HT_MIN_TWO_FACTOR = 3"

definition HT_MAX_TWO_FACTOR :: nat where "HT_MAX_TWO_FACTOR = 31"

definition HT_INIT_TWO_FACTOR :: nat where "HT_INIT_TWO_FACTOR = HT_MIN_TWO_FACTOR"

definition pow2 :: "nat \<Rightarrow> 32 word" where
  "pow2 u = push_bit u 1"

definition ht_factor_mask :: "nat \<Rightarrow> wc_hash_t" where
  "ht_factor_mask factor = ucast (pow2 factor) - 1"

definition ht_capacity :: "('k, 'v) ht_table \<Rightarrow> 32 word" where
  "ht_capacity t = pow2 (hash_two_factor t)"

definition ht_bucket_addr :: "('k, 'v) ht_table \<Rightarrow> 'k \<Rightarrow> nat" where
  "ht_bucket_addr t key = unat (and (key_hash t key) (ht_mask t))"

definition ht_is_overloaded :: "('k, 'v) ht_table \<Rightarrow> bool" where
  "ht_is_overloaded t \<longleftrightarrow> hash_two_factor t < HT_MAX_TWO_FACTOR \<and> drop_bit 1 (ht_count t) + ht_count t > ht_capacity t"

definition ht_is_underloaded :: "('k, 'v) ht_table \<Rightarrow> bool" where
  "ht_is_underloaded t \<longleftrightarrow> hash_two_factor t > HT_MIN_TWO_FACTOR \<and> push_bit 1 (ht_count t) < ht_capacity t"

section \<open>Rehashing\<close>

text \<open>Each item of a chain is put in front of its bucket of the new table.\<close>

fun rehash_chain :: "wc_hash_t \<Rightarrow> ('k, 'v) ht_item list \<Rightarrow> ('k, 'v) ht_item list list \<Rightarrow> ('k, 'v) ht_item list list res" where
  "rehash_chain new_mask [] new_table = Inr new_table"
| "rehash_chain new_mask (e # es) new_table =
     (if \<not> hi_live e then Inl UseAfterFree
      else let i = unat (and (hi_hash e) new_mask)
           in rehash_chain new_mask es (new_table[i := e # new_table ! i]))"

fun rehash_chains :: "wc_hash_t \<Rightarrow> ('k, 'v) ht_item list list \<Rightarrow> ('k, 'v) ht_item list list \<Rightarrow> ('k, 'v) ht_item list list res" where
  "rehash_chains new_mask [] new_table = Inr new_table"
| "rehash_chains new_mask (b # bs) new_table = rbind (rehash_chain new_mask b new_table) (rehash_chains new_mask bs)"

definition ht_rehash :: "('k, 'v) ht_table \<Rightarrow> nat \<Rightarrow> ('k, 'v) ht_table res" where
  "ht_rehash t new_factor =
     (let new_mask = ht_factor_mask new_factor
      in rbind (rehash_chains new_mask (ht_buckets t) (replicate (unat (pow2 new_factor)) [])) (\<lambda>new_table.
           Inr (t\<lparr>ht_buckets := new_table, hash_two_factor := new_factor, ht_mask := new_mask\<rparr>)))"

definition ht_enlarge :: "('k, 'v) ht_table \<Rightarrow> ('k, 'v) ht_table res" where
  "ht_enlarge t = ht_rehash t (hash_two_factor t + 1)"

definition ht_reduce :: "('k, 'v) ht_table \<Rightarrow> ('k, 'v) ht_table res" where
  "ht_reduce t = ht_rehash t (hash_two_factor t - 1)"

section \<open>Operations\<close>

definition ht_new :: "('k \<Rightarrow> wc_hash_t) \<Rightarrow> ('k \<Rightarrow> 'k \<Rightarrow> bool) \<Rightarrow> bool \<Rightarrow> bool \<Rightarrow> ('k, 'v) ht_table" where
  "ht_new hash eq kf vf =
     \<lparr>hash_two_factor = HT_INIT_TWO_FACTOR, ht_count = 0, ht_buckets = replicate (unat (pow2 HT_MIN_TWO_FACTOR)) [],
      ht_mask = ht_factor_mask HT_INIT_TWO_FACTOR, key_eq = eq, key_hash = hash, has_key_free = kf, has_val_free = vf\<rparr>"

definition item_free :: "('k, 'v) ht_table \<Rightarrow> ('k, 'v) ht_item \<Rightarrow> ('k, 'v) ht_freed list" where
  "item_free t e = (if has_key_free t then [Freed_key (hi_key e)] else []) @ (if has_val_free t then [Freed_val (hi_value e)] else [])"

fun destroy_chain :: "('k, 'v) ht_table \<Rightarrow> ('k, 'v) ht_item list \<Rightarrow> ('k, 'v) ht_freed list res" where
  "destroy_chain t [] = Inr []"
| "destroy_chain t (e # es) =
     (if \<not> hi_live e then Inl UseAfterFree
      else rbind (destroy_chain t es) (\<lambda>fs. Inr (item_free t e @ fs)))"

definition ht_destroy :: "('k, 'v) ht_table \<Rightarrow> ('k, 'v) ht_freed list res" where
  "ht_destroy t = destroy_chain t (concat (ht_buckets t))"

fun ht_find :: "('k \<Rightarrow> 'k \<Rightarrow> bool) \<Rightarrow> 'k \<Rightarrow> ('k, 'v) ht_item list \<Rightarrow> ('k, 'v) ht_item option res" where
  "ht_find eq key [] = Inr None"
| "ht_find eq key (e # es) =
     (if \<not> hi_live e then Inl UseAfterFree else if eq key (hi_key e) then Inr (Some e) else ht_find eq key es)"

text \<open>
  \<open>want\<close> tells whether the caller passed a place for the value. The result is the returned
  flag and what is stored there.
\<close>

definition ht_get_ex :: "('k, 'v) ht_table \<Rightarrow> 'k \<Rightarrow> bool \<Rightarrow> (bool \<times> 'v option) res" where
  "ht_get_ex t key want =
     rbind (ht_find (key_eq t) key (ht_buckets t ! ht_bucket_addr t key)) (\<lambda>r. case r of
         Some e \<Rightarrow> Inr (True, if want then Some (hi_value e) else None)
       | None \<Rightarrow> if want then Inr (False, None) else Inl NullDeref)"

definition ht_contains :: "('k, 'v) ht_table \<Rightarrow> 'k \<Rightarrow> bool res" where
  "ht_contains t key = rbind (ht_get_ex t key False) (\<lambda>(found, v). Inr found)"

definition ht_get :: "('k, 'v) ht_table \<Rightarrow> 'k \<Rightarrow> 'v option res" where
  "ht_get t key = rbind (ht_get_ex t key True) (\<lambda>(found, v). Inr v)"

definition ht_insert :: "('k, 'v) ht_table \<Rightarrow> 'k \<Rightarrow> 'v \<Rightarrow> (bool \<times> ('k, 'v) ht_table) res" where
  "ht_insert t key val =
     rbind (if ht_is_overloaded t then ht_enlarge t else Inr t) (\<lambda>t.
     rbind (ht_contains t key) (\<lambda>found.
       if \<not> found
       then let e = \<lparr>hi_hash = key_hash t key, hi_key = key, hi_value = val, hi_live = True\<rparr>; i = ht_bucket_addr t key
            in Inr (True, t\<lparr>ht_buckets := (ht_buckets t)[i := e # ht_buckets t ! i], ht_count := ht_count t + 1\<rparr>)
       else Inr (False, t)))"

text \<open>
  The loop of \<^verbatim>\<open>ht_remove\<close>. On the first item \<^verbatim>\<open>prev\<close> is the bucket, and the
  item is unlinked and released. On a later item \<^verbatim>\<open>prev\<close> is the address of the loop
  variable \<^verbatim>\<open>e\<close> itself, so \<^verbatim>\<open>*prev = e->next\<close> moves \<^verbatim>\<open>e\<close> to the
  next item, which is the one that is released, while the chain still leads to it.
\<close>

fun remove_later :: "('k, 'v) ht_table \<Rightarrow> 'k \<Rightarrow> ('k, 'v) ht_item list \<Rightarrow> (bool \<times> ('k, 'v) ht_item list \<times> ('k, 'v) ht_freed list) res" where
  "remove_later t key [] = Inr (False, [], [])"
| "remove_later t key (e # es) =
     (if \<not> hi_live e then Inl UseAfterFree
      else if key_eq t key (hi_key e)
      then (case es of
          [] \<Rightarrow> if has_key_free t \<or> has_val_free t then Inl NullDeref else Inr (True, [e], [])
        | n # ns \<Rightarrow> if \<not> hi_live n then Inl UseAfterFree else Inr (True, e # n\<lparr>hi_live := False\<rparr> # ns, item_free t n))
      else rbind (remove_later t key es) (\<lambda>(r, es, fs). Inr (r, e # es, fs)))"

fun remove_first :: "('k, 'v) ht_table \<Rightarrow> 'k \<Rightarrow> ('k, 'v) ht_item list \<Rightarrow> (bool \<times> ('k, 'v) ht_item list \<times> ('k, 'v) ht_freed list) res" where
  "remove_first t key [] = Inr (False, [], [])"
| "remove_first t key (e # es) =
     (if \<not> hi_live e then Inl UseAfterFree
      else if key_eq t key (hi_key e) then Inr (True, es, item_free t e)
      else rbind (remove_later t key es) (\<lambda>(r, es, fs). Inr (r, e # es, fs)))"

definition ht_remove :: "('k, 'v) ht_table \<Rightarrow> 'k \<Rightarrow> (bool \<times> ('k, 'v) ht_table \<times> ('k, 'v) ht_freed list) res" where
  "ht_remove t key =
     (let i = ht_bucket_addr t key
      in rbind (remove_first t key (ht_buckets t ! i)) (\<lambda>(r, chain, fs).
           let t = t\<lparr>ht_buckets := (ht_buckets t)[i := chain], ht_count := (if r then ht_count t - 1 else ht_count t)\<rparr>
           in rbind (if ht_is_underloaded t then ht_reduce t else Inr t) (\<lambda>t. Inr (r, t, fs))))"

section \<open>The iterator\<close>

datatype iter_state = Iter_init | Iter_iterating | Iter_invalid

text \<open>\<open>it_cur\<close> is the chain from the current item on, empty for a null pointer.\<close>

record ('k, 'v) ht_iter =
  it_b :: nat
  it_s :: iter_state
  it_t :: "('k, 'v) ht_table"
  it_cur :: "('k, 'v) ht_item list"

definition ht_it_init :: "('k, 'v) ht_table \<Rightarrow> ('k, 'v) ht_iter" where
  "ht_it_init t = \<lparr>it_b = 0, it_s = Iter_init, it_t = t, it_cur = []\<rparr>"

text \<open>The first bucket from \<open>b\<close> on that has an item, or the capacity.\<close>

fun next_bucket :: "('k, 'v) ht_item list list \<Rightarrow> nat \<Rightarrow> nat" where
  "next_bucket [] b = b"
| "next_bucket (c # cs) b = (if c \<noteq> [] then b else next_bucket cs (b + 1))"

definition ht_it_fetch_next :: "('k, 'v) ht_iter \<Rightarrow> (bool \<times> ('k, 'v) ht_iter) res" where
  "ht_it_fetch_next it =
     (if it_s it = Iter_invalid then Inr (False, it)
      else case it_cur it of
        e # n # ns \<Rightarrow> if \<not> hi_live e then Inl UseAfterFree else Inr (True, it\<lparr>it_cur := n # ns\<rparr>)
      | cur \<Rightarrow>
          if cur \<noteq> [] \<and> \<not> hi_live (hd cur) then Inl UseAfterFree
          else
            let it = (if it_s it = Iter_init then it\<lparr>it_b := 0, it_s := Iter_iterating\<rparr> else it\<lparr>it_b := it_b it + 1\<rparr>);
                b = next_bucket (drop (it_b it) (ht_buckets (it_t it))) (it_b it)
            in if b < unat (ht_capacity (it_t it))
               then Inr (True, it\<lparr>it_b := b, it_cur := ht_buckets (it_t it) ! b\<rparr>)
               else Inr (False, it\<lparr>it_b := b, it_s := Iter_invalid\<rparr>))"

definition ht_it_key :: "('k, 'v) ht_iter \<Rightarrow> 'k option res" where
  "ht_it_key it =
     (if it_s it = Iter_invalid then Inr None
      else case it_cur it of [] \<Rightarrow> Inl NullDeref | e # es \<Rightarrow> if hi_live e then Inr (Some (hi_key e)) else Inl UseAfterFree)"

definition ht_it_val :: "('k, 'v) ht_iter \<Rightarrow> 'v option res" where
  "ht_it_val it =
     (if it_s it = Iter_invalid then Inr None
      else case it_cur it of [] \<Rightarrow> Inl NullDeref | e # es \<Rightarrow> if hi_live e then Inr (Some (hi_value e)) else Inl UseAfterFree)"

section \<open>Well-formed tables\<close>

definition items :: "('k, 'v) ht_table \<Rightarrow> ('k, 'v) ht_item list" where
  "items t = concat (ht_buckets t)"

text \<open>Every item is live, caches its hash and stands in the bucket of its hash.\<close>

definition placed :: "('k \<Rightarrow> wc_hash_t) \<Rightarrow> wc_hash_t \<Rightarrow> ('k, 'v) ht_item list list \<Rightarrow> bool" where
  "placed hash m bs \<longleftrightarrow> (\<forall>i < length bs. \<forall>e \<in> set (bs ! i).
     hi_live e \<and> hi_hash e = hash (hi_key e) \<and> unat (and (hi_hash e) m) = i)"

definition key_equiv :: "('k \<Rightarrow> wc_hash_t) \<Rightarrow> ('k \<Rightarrow> 'k \<Rightarrow> bool) \<Rightarrow> bool" where
  "key_equiv hash eq \<longleftrightarrow> equivp eq \<and> (\<forall>a b. eq a b \<longrightarrow> hash a = hash b)"

definition ht_wf :: "('k, 'v) ht_table \<Rightarrow> bool" where
  "ht_wf t \<longleftrightarrow> hash_two_factor t \<le> 30 \<and> ht_mask t = ht_factor_mask (hash_two_factor t) \<and>
     length (ht_buckets t) = 2 ^ hash_two_factor t \<and> placed (key_hash t) (ht_mask t) (ht_buckets t) \<and>
     key_equiv (key_hash t) (key_eq t) \<and>
     (\<forall>e \<in> set (items t). \<forall>e' \<in> set (items t). key_eq t (hi_key e) (hi_key e') \<longrightarrow> e = e')"

lemma unat_pow2: "u \<le> 30 \<Longrightarrow> unat (pow2 u) = 2 ^ u"
proof -
  assume u: "u \<le> 30"
  have "(2 :: nat) ^ u < 2 ^ 32" using u by (intro power_strict_increasing) auto
  moreover have "unat (pow2 u) = take_bit 32 (push_bit u 1)" by (simp only: pow2_def unsigned_push_bit_eq) simp
  ultimately show ?thesis by (simp add: take_bit_eq_mod push_bit_eq_mult)
qed

lemma factor_mask: "u \<le> 30 \<Longrightarrow> ht_factor_mask u = mask u"
proof -
  assume "u \<le> 30"
  then have "(ucast (pow2 u) :: 64 word) = push_bit u 1"
    by (intro bit_word_eqI) (auto simp: pow2_def bit_simps)
  then show ?thesis by (simp add: ht_factor_mask_def mask_eq_exp_minus_1)
qed

lemma bucket_index:
  assumes "u \<le> 30"
  shows "unat (and h (ht_factor_mask u)) = unat h mod 2 ^ u"
proof -
  have "unat (and h (ht_factor_mask u)) = take_bit u (unat h)"
    by (simp only: factor_mask [OF assms] take_bit_eq_mask [symmetric] unsigned_take_bit_eq)
  then show ?thesis by (simp add: take_bit_eq_mod)
qed

section \<open>Rehashing\<close>

lemma length_rehash_chain: "rehash_chain m es bs = Inr bs' \<Longrightarrow> length bs' = length bs"
  by (induction m es bs rule: rehash_chain.induct) (auto simp: Let_def split: if_splits)

lemma placed_update:
  assumes "placed hash m bs" "hi_live e" "hi_hash e = hash (hi_key e)"
  shows "placed hash m (bs[unat (and (hi_hash e) m) := e # bs ! unat (and (hi_hash e) m)])"
  unfolding placed_def
proof (intro allI impI ballI)
  fix j x
  assume j: "j < length (bs[unat (and (hi_hash e) m) := e # bs ! unat (and (hi_hash e) m)])"
    and x: "x \<in> set (bs[unat (and (hi_hash e) m) := e # bs ! unat (and (hi_hash e) m)] ! j)"
  show "hi_live x \<and> hi_hash x = hash (hi_key x) \<and> unat (and (hi_hash x) m) = j"
  proof (cases "j = unat (and (hi_hash e) m)")
    case False
    then have "j < length bs" "x \<in> set (bs ! j)" using j x by simp_all
    then show ?thesis using assms(1) unfolding placed_def by metis
  next
    case True
    then have "j < length bs" "x = e \<or> x \<in> set (bs ! j)" using j x by simp_all
    then show ?thesis using assms True unfolding placed_def by metis
  qed
qed

lemma placed_index: "placed hash m bs \<Longrightarrow> j < length bs \<Longrightarrow> e \<in> set (bs ! j) \<Longrightarrow> unat (and (hash (hi_key e)) m) = j"
  unfolding placed_def by metis

lemma rehash_chain_result:
  assumes "\<And>e. e \<in> set es \<Longrightarrow> hi_live e \<and> hi_hash e = hash (hi_key e)" "\<And>h. unat (and h m) < length bs" "placed hash m bs"
  shows "\<exists>bs'. rehash_chain m es bs = Inr bs' \<and> length bs' = length bs \<and> placed hash m bs' \<and>
    mset (concat bs') = mset es + mset (concat bs)"
  using assms
proof (induction es arbitrary: bs)
  case (Cons e es)
  let ?i = "unat (and (hi_hash e) m)"
  let ?bs = "bs[?i := e # bs ! ?i]"
  have i: "?i < length bs" using Cons.prems(2) .
  have "placed hash m ?bs"
    using Cons.prems(1,3) by (intro placed_update) auto
  moreover have "mset (concat ?bs) = add_mset e (mset (concat bs))"
  proof -
    have "bs = take ?i bs @ bs ! ?i # drop (Suc ?i) bs" using i by (simp add: id_take_nth_drop)
    then have "mset (concat bs) = mset (concat (take ?i bs)) + mset (bs ! ?i) + mset (concat (drop (Suc ?i) bs))"
      by (metis concat.simps(2) concat_append mset_append union_assoc)
    then show ?thesis using i by (simp add: upd_conv_take_nth_drop)
  qed
  ultimately show ?case using Cons.IH [of ?bs] Cons.prems by (simp add: Let_def)
qed simp

lemma rehash_chains_result:
  assumes "\<And>b e. b \<in> set cs \<Longrightarrow> e \<in> set b \<Longrightarrow> hi_live e \<and> hi_hash e = hash (hi_key e)"
    "\<And>h. unat (and h m) < length bs" "placed hash m bs"
  shows "\<exists>bs'. rehash_chains m cs bs = Inr bs' \<and> length bs' = length bs \<and> placed hash m bs' \<and>
    mset (concat bs') = mset (concat cs) + mset (concat bs)"
  using assms
proof (induction cs arbitrary: bs)
  case (Cons c cs)
  obtain bs1 where bs1: "rehash_chain m c bs = Inr bs1" "length bs1 = length bs" "placed hash m bs1"
    "mset (concat bs1) = mset c + mset (concat bs)"
    using rehash_chain_result [of c hash m bs] Cons.prems by auto
  then show ?case using Cons.IH [of bs1] Cons.prems by (auto simp: ac_simps)
qed simp

lemma concat_replicate_Nil: "concat (replicate n []) = []"
  by (induction n) auto

lemma placed_bucket: "placed hash m bs \<Longrightarrow> b \<in> set bs \<Longrightarrow> e \<in> set b \<Longrightarrow> hi_live e \<and> hi_hash e = hash (hi_key e)"
  unfolding placed_def by (metis in_set_conv_nth)

lemma rehash_result:
  assumes "ht_wf t" "f \<le> 30"
  shows "\<exists>t'. ht_rehash t f = Inr t' \<and> ht_wf t' \<and> mset (items t') = mset (items t) \<and> hash_two_factor t' = f \<and>
    ht_count t' = ht_count t \<and> key_hash t' = key_hash t \<and> key_eq t' = key_eq t"
proof -
  let ?new = "replicate (2 ^ f) [] :: ('a, 'b) ht_item list list"
  have "\<exists>bs'. rehash_chains (ht_factor_mask f) (ht_buckets t) ?new = Inr bs' \<and> length bs' = length ?new \<and>
    placed (key_hash t) (ht_factor_mask f) bs' \<and> mset (concat bs') = mset (concat (ht_buckets t)) + mset (concat ?new)"
  proof (rule rehash_chains_result)
    show "hi_live e \<and> hi_hash e = key_hash t (hi_key e)" if "b \<in> set (ht_buckets t)" "e \<in> set b" for b e
      using placed_bucket that assms(1) unfolding ht_wf_def by blast
    show "unat (and h (ht_factor_mask f)) < length ?new" for h using assms(2) by (simp add: bucket_index)
    show "placed (key_hash t) (ht_factor_mask f) ?new" by (simp add: placed_def)
  qed
  then obtain bs' where bs': "rehash_chains (ht_factor_mask f) (ht_buckets t) ?new = Inr bs'" "length bs' = 2 ^ f"
    "placed (key_hash t) (ht_factor_mask f) bs'" "mset (concat bs') = mset (items t)"
    by (auto simp: concat_replicate_Nil items_def)
  let ?t = "t\<lparr>ht_buckets := bs', hash_two_factor := f, ht_mask := ht_factor_mask f\<rparr>"
  have "ht_rehash t f = Inr ?t" using bs'(1) assms(2) by (simp add: ht_rehash_def unat_pow2)
  moreover have "set (items ?t) = set (items t)" using mset_eq_setD [OF bs'(4)] by (simp add: items_def)
  then have "ht_wf ?t" using assms bs'(2,3) unfolding ht_wf_def by simp
  moreover have "mset (items ?t) = mset (items t)" using bs'(4) by (simp add: items_def)
  ultimately show ?thesis by (intro exI [of _ ?t]) simp
qed

section \<open>Lookup\<close>

definition ht_has :: "('k, 'v) ht_table \<Rightarrow> 'k \<Rightarrow> ('k, 'v) ht_item \<Rightarrow> bool" where
  "ht_has t k e \<longleftrightarrow> e \<in> set (items t) \<and> key_eq t k (hi_key e)"

lemma ht_has_unique: "ht_wf t \<Longrightarrow> ht_has t k e \<Longrightarrow> ht_has t k e' \<Longrightarrow> e = e'"
  unfolding ht_wf_def ht_has_def key_equiv_def by (meson equivp_symp equivp_transp)

lemma find_result:
  "list_all hi_live es \<Longrightarrow> ht_find eq k es = Inr (find (\<lambda>e. eq k (hi_key e)) es)"
  by (induction es) auto

lemma find_bucket:
  assumes "ht_wf t"
  shows "ht_find (key_eq t) k (ht_buckets t ! ht_bucket_addr t k) = Inr r \<longleftrightarrow>
    (case r of Some e \<Rightarrow> ht_has t k e | None \<Rightarrow> (\<nexists>e. ht_has t k e))"
proof -
  let ?b = "ht_buckets t ! ht_bucket_addr t k"
  have i: "ht_bucket_addr t k < length (ht_buckets t)" using assms by (simp add: ht_wf_def ht_bucket_addr_def bucket_index)
  have "list_all hi_live ?b" using assms i by (auto simp: ht_wf_def placed_def list_all_iff)
  then have f: "ht_find (key_eq t) k ?b = Inr (find (\<lambda>e. key_eq t k (hi_key e)) ?b)" by (rule find_result)
  have here: "ht_has t k e \<longleftrightarrow> e \<in> set ?b \<and> key_eq t k (hi_key e)" for e
  proof
    assume h: "ht_has t k e"
    then obtain b where "b \<in> set (ht_buckets t)" "e \<in> set b" by (auto simp: ht_has_def items_def)
    then obtain j where j: "j < length (ht_buckets t)" "e \<in> set (ht_buckets t ! j)" by (metis in_set_conv_nth)
    have "key_hash t k = key_hash t (hi_key e)" using assms h by (simp add: ht_wf_def key_equiv_def ht_has_def)
    then have "j = ht_bucket_addr t k" using assms j placed_index unfolding ht_wf_def ht_bucket_addr_def by metis
    then show "e \<in> set ?b \<and> key_eq t k (hi_key e)" using j h by (simp add: ht_has_def)
  qed (use i in \<open>auto simp: ht_has_def items_def\<close>)
  show ?thesis
  proof (cases "find (\<lambda>e. key_eq t k (hi_key e)) ?b")
    case None
    then have "\<nexists>e. ht_has t k e" using here by (auto simp: find_None_iff)
    then show ?thesis using f None by (auto split: option.split)
  next
    case (Some e)
    then have "ht_has t k e" using here by (metis find_Some_iff nth_mem)
    then show ?thesis using f Some ht_has_unique [OF assms] by (auto split: option.split)
  qed
qed

lemma find_total: "ht_wf t \<Longrightarrow> \<exists>r. ht_find (key_eq t) k (ht_buckets t ! ht_bucket_addr t k) = Inr r"
proof (cases "\<exists>e. ht_has t k e")
  case True
  assume "ht_wf t"
  with True show ?thesis using find_bucket [of t k "Some _"] by auto
next
  case False
  assume "ht_wf t"
  with False show ?thesis using find_bucket [of t k None] by auto
qed

text \<open>
  Enlarging or reducing a well-formed table loses and adds no item, puts every item
  in the bucket of its hash under the new mask, and does not change what any lookup returns.
\<close>

lemma rehash_keeps_lookups:
  assumes "ht_wf t" "f \<le> 30"
  shows "\<exists>t'. ht_rehash t f = Inr t' \<and> ht_wf t' \<and> hash_two_factor t' = f \<and> ht_count t' = ht_count t \<and>
    mset (items t') = mset (items t) \<and> (\<forall>k. ht_get t' k = ht_get t k)"
proof -
  obtain t' where t': "ht_rehash t f = Inr t'" "ht_wf t'" "mset (items t') = mset (items t)" "hash_two_factor t' = f"
    "ht_count t' = ht_count t" "key_eq t' = key_eq t"
    using rehash_result [OF assms] by blast
  have "set (items t') = set (items t)" using t'(3) by (metis mset_eq_setD)
  then have "ht_has t' = ht_has t" using t'(6) by (intro ext) (simp add: ht_has_def)
  then have "ht_find (key_eq t') k (ht_buckets t' ! ht_bucket_addr t' k) = ht_find (key_eq t) k (ht_buckets t ! ht_bucket_addr t k)" for k
  proof -
    obtain r where r: "ht_find (key_eq t) k (ht_buckets t ! ht_bucket_addr t k) = Inr r" using find_total [OF assms(1)] by blast
    then have "case r of Some e \<Rightarrow> ht_has t' k e | None \<Rightarrow> \<nexists>e. ht_has t' k e"
      using find_bucket [OF assms(1), of k r] \<open>ht_has t' = ht_has t\<close> by (cases r) simp_all
    then show ?thesis using find_bucket [OF t'(2), of k r] r by simp
  qed
  then have "ht_get t' k = ht_get t k" for k by (simp add: ht_get_def ht_get_ex_def)
  then show ?thesis using t' by blast
qed

section \<open>Insertion never succeeds\<close>

text \<open>What a program does with a table, but for the iteration.\<close>

datatype ('k, 'v) ht_op = Op_insert 'k 'v | Op_contains 'k | Op_get 'k | Op_remove 'k

fun ht_do :: "('k, 'v) ht_op \<Rightarrow> ('k, 'v) ht_table \<Rightarrow> ('k, 'v) ht_table res" where
  "ht_do (Op_insert k v) t = rbind (ht_insert t k v) (\<lambda>(r, t). Inr t)"
| "ht_do (Op_contains k) t = rbind (ht_contains t k) (\<lambda>r. Inr t)"
| "ht_do (Op_get k) t = rbind (ht_get t k) (\<lambda>r. Inr t)"
| "ht_do (Op_remove k) t = rbind (ht_remove t k) (\<lambda>(r, t, fs). Inr t)"

fun ht_run :: "('k, 'v) ht_op list \<Rightarrow> ('k, 'v) ht_table \<Rightarrow> ('k, 'v) ht_table res" where
  "ht_run [] t = Inr t"
| "ht_run (p # ps) t = rbind (ht_do p t) (ht_run ps)"

definition op_writes_null :: "('k, 'v) ht_op \<Rightarrow> bool" where
  "op_writes_null p \<longleftrightarrow> (case p of Op_insert k v \<Rightarrow> True | Op_contains k \<Rightarrow> True | _ \<Rightarrow> False)"

lemma wf_new: "key_equiv hash eq \<Longrightarrow> ht_wf (ht_new hash eq kf vf)"
  by (simp add: ht_wf_def ht_new_def HT_INIT_TWO_FACTOR_def HT_MIN_TWO_FACTOR_def unat_pow2 placed_def items_def concat_replicate_Nil)

lemma new_table [simp]:
  "ht_bucket_addr (ht_new hash eq kf vf) k < 8" "i < 8 \<Longrightarrow> ht_buckets (ht_new hash eq kf vf) ! i = []"
  "\<not> ht_is_overloaded (ht_new hash eq kf vf)" "\<not> ht_is_underloaded (ht_new hash eq kf vf)"
  using bucket_index [of 3 "hash k"]
  by (simp_all add: ht_bucket_addr_def ht_new_def HT_INIT_TWO_FACTOR_def HT_MIN_TWO_FACTOR_def HT_MAX_TWO_FACTOR_def unat_pow2
      ht_is_overloaded_def ht_is_underloaded_def ht_capacity_def pow2_def)

lemma do_new:
  "ht_do p (ht_new hash eq kf vf) = (if op_writes_null p then Inl NullDeref else Inr (ht_new hash eq kf vf))"
proof (cases p)
  case (Op_remove k)
  let ?t = "ht_new hash eq kf vf :: ('a, 'b) ht_table"
  have "(ht_buckets ?t)[i := []] = ht_buckets ?t" if "i < 8" for i using new_table(2) [OF that, of hash eq kf vf] by (metis list_update_id)
  moreover have "?t\<lparr>ht_buckets := ht_buckets ?t, ht_count := ht_count ?t\<rparr> = ?t" by simp
  ultimately show ?thesis by (simp add: Op_remove op_writes_null_def ht_remove_def Let_def)
qed (auto simp: op_writes_null_def ht_insert_def ht_contains_def ht_get_def ht_get_ex_def)

lemma run_new: "ht_run ps (ht_new hash eq kf vf) = (if list_ex op_writes_null ps then Inl NullDeref else Inr (ht_new hash eq kf vf))"
  by (induction ps) (simp_all add: do_new)

text \<open>
  Claim C40: whatever is done with a new table, it never holds an item: the first insertion or
  test of a key writes through a null pointer (\<^verbatim>\<open>ht_contains\<close> passes no place
  for the value and \<^verbatim>\<open>ht_get_ex\<close> stores there that there is none), and
  lookups and removals leave the table as it was.
\<close>

theorem ht_never_holds_items:
  "ht_run ps (ht_new hash eq kf vf) = (if list_ex op_writes_null ps then Inl NullDeref else Inr (ht_new hash eq kf vf))"
  by (rule run_new)

text \<open>
  Removing an item that is not the first of its chain releases the item after it, to which
  the chain still leads.
\<close>

lemma remove_later_corrupts:
  assumes "hi_live a" "hi_live b" "hi_live c" "\<not> key_eq t k (hi_key a)" "key_eq t k (hi_key b)"
  shows "remove_first t k (a # b # c # es) = Inr (True, a # b # c\<lparr>hi_live := False\<rparr> # es, item_free t c)"
  using assms by simp

section \<open>Iteration\<close>

text \<open>The loop \<^verbatim>\<open>while (ht_it_fetch_next(&it))\<close> that reads each key and value.\<close>

fun ht_collect :: "nat \<Rightarrow> ('k, 'v) ht_iter \<Rightarrow> ('k option \<times> 'v option) list option res" where
  "ht_collect 0 it = Inr None"
| "ht_collect (Suc fuel) it = rbind (ht_it_fetch_next it) (\<lambda>(more, it).
     if more
     then rbind (ht_it_key it) (\<lambda>k. rbind (ht_it_val it) (\<lambda>v.
            rbind (ht_collect fuel it) (\<lambda>r. Inr (map_option (Cons (k, v)) r))))
     else Inr (Some []))"

definition kv :: "('k, 'v) ht_item \<Rightarrow> 'k option \<times> 'v option" where
  "kv e = (Some (hi_key e), Some (hi_value e))"

lemma next_bucket_eq: "next_bucket cs b = b + length (takeWhile (\<lambda>c. c = []) cs)"
  by (induction cs arbitrary: b) auto

lemma drop_empty:
  "concat (drop (length (takeWhile (\<lambda>c. c = []) cs)) cs) = concat cs"
  by (induction cs) auto

text \<open>An iterator that has to move to another bucket, with what is still to come.\<close>

definition at_bucket_end :: "('k, 'v) ht_iter \<Rightarrow> ('k, 'v) ht_item list \<Rightarrow> bool" where
  "at_bucket_end it rest \<longleftrightarrow>
     it_s it = Iter_init \<and> it_cur it = [] \<and> rest = items (it_t it) \<or>
     it_s it = Iter_iterating \<and> (\<exists>e. hi_live e \<and> it_cur it = [e]) \<and> rest = concat (drop (Suc (it_b it)) (ht_buckets (it_t it)))"

definition at_item :: "('k, 'v) ht_iter \<Rightarrow> ('k, 'v) ht_item list \<Rightarrow> bool" where
  "at_item it rest \<longleftrightarrow> it_s it = Iter_iterating \<and>
     (\<exists>e es. it_cur it = e # es \<and> rest = e # es @ concat (drop (Suc (it_b it)) (ht_buckets (it_t it))))"

lemma fetch_at_end:
  assumes "at_bucket_end it rest" "unat (ht_capacity (it_t it)) = length (ht_buckets (it_t it))"
  shows "\<exists>more it'. ht_it_fetch_next it = Inr (more, it') \<and> it_t it' = it_t it \<and> more = (rest \<noteq> []) \<and> (rest \<noteq> [] \<longrightarrow> at_item it' rest)"
proof -
  let ?bs = "ht_buckets (it_t it)"
  let ?b = "if it_s it = Iter_init then 0 else Suc (it_b it)"
  let ?it = "it\<lparr>it_b := ?b, it_s := Iter_iterating\<rparr>"
  let ?n = "next_bucket (drop ?b ?bs) ?b"
  have rest: "rest = concat (drop ?n ?bs)"
    using assms(1) drop_empty [of "drop ?b ?bs"] by (auto simp: at_bucket_end_def next_bucket_eq items_def add.commute)
  have fetch: "ht_it_fetch_next it = (if ?n < length ?bs then Inr (True, ?it\<lparr>it_b := ?n, it_cur := ?bs ! ?n\<rparr>)
      else Inr (False, ?it\<lparr>it_b := ?n, it_s := Iter_invalid\<rparr>))"
    using assms by (cases it) (auto simp: at_bucket_end_def ht_it_fetch_next_def Let_def)
  show ?thesis
  proof (cases "?n < length ?bs")
    case True
    have "length (takeWhile (\<lambda>c. c = []) (drop ?b ?bs)) < length (drop ?b ?bs)" using True by (simp add: next_bucket_eq)
    from nth_length_takeWhile [OF this] have "?bs ! ?n \<noteq> []" using True by (simp add: next_bucket_eq add.commute)
    then obtain e es where c: "?bs ! ?n = e # es" by (cases "?bs ! ?n") auto
    have "rest = e # es @ concat (drop (Suc ?n) ?bs)" using rest c Cons_nth_drop_Suc [OF True] by (metis append_Cons concat.simps(2))
    then show ?thesis using True fetch c by (auto simp: at_item_def)
  qed (use rest fetch in auto)
qed

lemma fetch_in_chain:
  assumes "at_item it (e # rest)" "hi_live e"
  shows "at_bucket_end it rest \<or> (\<exists>it'. ht_it_fetch_next it = Inr (True, it') \<and> it_t it' = it_t it \<and> rest \<noteq> [] \<and> at_item it' rest)"
  using assms by (auto simp: at_item_def at_bucket_end_def ht_it_fetch_next_def Let_def split: list.split)

lemma collect_rest:
  assumes "unat (ht_capacity (it_t it)) = length (ht_buckets (it_t it))" "list_all hi_live rest" "length rest < fuel"
    "at_bucket_end it rest \<or> (\<exists>e. hi_live e \<and> at_item it (e # rest))"
  shows "ht_collect fuel it = Inr (Some (map kv rest))"
  using assms
proof (induction fuel arbitrary: it rest)
  case (Suc fuel)
  obtain more it' where f: "ht_it_fetch_next it = Inr (more, it')" "it_t it' = it_t it" "more = (rest \<noteq> [])" "rest \<noteq> [] \<longrightarrow> at_item it' rest"
  proof -
    have "\<exists>more it'. ht_it_fetch_next it = Inr (more, it') \<and> it_t it' = it_t it \<and> more = (rest \<noteq> []) \<and> (rest \<noteq> [] \<longrightarrow> at_item it' rest)"
    proof (cases "at_bucket_end it rest")
      case True
      then show ?thesis using fetch_at_end Suc.prems(1) by blast
    next
      case False
      then obtain e where "at_item it (e # rest)" "hi_live e" using Suc.prems(4) by blast
      from fetch_in_chain [OF this] False show ?thesis by blast
    qed
    then show ?thesis using that by blast
  qed
  show ?case
  proof (cases rest)
    case (Cons e es)
    then have here: "at_item it' (e # es)" "hi_live e" using f Suc.prems(2) by auto
    then have "ht_it_key it' = Inr (Some (hi_key e))" "ht_it_val it' = Inr (Some (hi_value e))"
      by (auto simp: at_item_def ht_it_key_def ht_it_val_def)
    moreover have "ht_collect fuel it' = Inr (Some (map kv es))"
      using Suc.IH [of it' es] Suc.prems f(2) here Cons by auto
    ultimately show ?thesis using f(1,3) Cons by (simp add: kv_def)
  qed (use f in simp)
qed simp

text \<open>
  Claim C39: the iteration over a well-formed table ends, and reads every item exactly once,
  bucket by bucket.
\<close>

theorem ht_iteration_ends:
  assumes "ht_wf t" "length (items t) < fuel"
  shows "ht_collect fuel (ht_it_init t) = Inr (Some (map (\<lambda>e. (Some (hi_key e), Some (hi_value e))) (items t)))"
proof -
  have "list_all hi_live (items t)" using assms(1) placed_bucket unfolding ht_wf_def items_def list_all_iff by fastforce
  then have "ht_collect fuel (ht_it_init t) = Inr (Some (map kv (items t)))"
    using assms by (intro collect_rest) (auto simp: at_bucket_end_def ht_it_init_def ht_wf_def ht_capacity_def unat_pow2)
  then show ?thesis by (simp add: kv_def [abs_def])
qed

section \<open>A table with three items\<close>

definition sample_item :: "nat \<Rightarrow> (nat, string) ht_item" where
  "sample_item k = \<lparr>hi_hash = word_of_nat k, hi_key = k, hi_value = ''v'', hi_live = True\<rparr>"

definition sample_ht :: "(nat, string) ht_table" where
  "sample_ht = (ht_new word_of_nat (=) False False)\<lparr>ht_buckets := [[], [sample_item 9, sample_item 1], [sample_item 2], [], [], [], [], []], ht_count := 3\<rparr>"

lemma sample_wf: "ht_wf sample_ht"
proof -
  have "placed word_of_nat (ht_factor_mask 3) (ht_buckets sample_ht)"
    by code_simp
  then show ?thesis
    by (auto simp: ht_wf_def sample_ht_def ht_new_def HT_INIT_TWO_FACTOR_def HT_MIN_TWO_FACTOR_def items_def sample_item_def key_equiv_def
        identity_equivp)
qed

lemma rehash_keeps_lookups_witness:
  "\<exists>t'. ht_rehash sample_ht 4 = Inr t' \<and> length (items t') = 3 \<and> ht_get t' 9 = Inr (Some ''v'') \<and> ht_get t' 3 = Inr None"
proof -
  obtain t' where t': "ht_rehash sample_ht 4 = Inr t'" "mset (items t') = mset (items sample_ht)" "\<forall>k. ht_get t' k = ht_get sample_ht k"
    using rehash_keeps_lookups [OF sample_wf, of 4] by auto
  have "length (items t') = 3" using mset_eq_length [OF t'(2)] by (simp add: items_def sample_ht_def)
  moreover have "ht_get sample_ht 9 = Inr (Some ''v'')" "ht_get sample_ht 3 = Inr None" by code_simp+
  ultimately show ?thesis using t' by simp
qed

theorem ht_iteration_ends_witness:
  "ht_collect 4 (ht_it_init sample_ht) = Inr (Some [(Some 9, Some ''v''), (Some 1, Some ''v''), (Some 2, Some ''v'')])"
proof -
  have "items sample_ht = [sample_item 9, sample_item 1, sample_item 2]" by (simp add: items_def sample_ht_def)
  then show ?thesis using ht_iteration_ends [OF sample_wf, of 4] by (simp add: sample_item_def)
qed

end
