(* ===== verification/Fsm.thy ===== *)
theory Fsm
  imports Prelude
begin

text \<open>
  The finite state machines of the tools (\<^verbatim>\<open>tools/fsm.c\<close>). The states are a type of
  the client, the table a function of the state (the C array is filled by designated
  initialisers), a transition list ends where the C array has its empty entry. The function of
  a transition works on the client's state and may fail.
\<close>

datatype parse_result = PARSE_PARSING | PARSE_OK | PARSE_UNEXPECTED_END | PARSE_UNEXPECTED_INPUT

record ('s, 'u) fsm_transition =
  tr_next :: 's
  tr_match :: "string option"
  tr_exec :: "(char \<Rightarrow> 'u \<Rightarrow> 'u res) option"

record ('s, 'u) fsm_state_infos =
  st_accept :: bool
  st_transitions :: "('s, 'u) fsm_transition list"

record ('s, 'u) fsm =
  fsm_table :: "'s \<Rightarrow> ('s, 'u) fsm_state_infos"
  fsm_ps :: parse_result
  fsm_state :: 's
  fsm_user :: 'u
  stream_index :: "32 word"
  fsm_line :: "32 word"
  fsm_col :: "32 word"

section \<open>Binary search\<close>

text \<open>The \<^verbatim>\<open>int\<close> that a \<^verbatim>\<open>char\<close> is converted to; it is signed.\<close>

definition schar :: "char \<Rightarrow> int" where
  "schar c = sint (of_char c :: 8 word)"

function binsearch_loop :: "char \<Rightarrow> string \<Rightarrow> int \<Rightarrow> int \<Rightarrow> bool" where
  "binsearch_loop needle haystack lo hi =
     (if lo \<le> hi
      then let mid = lo + (hi - lo) div 2; cmp = schar (haystack ! nat mid) - schar needle
           in if cmp < 0 then binsearch_loop needle haystack (mid + 1) hi
              else if cmp > 0 then binsearch_loop needle haystack lo (mid - 1)
              else True
      else False)"
  by auto
termination
  by (relation "measure (\<lambda>(needle, haystack, lo, hi). nat (hi - lo + 1))") auto

declare binsearch_loop.simps [simp del]

definition binsearch :: "char \<Rightarrow> string \<Rightarrow> nat \<Rightarrow> bool" where
  "binsearch needle haystack len =
     (if len \<noteq> 0 then binsearch_loop needle haystack 0 (int len - 1) else False)"

section \<open>Running a machine\<close>

definition fsm_new :: "('s \<Rightarrow> ('s, 'u) fsm_state_infos) \<Rightarrow> 's \<Rightarrow> 'u \<Rightarrow> ('s, 'u) fsm" where
  "fsm_new table init_state user =
     \<lparr>fsm_table = table, fsm_ps = PARSE_PARSING, fsm_state = init_state, fsm_user = user,
      stream_index = 0, fsm_line = 1, fsm_col = 0\<rparr>"

text \<open>The position of the next character.\<close>

definition fsm_advance :: "char \<Rightarrow> ('s, 'u) fsm \<Rightarrow> ('s, 'u) fsm" where
  "fsm_advance c fsm =
     (let fsm = (if c = CHR 0x0A then fsm\<lparr>fsm_line := fsm_line fsm + 1, fsm_col := 0\<rparr> else fsm)
      in fsm\<lparr>stream_index := stream_index fsm + 1, fsm_col := fsm_col fsm + 1\<rparr>)"

definition tr_matches :: "char \<Rightarrow> ('s, 'u) fsm_transition \<Rightarrow> bool" where
  "tr_matches c tr = (case tr_match tr of None \<Rightarrow> True | Some m \<Rightarrow> binsearch c m (length m))"

definition tr_run :: "('s, 'u) fsm_transition \<Rightarrow> char \<Rightarrow> 'u \<Rightarrow> 'u res" where
  "tr_run tr c user = (case tr_exec tr of None \<Rightarrow> Inr user | Some f \<Rightarrow> f c user)"

fun fsm_feed :: "('s, 'u) fsm \<Rightarrow> string \<Rightarrow> (parse_result \<times> ('s, 'u) fsm) res" where
  "fsm_feed fsm [] = Inr (fsm_ps fsm, fsm)"
| "fsm_feed fsm (c # cs) =
     (let fsm = fsm_advance c fsm
      in case find (tr_matches c) (st_transitions (fsm_table fsm (fsm_state fsm))) of
           None \<Rightarrow> Inr (PARSE_UNEXPECTED_INPUT, fsm\<lparr>fsm_ps := PARSE_UNEXPECTED_INPUT\<rparr>)
         | Some tr \<Rightarrow>
             rbind (tr_run tr c (fsm_user fsm)) (\<lambda>user.
               fsm_feed (fsm\<lparr>fsm_user := user, fsm_state := tr_next tr\<rparr>) cs))"

definition fsm_end :: "('s, 'u) fsm \<Rightarrow> parse_result \<times> ('s, 'u) fsm" where
  "fsm_end fsm =
     (let ps = (if st_accept (fsm_table fsm (fsm_state fsm)) then PARSE_OK else PARSE_UNEXPECTED_END)
      in (ps, fsm\<lparr>fsm_ps := ps\<rparr>))"

section \<open>The search finds the characters of a sorted array\<close>

lemma schar_inj [simp]: "schar c = schar d \<longleftrightarrow> c = d"
proof
  have byte: "uint (of_char x :: 8 word) = of_char x" for x
    by (subst of_int_of_char [symmetric]) (simp add: uint_word_of_int)
  assume "schar c = schar d"
  then have "(of_char c :: 8 word) = of_char d" by (simp add: schar_def signed_word_eqI)
  then have "(of_char c :: int) = of_char d" by (metis byte)
  then show "c = d" by simp
qed simp

lemma binsearch_loop_iff:
  assumes "sorted (map schar haystack)" "0 \<le> lo" "hi < int (length haystack)"
  shows "binsearch_loop needle haystack lo hi \<longleftrightarrow> (\<exists>i. lo \<le> i \<and> i \<le> hi \<and> haystack ! nat i = needle)"
  using assms
proof (induction needle haystack lo hi rule: binsearch_loop.induct)
  case (1 needle haystack lo hi)
  have ord: "schar (haystack ! nat i) \<le> schar (haystack ! nat j)" if "0 \<le> i" "i \<le> j" "j < int (length haystack)" for i j
    using sorted_nth_mono [OF "1.prems"(1), of "nat i" "nat j"] that by (simp add: nth_map nat_less_iff)
  define mid where "mid = lo + (hi - lo) div 2"
  show ?case
  proof (cases "lo \<le> hi")
    case True
    then have mid: "lo \<le> mid" "mid \<le> hi" by (auto simp: mid_def)
    consider "schar (haystack ! nat mid) < schar needle" | "schar (haystack ! nat mid) > schar needle" | "haystack ! nat mid = needle"
      by (metis linorder_less_linear schar_inj)
    then show ?thesis
    proof cases
      case 1
      then have "\<not> haystack ! nat i = needle" if "lo \<le> i" "i \<le> mid" for i using ord [of i mid] that "1.prems" mid by auto
      then have "(\<exists>i. lo \<le> i \<and> i \<le> hi \<and> haystack ! nat i = needle) \<longleftrightarrow> (\<exists>i. mid + 1 \<le> i \<and> i \<le> hi \<and> haystack ! nat i = needle)"
        using mid by (metis add1_zle_eq order.trans linorder_le_less_linear order_less_imp_le)
      then show ?thesis using "1.IH"(1) [OF True mid_def refl] 1 True "1.prems" mid
        by (subst binsearch_loop.simps) (simp add: mid_def [symmetric] Let_def)
    next
      case 2
      then have "\<not> haystack ! nat i = needle" if "mid \<le> i" "i \<le> hi" for i using ord [of mid i] that "1.prems" mid by auto
      then have "(\<exists>i. lo \<le> i \<and> i \<le> hi \<and> haystack ! nat i = needle) \<longleftrightarrow> (\<exists>i. lo \<le> i \<and> i \<le> mid - 1 \<and> haystack ! nat i = needle)"
        using mid by (smt (verit))
      then show ?thesis using "1.IH"(2) [OF True mid_def refl] 2 True "1.prems" mid
        by (subst binsearch_loop.simps) (simp add: mid_def [symmetric] Let_def)
    next
      case 3
      then show ?thesis using mid True by (subst binsearch_loop.simps) (auto simp: mid_def [symmetric] Let_def)
    qed
  qed (subst binsearch_loop.simps, auto)
qed

text \<open>
  In an array of characters sorted as signed characters, the binary search of the
  machines ends and finds exactly the characters of the array.
\<close>

lemma binsearch_correct:
  assumes "sorted (map schar haystack)"
  shows "binsearch needle haystack (length haystack) \<longleftrightarrow> needle \<in> set haystack"
proof -
  have "(\<exists>i. 0 \<le> i \<and> i \<le> int (length haystack) - 1 \<and> haystack ! nat i = needle) \<longleftrightarrow> needle \<in> set haystack"
    unfolding in_set_conv_nth by (metis (no_types, opaque_lifting) int_nat_eq nat_int of_nat_0_le_iff of_nat_less_iff zle_diff1_eq)
  then show ?thesis using binsearch_loop_iff [OF assms, of 0 "int (length haystack) - 1" needle] by (simp add: binsearch_def)
qed

section \<open>Input in pieces\<close>

text \<open>A machine that has met no error can be fed its input in pieces.\<close>

lemma fsm_advance_simps [simp]:
  "fsm_ps (fsm_advance c fsm) = fsm_ps fsm" "fsm_state (fsm_advance c fsm) = fsm_state fsm"
  "fsm_user (fsm_advance c fsm) = fsm_user fsm" "fsm_table (fsm_advance c fsm) = fsm_table fsm"
  by (simp_all add: fsm_advance_def Let_def)

lemma fsm_feed_append:
  assumes "fsm_ps fsm = PARSE_PARSING"
  shows "fsm_feed fsm (xs @ ys) = rbind (fsm_feed fsm xs) (\<lambda>(ps, fsm').
    if ps = PARSE_UNEXPECTED_INPUT then Inr (ps, fsm') else fsm_feed fsm' ys)"
  using assms
proof (induction fsm xs rule: fsm_feed.induct)
  case (2 fsm c cs)
  show ?case
  proof (cases "find (tr_matches c) (st_transitions (fsm_table fsm (fsm_state fsm)))")
    case (Some tr)
    show ?thesis
    proof (cases "tr_run tr c (fsm_user fsm)")
      case (Inr user)
      then show ?thesis using 2 Some by (simp add: Let_def)
    qed (simp add: Some Let_def)
  qed (simp add: Let_def)
qed simp

end
