(* ===== verification/Wcsh_Parse.thy ===== *)
theory Wcsh_Parse
  imports Fsm
begin

text \<open>
  The command language of the shell (\<^verbatim>\<open>tools/wcsh_parse.c\<close> with the table
  \<^verbatim>\<open>tools/wcsh.fsm\<close>): lines and script files are cut into commands, lists of words.
  What is done with a command is a parameter \<open>run\<close> on the state \<open>world\<close> of the shell: it is
  executed at once or appended to the program.
\<close>

section \<open>The parser\<close>

datatype cmdline_parse_state = STATE_BLANK | STATE_TOKEN | STATE_GROUP | STATE_ESCAPE | STATE_GROUP_END | STATE_COMMENT

text \<open>
  \<open>token\<close> is the part of the array \<^verbatim>\<open>token\<close> up to \<^verbatim>\<open>token_len\<close>. The arrays have
  1024 and 32 elements; writing after their end is an \<open>Overflow\<close>.
\<close>

record 'w cmd_parse =
  token_list :: "string list"
  token :: string
  world :: 'w

definition TOKEN_SIZE :: nat where "TOKEN_SIZE = 1024"

definition TOKEN_LIST_SIZE :: nat where "TOKEN_LIST_SIZE = 32"

type_synonym 'w run = "string list \<Rightarrow> 'w \<Rightarrow> 'w res"

definition save_char :: "char \<Rightarrow> 'w cmd_parse \<Rightarrow> 'w cmd_parse res" where
  "save_char c user =
     (if length (token user) \<ge> TOKEN_SIZE then Inl Overflow else Inr (user\<lparr>token := token user @ [c]\<rparr>))"

definition on_token_start :: "char \<Rightarrow> 'w cmd_parse \<Rightarrow> 'w cmd_parse res" where
  "on_token_start c user = save_char c (user\<lparr>token := []\<rparr>)"

definition on_group_start :: "char \<Rightarrow> 'w cmd_parse \<Rightarrow> 'w cmd_parse res" where
  "on_group_start c user = Inr (user\<lparr>token := []\<rparr>)"

definition save_token :: "char \<Rightarrow> 'w cmd_parse \<Rightarrow> 'w cmd_parse res" where
  "save_token c user =
     (if length (token user) \<ge> TOKEN_SIZE \<or> length (token_list user) \<ge> TOKEN_LIST_SIZE then Inl Overflow
      else Inr (user\<lparr>token_list := token_list user @ [c_str (token user) 0]\<rparr>))"

definition on_command_end :: "'w run \<Rightarrow> char \<Rightarrow> 'w cmd_parse \<Rightarrow> 'w cmd_parse res" where
  "on_command_end run c user =
     rbind (if length (token_list user) > 0 then run (token_list user) (world user) else Inr (world user)) (\<lambda>w.
       Inr (user\<lparr>world := w, token_list := []\<rparr>))"

definition save_token_end_command :: "'w run \<Rightarrow> char \<Rightarrow> 'w cmd_parse \<Rightarrow> 'w cmd_parse res" where
  "save_token_end_command run c user = rbind (save_token c user) (on_command_end run c)"

definition WHEN :: "string \<Rightarrow> (char \<Rightarrow> 'u \<Rightarrow> 'u res) option \<Rightarrow> 's \<Rightarrow> ('s, 'u) fsm_transition" where
  "WHEN m f s = \<lparr>tr_next = s, tr_match = Some m, tr_exec = f\<rparr>"

definition ELSE :: "(char \<Rightarrow> 'u \<Rightarrow> 'u res) option \<Rightarrow> 's \<Rightarrow> ('s, 'u) fsm_transition" where
  "ELSE f s = \<lparr>tr_next = s, tr_match = None, tr_exec = f\<rparr>"

definition BLANKS :: string where "BLANKS = [CHR 0x09, CHR '' '']"

definition ENDS :: string where "ENDS = [CHR 0x0A, CHR '';'']"

definition QUOTE :: char where "QUOTE = CHR 0x27"

definition BACKSLASH :: char where "BACKSLASH = CHR 0x5C"

fun wcsh_parse_script :: "'w run \<Rightarrow> cmdline_parse_state \<Rightarrow> (cmdline_parse_state, 'w cmd_parse) fsm_state_infos" where
  "wcsh_parse_script run STATE_BLANK = \<lparr>st_accept = True, st_transitions = [
     WHEN BLANKS None STATE_BLANK,
     WHEN [QUOTE] (Some on_group_start) STATE_GROUP,
     WHEN ''#'' None STATE_COMMENT,
     WHEN ENDS (Some (on_command_end run)) STATE_BLANK,
     ELSE (Some on_token_start) STATE_TOKEN]\<rparr>"
| "wcsh_parse_script run STATE_TOKEN = \<lparr>st_accept = True, st_transitions = [
     WHEN BLANKS (Some save_token) STATE_BLANK,
     WHEN ''#'' (Some save_token) STATE_COMMENT,
     WHEN ENDS (Some (save_token_end_command run)) STATE_BLANK,
     ELSE (Some save_char) STATE_TOKEN]\<rparr>"
| "wcsh_parse_script run STATE_GROUP = \<lparr>st_accept = False, st_transitions = [
     WHEN [QUOTE] (Some save_token) STATE_GROUP_END,
     WHEN [BACKSLASH] None STATE_ESCAPE,
     ELSE (Some save_char) STATE_GROUP]\<rparr>"
| "wcsh_parse_script run STATE_ESCAPE = \<lparr>st_accept = False, st_transitions = [
     WHEN [BACKSLASH] (Some save_char) STATE_GROUP]\<rparr>"
| "wcsh_parse_script run STATE_GROUP_END = \<lparr>st_accept = True, st_transitions = [
     WHEN ENDS (Some (on_command_end run)) STATE_BLANK,
     WHEN BLANKS None STATE_BLANK]\<rparr>"
| "wcsh_parse_script run STATE_COMMENT = \<lparr>st_accept = True, st_transitions = [
     WHEN [CHR 0x0A] (Some (on_command_end run)) STATE_BLANK,
     ELSE None STATE_COMMENT]\<rparr>"

definition no_parse :: "'w \<Rightarrow> 'w cmd_parse" where
  "no_parse w = \<lparr>token_list = [], token = [], world = w\<rparr>"

text \<open>The flag tells whether the line was parsed without an error message.\<close>

definition wcsh_cmdline_eval :: "'w run \<Rightarrow> string \<Rightarrow> 'w \<Rightarrow> (bool \<times> 'w) res" where
  "wcsh_cmdline_eval run buf w =
     rbind (fsm_feed (fsm_new (wcsh_parse_script run) STATE_BLANK (no_parse w)) (c_str buf 0 @ [CHR 0x0A])) (\<lambda>(ps, fsm).
       Inr (ps = PARSE_PARSING \<and> fst (fsm_end fsm) = PARSE_OK, world (fsm_user fsm)))"

text \<open>
  Script files are read in chunks, an empty one at the end of the file; the machine is a static
  variable that the first chunk creates. The state of the shell is the \<open>world\<close> of the machine.
\<close>

type_synonym 'w script_fsm = "(cmdline_parse_state, 'w cmd_parse) fsm"

definition wcsh_chunk_eval :: "'w run \<Rightarrow> 'w script_fsm option \<Rightarrow> 'w \<Rightarrow> string \<Rightarrow> (bool \<times> 'w script_fsm) res" where
  "wcsh_chunk_eval run machine w buf =
     (let fsm = (case machine of None \<Rightarrow> fsm_new (wcsh_parse_script run) STATE_BLANK (no_parse w) | Some fsm \<Rightarrow> fsm);
          fsm = fsm\<lparr>fsm_user := (fsm_user fsm)\<lparr>world := w\<rparr>\<rparr>
      in if length buf > 0
         then rbind (fsm_feed fsm buf) (\<lambda>(ps, fsm). Inr (ps = PARSE_PARSING, fsm))
         else rbind (fsm_feed fsm [CHR 0x0A]) (\<lambda>(ps, fsm).
           if ps \<noteq> PARSE_PARSING then Inr (False, fsm)
           else let (ps, fsm) = fsm_end fsm in Inr (ps = PARSE_OK, fsm)))"

section \<open>The machine as a lexer\<close>

definition lex_step :: "'w run \<Rightarrow> cmdline_parse_state \<Rightarrow> char \<Rightarrow> 'w cmd_parse \<Rightarrow> (cmdline_parse_state \<times> 'w cmd_parse) option res" where
  "lex_step run st c u = (case find (tr_matches c) (st_transitions (wcsh_parse_script run st)) of
      None \<Rightarrow> Inr None
    | Some tr \<Rightarrow> rbind (tr_run tr c u) (\<lambda>u. Inr (Some (tr_next tr, u))))"

fun lex :: "'w run \<Rightarrow> cmdline_parse_state \<Rightarrow> 'w cmd_parse \<Rightarrow> string \<Rightarrow> (bool \<times> cmdline_parse_state \<times> 'w cmd_parse) res" where
  "lex run st u [] = Inr (True, st, u)"
| "lex run st u (c # cs) = rbind (lex_step run st c u) (\<lambda>r. case r of
     None \<Rightarrow> Inr (False, st, u) | Some (st, u) \<Rightarrow> lex run st u cs)"

lemma match_WHEN [simp]: "sorted (map schar m) \<Longrightarrow> tr_matches c (WHEN m f s) \<longleftrightarrow> c \<in> set m"
  by (simp add: tr_matches_def WHEN_def binsearch_correct)

lemma match_ELSE [simp]: "tr_matches c (ELSE f s)"
  by (simp add: tr_matches_def ELSE_def)

lemma run_transition [simp]:
  "tr_run (WHEN m f s) c u = (case f of None \<Rightarrow> Inr u | Some f \<Rightarrow> f c u)" "tr_next (WHEN m f s) = s"
  "tr_run (ELSE f s) c u = (case f of None \<Rightarrow> Inr u | Some f \<Rightarrow> f c u)" "tr_next (ELSE f s) = s"
  by (simp_all add: tr_run_def WHEN_def ELSE_def)

lemma sorted_BLANKS [simp]: "sorted (map schar BLANKS)" "sorted (map schar ENDS)"
  by code_simp+

definition blank :: "char \<Rightarrow> bool" where "blank c \<longleftrightarrow> c \<in> set BLANKS"

definition ends :: "char \<Rightarrow> bool" where "ends c \<longleftrightarrow> c \<in> set ENDS"

definition next_state :: "cmdline_parse_state \<Rightarrow> 'w cmd_parse res \<Rightarrow> (cmdline_parse_state \<times> 'w cmd_parse) option res" where
  "next_state st r = rbind r (\<lambda>u. Inr (Some (st, u)))"

lemma lex_steps:
  "lex_step run STATE_BLANK c u =
     (if blank c then next_state STATE_BLANK (Inr u)
      else if c = QUOTE then next_state STATE_GROUP (on_group_start c u)
      else if c = CHR ''#'' then next_state STATE_COMMENT (Inr u)
      else if ends c then next_state STATE_BLANK (on_command_end run c u)
      else next_state STATE_TOKEN (on_token_start c u))"
  "lex_step run STATE_TOKEN c u =
     (if blank c then next_state STATE_BLANK (save_token c u)
      else if c = CHR ''#'' then next_state STATE_COMMENT (save_token c u)
      else if ends c then next_state STATE_BLANK (save_token_end_command run c u)
      else next_state STATE_TOKEN (save_char c u))"
  "lex_step run STATE_GROUP c u =
     (if c = QUOTE then next_state STATE_GROUP_END (save_token c u)
      else if c = BACKSLASH then next_state STATE_ESCAPE (Inr u)
      else next_state STATE_GROUP (save_char c u))"
  "lex_step run STATE_ESCAPE c u = (if c = BACKSLASH then next_state STATE_GROUP (save_char c u) else Inr None)"
  "lex_step run STATE_GROUP_END c u =
     (if ends c then next_state STATE_BLANK (on_command_end run c u)
      else if blank c then next_state STATE_BLANK (Inr u) else Inr None)"
  "lex_step run STATE_COMMENT c u =
     (if c = CHR 0x0A then next_state STATE_BLANK (on_command_end run c u) else next_state STATE_COMMENT (Inr u))"
  by (simp_all add: lex_step_def next_state_def blank_def ends_def)

lemma feed_lex:
  assumes "fsm_table fsm = wcsh_parse_script run"
  shows "rbind (fsm_feed fsm cs) (\<lambda>(ps, f). Inr (ps, fsm_table f, fsm_state f, fsm_user f)) =
    rbind (lex run (fsm_state fsm) (fsm_user fsm) cs) (\<lambda>(ok, st, u).
      Inr (if ok then fsm_ps fsm else PARSE_UNEXPECTED_INPUT, wcsh_parse_script run, st, u))"
  using assms
proof (induction fsm cs rule: fsm_feed.induct)
  case (2 fsm c cs)
  show ?case
  proof (cases "find (tr_matches c) (st_transitions (wcsh_parse_script run (fsm_state fsm)))")
    case (Some tr)
    show ?thesis
    proof (cases "tr_run tr c (fsm_user fsm)")
      case (Inr user)
      then show ?thesis using 2 Some
        by (cases "lex run (tr_next tr) user cs") (auto simp: Let_def lex_step_def)
    qed (simp add: Some Let_def lex_step_def 2(2))
  qed (simp add: Let_def lex_step_def 2(2))
qed simp

lemma eval_lex:
  "wcsh_cmdline_eval run buf w =
     rbind (lex run STATE_BLANK (no_parse w) (c_str buf 0 @ [CHR 0x0A])) (\<lambda>(ok, st, u).
       Inr (ok \<and> st_accept (wcsh_parse_script run st), world u))"
proof -
  let ?f = "fsm_new (wcsh_parse_script run) STATE_BLANK (no_parse w)"
  have "wcsh_cmdline_eval run buf w =
    rbind (rbind (fsm_feed ?f (c_str buf 0 @ [CHR 0x0A])) (\<lambda>(ps, f). Inr (ps, fsm_table f, fsm_state f, fsm_user f)))
      (\<lambda>(ps, table, st, u). Inr (ps = PARSE_PARSING \<and> st_accept (table st), world u))"
    unfolding wcsh_cmdline_eval_def
    by (cases "fsm_feed ?f (c_str buf 0 @ [CHR 0x0A])") (auto simp: fsm_end_def)
  also have "\<dots> = rbind (lex run STATE_BLANK (no_parse w) (c_str buf 0 @ [CHR 0x0A])) (\<lambda>(ok, st, u).
       Inr (ok \<and> st_accept (wcsh_parse_script run st), world u))"
    by (subst feed_lex [where run = run], simp add: fsm_new_def)
      (cases "lex run STATE_BLANK (no_parse w) (c_str buf 0 @ [CHR 0x0A])", auto simp: fsm_new_def)
  finally show ?thesis .
qed

section \<open>The words of the language\<close>

text \<open>Separators end a plain word; a plain word does not start with a quote.\<close>

definition sep :: "char \<Rightarrow> bool" where
  "sep c \<longleftrightarrow> blank c \<or> ends c \<or> c = CHR ''#''"

definition plain :: "string \<Rightarrow> bool" where
  "plain w \<longleftrightarrow> w \<noteq> [] \<and> hd w \<noteq> QUOTE \<and> list_all (\<lambda>c. \<not> sep c) w"

definition word_ok :: "string \<Rightarrow> bool" where
  "word_ok w \<longleftrightarrow> (plain w \<or> QUOTE \<notin> set w) \<and> no_nul w \<and> length w < TOKEN_SIZE"

definition cmd_ok :: "string list \<Rightarrow> bool" where
  "cmd_ok ws \<longleftrightarrow> ws \<noteq> [] \<and> length ws \<le> TOKEN_LIST_SIZE \<and> list_all word_ok ws"

text \<open>A way to write a command.\<close>

definition esc :: "char \<Rightarrow> string" where
  "esc c = (if c = BACKSLASH then [BACKSLASH, BACKSLASH] else [c])"

definition show_word :: "string \<Rightarrow> string" where
  "show_word w = (if plain w then w else QUOTE # concat (map esc w) @ [QUOTE])"

definition show_cmd :: "string list \<Rightarrow> string" where
  "show_cmd ws = concat (map (\<lambda>w. show_word w @ '' '') ws) @ '';''"

lemma chars_distinct [simp]:
  "blank CHR '' ''" "ends CHR '';''" "\<not> blank CHR '';''" "\<not> blank QUOTE" "\<not> ends CHR '' ''" "\<not> ends QUOTE" "QUOTE \<noteq> BACKSLASH"
  "CHR '';'' \<noteq> QUOTE" "CHR '';'' \<noteq> CHR ''#''" "CHR 0x0A \<noteq> QUOTE" "CHR 0x0A \<noteq> CHR ''#''" "ends CHR 0x0A" "\<not> blank CHR 0x0A"
  by code_simp+

lemma lex_plain:
  "list_all (\<lambda>c. \<not> sep c) cs \<Longrightarrow> length (token u) + length cs \<le> TOKEN_SIZE \<Longrightarrow>
   lex run STATE_TOKEN u (cs @ rest) = lex run STATE_TOKEN (u\<lparr>token := token u @ cs\<rparr>) rest"
proof (induction cs arbitrary: u)
  case (Cons c cs)
  then show ?case by (auto simp: lex_steps sep_def save_char_def next_state_def)
qed simp

lemma lex_group:
  "QUOTE \<notin> set cs \<Longrightarrow> length (token u) + length cs \<le> TOKEN_SIZE \<Longrightarrow>
   lex run STATE_GROUP u (concat (map esc cs) @ rest) = lex run STATE_GROUP (u\<lparr>token := token u @ cs\<rparr>) rest"
proof (induction cs arbitrary: u)
  case (Cons c cs)
  then show ?case by (auto simp: lex_steps save_char_def next_state_def esc_def)
qed simp

lemma c_str_all [simp]: "no_nul w \<Longrightarrow> c_str w 0 = w"
  by (auto simp: c_str_def no_nul_def takeWhile_eq_all_conv)

lemma lex_word:
  assumes "word_ok w" "length (token_list u) < TOKEN_LIST_SIZE"
  shows "lex run STATE_BLANK u (show_word w @ CHR '' '' # rest) =
    lex run STATE_BLANK (u\<lparr>token := w, token_list := token_list u @ [w]\<rparr>) rest"
proof (cases "plain w")
  case True
  then obtain c cs where w: "w = c # cs" and c: "c \<noteq> QUOTE" "\<not> sep c" "list_all (\<lambda>c. \<not> sep c) cs" by (cases w) (auto simp: plain_def)
  have "lex run STATE_BLANK u (w @ CHR '' '' # rest) = lex run STATE_TOKEN (u\<lparr>token := [c]\<rparr>) (cs @ CHR '' '' # rest)"
    using c by (simp add: w lex_steps sep_def on_token_start_def save_char_def next_state_def TOKEN_SIZE_def)
  also have "\<dots> = lex run STATE_TOKEN (u\<lparr>token := w\<rparr>) (CHR '' '' # rest)"
    using c assms(1) by (subst lex_plain) (auto simp: w word_ok_def)
  finally show ?thesis using True assms by (simp add: show_word_def lex_steps save_token_def next_state_def word_ok_def)
next
  case False
  then have q: "QUOTE \<notin> set w" using assms(1) by (simp add: word_ok_def)
  have "lex run STATE_BLANK u (show_word w @ CHR '' '' # rest) =
      lex run STATE_GROUP (u\<lparr>token := []\<rparr>) (concat (map esc w) @ QUOTE # CHR '' '' # rest)"
    using False by (simp add: show_word_def lex_steps on_group_start_def next_state_def)
  also have "\<dots> = lex run STATE_GROUP (u\<lparr>token := w\<rparr>) (QUOTE # CHR '' '' # rest)"
    using q assms(1) by (subst lex_group) (auto simp: word_ok_def)
  finally show ?thesis using assms by (simp add: lex_steps save_token_def next_state_def word_ok_def)
qed

lemma lex_words:
  "list_all word_ok ws \<Longrightarrow> length (token_list u) + length ws \<le> TOKEN_LIST_SIZE \<Longrightarrow>
   \<exists>t. lex run STATE_BLANK u (concat (map (\<lambda>w. show_word w @ '' '') ws) @ rest) =
     lex run STATE_BLANK (u\<lparr>token := t, token_list := token_list u @ ws\<rparr>) rest"
proof (induction ws arbitrary: u)
  case Nil
  have "u = u\<lparr>token := token u, token_list := token_list u @ []\<rparr>" by simp
  then show ?case by (metis concat.simps(1) list.map(1) append_Nil)
next
  case (Cons w ws)
  let ?u = "u\<lparr>token := w, token_list := token_list u @ [w]\<rparr>"
  obtain t where "lex run STATE_BLANK ?u (concat (map (\<lambda>w. show_word w @ '' '') ws) @ rest) =
     lex run STATE_BLANK (?u\<lparr>token := t, token_list := token_list ?u @ ws\<rparr>) rest"
    using Cons.IH [of ?u] Cons.prems by auto
  then show ?case using Cons.prems by (intro exI [of _ t]) (simp add: lex_word)
qed

primrec run_all :: "'w run \<Rightarrow> string list list \<Rightarrow> 'w \<Rightarrow> 'w res" where
  "run_all run [] w = Inr w"
| "run_all run (c # cs) w = rbind (run c w) (run_all run cs)"

lemma lex_cmds:
  "list_all cmd_ok cmds \<Longrightarrow> token_list u = [] \<Longrightarrow>
   rbind (lex run STATE_BLANK u (concat (map show_cmd cmds) @ [CHR 0x0A])) (\<lambda>(ok, st, u). Inr (ok, st, world u)) =
   rbind (run_all run cmds (world u)) (\<lambda>w. Inr (True, STATE_BLANK, w))"
proof (induction cmds arbitrary: u)
  case Nil
  then show ?case by (simp add: lex_steps next_state_def on_command_end_def)
next
  case (Cons ws cmds)
  let ?rest = "concat (map show_cmd cmds) @ [CHR 0x0A]"
  have ws: "ws \<noteq> []" "list_all word_ok ws" "length (token_list u) + length ws \<le> TOKEN_LIST_SIZE" using Cons.prems by (auto simp: cmd_ok_def)
  from lex_words [OF ws(2,3), of run "CHR '';'' # ?rest"]
  obtain t where t: "lex run STATE_BLANK u (show_cmd ws @ ?rest) =
     lex run STATE_BLANK (u\<lparr>token := t, token_list := ws\<rparr>) (CHR '';'' # ?rest)"
    using Cons.prems(2) by (auto simp: show_cmd_def)
  show ?case
  proof (cases "run ws (world u)")
    case (Inr w)
    then show ?thesis using t ws(1) Cons.IH [of "u\<lparr>token := t, world := w, token_list := []\<rparr>"] Cons.prems
      by (simp add: lex_steps next_state_def on_command_end_def)
  qed (use t ws(1) in \<open>simp add: lex_steps next_state_def on_command_end_def\<close>)
qed

lemma no_nul_show: "list_all cmd_ok cmds \<Longrightarrow> no_nul (concat (map show_cmd cmds))"
proof -
  have "no_nul (show_word w)" if "no_nul w" for w
    using that by (auto simp: show_word_def no_nul_def esc_def QUOTE_def BACKSLASH_def)
  then have "no_nul (show_cmd ws)" if "list_all word_ok ws" for ws
    using that by (induction ws) (auto simp: show_cmd_def word_ok_def)
  then show "list_all cmd_ok cmds \<Longrightarrow> no_nul (concat (map show_cmd cmds))" by (induction cmds) (auto simp: cmd_ok_def)
qed

lemma eval_show:
  assumes "list_all cmd_ok cmds"
  shows "wcsh_cmdline_eval run (concat (map show_cmd cmds)) w = rbind (run_all run cmds w) (\<lambda>w. Inr (True, w))"
proof -
  let ?text = "concat (map show_cmd cmds) @ [CHR 0x0A]"
  have "wcsh_cmdline_eval run (concat (map show_cmd cmds)) w =
     rbind (rbind (lex run STATE_BLANK (no_parse w) ?text) (\<lambda>(ok, st, u). Inr (ok, st, world u)))
       (\<lambda>(ok, st, w). Inr (ok \<and> st_accept (wcsh_parse_script run st), w))"
    unfolding eval_lex c_str_all [OF no_nul_show [OF assms]]
    by (cases "lex run STATE_BLANK (no_parse w) ?text") auto
  also have "\<dots> = rbind (run_all run cmds w) (\<lambda>w. Inr (True, w))"
    using lex_cmds [OF assms, of "no_parse w" run] by (cases "run_all run cmds w") (auto simp: no_parse_def)
  finally show ?thesis .
qed

text \<open>
  Any commands of at most 32 words of less than 1024 characters, where a word without
  a quote may contain anything else and a word with quotes no separator, can be written on a
  line so that the shell runs exactly these commands, in order, and reports no error.
\<close>

lemma wcsh_round_trip:
  assumes "list_all cmd_ok cmds"
  shows "wcsh_cmdline_eval run (concat (map show_cmd cmds)) w = rbind (run_all run cmds w) (\<lambda>w. Inr (True, w))"
  by (rule eval_show [OF assms])

section \<open>Only such commands\<close>

text \<open>A shell that records its commands.\<close>

definition record_cmd :: "string list list run" where
  "record_cmd ws cmds = Inr (cmds @ [ws])"

fun lex_inv :: "cmdline_parse_state \<Rightarrow> string list list cmd_parse \<Rightarrow> bool" where
  "lex_inv st u \<longleftrightarrow> list_all cmd_ok (world u) \<and> list_all word_ok (token_list u) \<and> length (token_list u) \<le> TOKEN_LIST_SIZE \<and>
     (st = STATE_TOKEN \<longrightarrow> plain (token u)) \<and> (st = STATE_GROUP \<or> st = STATE_ESCAPE \<longrightarrow> QUOTE \<notin> set (token u))"

lemma word_ok_c_str:
  assumes "plain w \<or> QUOTE \<notin> set w" "length w < TOKEN_SIZE"
  shows "word_ok (c_str w 0)"
proof -
  have sub: "set (c_str w 0) \<subseteq> set w" by (auto simp: c_str_def dest: set_takeWhileD)
  have len: "length (c_str w 0) < TOKEN_SIZE" using assms(2) length_takeWhile_le [of _ w] by (auto simp: c_str_def intro: order.strict_trans1)
  have nul: "no_nul (c_str w 0)" by (auto simp: c_str_def no_nul_def dest: set_takeWhileD)
  have "plain (c_str w 0) \<or> c_str w 0 = []" if "plain w"
    using that by (cases w) (auto simp: plain_def c_str_def list_all_iff dest: set_takeWhileD)
  then show ?thesis using assms(1) sub len nul by (auto simp: word_ok_def)
qed

lemma save_token_inv:
  assumes "save_token c u = Inr u'" "list_all cmd_ok (world u)" "list_all word_ok (token_list u)" "plain (token u) \<or> QUOTE \<notin> set (token u)"
  shows "list_all cmd_ok (world u')" "list_all word_ok (token_list u')" "length (token_list u') \<le> TOKEN_LIST_SIZE"
  using assms word_ok_c_str [OF assms(4)] by (auto simp: save_token_def split: if_splits)

lemma command_end_inv:
  assumes "on_command_end record_cmd c u = Inr u'" "list_all cmd_ok (world u)" "list_all word_ok (token_list u)" "length (token_list u) \<le> TOKEN_LIST_SIZE"
  shows "lex_inv STATE_BLANK u'"
  using assms by (auto simp: on_command_end_def record_cmd_def cmd_ok_def rbind_eq_Inr_iff split: if_splits)

lemma next_state_Some: "next_state st r = Inr (Some (st', u')) \<longleftrightarrow> st' = st \<and> r = Inr u'"
  by (cases r) (auto simp: next_state_def)

lemma lex_step_inv:
  assumes "lex_step record_cmd st c u = Inr (Some (st', u'))" "lex_inv st u"
  shows "lex_inv st' u'"
proof (cases st)
  case STATE_BLANK
  then show ?thesis using assms command_end_inv [of c u u']
    by (auto simp: lex_steps next_state_Some on_group_start_def on_token_start_def save_char_def plain_def sep_def split: if_splits)
next
  case STATE_TOKEN
  have "lex_inv STATE_BLANK u'" if e: "save_token_end_command record_cmd c u = Inr u'"
  proof -
    obtain u1 where u1: "save_token c u = Inr u1" "on_command_end record_cmd c u1 = Inr u'"
      using e by (auto simp: save_token_end_command_def rbind_eq_Inr_iff)
    have "list_all cmd_ok (world u)" "list_all word_ok (token_list u)" "plain (token u) \<or> QUOTE \<notin> set (token u)"
      using assms(2) STATE_TOKEN by auto
    from command_end_inv [OF u1(2) save_token_inv [OF u1(1) this]] show ?thesis .
  qed
  moreover have "plain (token u @ [c])" if "\<not> blank c" "\<not> ends c" "c \<noteq> CHR ''#''"
    using that assms(2) STATE_TOKEN by (auto simp: plain_def sep_def)
  ultimately show ?thesis using assms STATE_TOKEN save_token_inv [of c u u']
    by (auto simp: lex_steps next_state_Some save_char_def split: if_splits)
next
  case STATE_GROUP
  then show ?thesis using assms save_token_inv [of c u u']
    by (auto simp: lex_steps next_state_Some save_char_def split: if_splits)
next
  case STATE_ESCAPE
  then show ?thesis using assms by (auto simp: lex_steps next_state_Some save_char_def split: if_splits)
next
  case STATE_GROUP_END
  then show ?thesis using assms command_end_inv [of c u u'] by (auto simp: lex_steps next_state_Some split: if_splits)
next
  case STATE_COMMENT
  then show ?thesis using assms command_end_inv [of c u u'] by (auto simp: lex_steps next_state_Some split: if_splits)
qed

lemma lex_keeps_inv: "lex record_cmd st u cs = Inr (ok, st', u') \<Longrightarrow> lex_inv st u \<Longrightarrow> lex_inv st' u'"
proof (induction cs arbitrary: st u)
  case (Cons c cs)
  then obtain r where r: "lex_step record_cmd st c u = Inr r" by (auto simp: rbind_eq_Inr_iff)
  show ?case
  proof (cases r)
    case (Some p)
    then show ?thesis using Cons r lex_step_inv [of st c u "fst p" "snd p"] by (cases p) (simp del: lex_inv.simps)
  qed (use Cons r in simp)
qed simp

lemma run_record: "run_all record_cmd cmds done = Inr (done @ cmds)"
  by (induction cmds arbitrary: "done") (auto simp: record_cmd_def)

text \<open>
  Claim C36: the commands that some line makes the shell run are exactly the lists of commands
  of 1 to 32 words of less than 1024 characters in which no word contains both a quote and a
  separator, or starts with a quote: a quote cannot be escaped.
\<close>

theorem wcsh_expressible:
  "(\<exists>buf. wcsh_cmdline_eval record_cmd buf [] = Inr (True, cmds)) \<longleftrightarrow> list_all cmd_ok cmds"
proof
  assume "\<exists>buf. wcsh_cmdline_eval record_cmd buf [] = Inr (True, cmds)"
  then obtain buf ok st u where "lex record_cmd STATE_BLANK (no_parse []) (c_str buf 0 @ [CHR 0x0A]) = Inr (ok, st, u)" "cmds = world u"
    by (auto simp: eval_lex rbind_eq_Inr_iff)
  then show "list_all cmd_ok cmds" using lex_keeps_inv by (fastforce simp: no_parse_def)
next
  assume "list_all cmd_ok cmds"
  then show "\<exists>buf. wcsh_cmdline_eval record_cmd buf [] = Inr (True, cmds)"
    by (intro exI [of _ "concat (map show_cmd cmds)"]) (simp add: eval_show run_record)
qed

lemma wcsh_round_trip_witness:
  "wcsh_cmdline_eval record_cmd (show_cmd [''put'', ''/a'', ''it is'']) [] = Inr (True, [[''put'', ''/a'', ''it is'']])"
proof -
  have "list_all cmd_ok [[''put'', ''/a'', ''it is'']]" by code_simp
  from wcsh_round_trip [OF this, of record_cmd "[]"] show ?thesis by (simp add: record_cmd_def)
qed

text \<open>A longer word is written after the end of the array.\<close>

lemma long_word_overflows:
  assumes "list_all (\<lambda>c. \<not> sep c \<and> c \<noteq> QUOTE) w" "length w = Suc TOKEN_SIZE"
  shows "lex run STATE_BLANK u (w @ rest) = Inl Overflow"
proof -
  obtain c cs d where w: "w = c # cs @ [d]" and len: "length cs = TOKEN_SIZE - 1"
    using assms(2) by (cases w; cases "tl w" rule: rev_cases) (auto simp: TOKEN_SIZE_def)
  have "lex run STATE_BLANK u (w @ rest) = lex run STATE_TOKEN (u\<lparr>token := [c]\<rparr>) (cs @ d # rest)"
    using assms(1) by (simp add: w lex_steps sep_def on_token_start_def save_char_def next_state_def TOKEN_SIZE_def)
  also have "\<dots> = lex run STATE_TOKEN (u\<lparr>token := c # cs\<rparr>) (d # rest)"
    using assms(1) len by (subst lex_plain) (auto simp: w list_all_iff TOKEN_SIZE_def)
  finally show ?thesis using assms(1) len by (simp add: w lex_steps sep_def save_char_def next_state_def TOKEN_SIZE_def)
qed

end
