(* ===== verification/Wcsh_Program.thy ===== *)
theory Wcsh_Program
  imports Prelude
begin

text \<open>
  The program of the shell (\<^verbatim>\<open>tools/wcsh_program.c\<close>): the statements of a script wait in
  a queue; while the runner is active, an idle watcher of the event loop executes one of them at
  each turn. A statement may pause the program, and a later event resumes it.

  The list of statements is the linked list from \<^verbatim>\<open>program_head\<close>; what a statement does is
  a parameter. \<open>executed\<close> records the statements that were executed. The shell that the
  statements act on is the field \<open>user\<close>.
\<close>

section \<open>State\<close>

datatype program_state = PAUSED | RUNNING

datatype runner_state = INACTIVE | ACTIVE

record 'w program =
  program_state :: program_state
  runner_state :: runner_state
  statements :: "string list list"
  pending_commands :: int
  idle_active :: bool
  executed :: "string list list"
  user :: 'w

definition program_start :: "'w \<Rightarrow> 'w program" where
  "program_start w =
     \<lparr>program_state = RUNNING, runner_state = INACTIVE, statements = [], pending_commands = 0, idle_active = False,
      executed = [], user = w\<rparr>"

text \<open>What executing a statement does; it may pause the program.\<close>

type_synonym 'w exec = "string list \<Rightarrow> 'w program \<Rightarrow> 'w program res"

section \<open>Operations\<close>

text \<open>libev forbids to initialise a watcher that is active.\<close>

definition wcsh_program_resume :: "'w program \<Rightarrow> 'w program res" where
  "wcsh_program_resume p =
     (let p = p\<lparr>program_state := RUNNING\<rparr>
      in if pending_commands p > 0
         then let p = p\<lparr>runner_state := ACTIVE\<rparr>
              in if idle_active p then Inl ApiMisuse else Inr (p\<lparr>idle_active := True\<rparr>)
         else Inr p)"

definition wcsh_program_pause :: "'w program \<Rightarrow> 'w program" where
  "wcsh_program_pause p = p\<lparr>program_state := PAUSED, runner_state := INACTIVE, idle_active := False\<rparr>"

definition wcsh_program_append :: "string list \<Rightarrow> 'w program \<Rightarrow> 'w program res" where
  "wcsh_program_append argv p =
     (if length argv > 0
      then let p = p\<lparr>statements := statements p @ [argv], pending_commands := pending_commands p + 1\<rparr>
           in if pending_commands p > 0 \<and> program_state p = RUNNING \<and> runner_state p = INACTIVE
              then wcsh_program_resume p else Inr p
      else Inr p)"

definition remove_head :: "'w program \<Rightarrow> 'w program res" where
  "remove_head p =
     (if pending_commands p > 0
      then case statements p of
             [] \<Rightarrow> Inl NullDeref
           | bak # rest \<Rightarrow>
               let p = p\<lparr>statements := rest, pending_commands := pending_commands p - 1\<rparr>
               in Inr (if pending_commands p = 0 then p\<lparr>program_state := PAUSED\<rparr> else p)
      else Inr p)"

definition wcsh_program_is_finished :: "'w program \<Rightarrow> bool" where
  "wcsh_program_is_finished p \<longleftrightarrow> pending_commands p = 0"

definition wcsh_program_run_step :: "'w exec \<Rightarrow> 'w program \<Rightarrow> (int \<times> 'w program) res" where
  "wcsh_program_run_step wcsh_exec p =
     (if \<not> wcsh_program_is_finished p
      then case statements p of
             [] \<Rightarrow> Inl NullDeref
           | head # rest \<Rightarrow>
               rbind (wcsh_exec head (p\<lparr>executed := executed p @ [head]\<rparr>)) (\<lambda>p. rbind (remove_head p) (\<lambda>p. Inr (0, p)))
      else Inr (1, p))"

text \<open>The loop calls back a watcher that is active.\<close>

definition idle_cb :: "'w exec \<Rightarrow> 'w program \<Rightarrow> 'w program res" where
  "idle_cb wcsh_exec p =
     (if idle_active p then rbind (wcsh_program_run_step wcsh_exec p) (\<lambda>(r, p). Inr p) else Inr p)"

section \<open>The runner and the events it waits for\<close>

text \<open>
  The runner is active exactly when its watcher is. While it is, nothing is awaited;
  otherwise the program is paused until the one event that is awaited, or there is nothing to
  execute.
\<close>

definition runner_inv :: "('w \<Rightarrow> nat) \<Rightarrow> 'w program \<Rightarrow> bool" where
  "runner_inv awaited p \<longleftrightarrow> pending_commands p = int (length (statements p)) \<and> (idle_active p \<longleftrightarrow> runner_state p = ACTIVE) \<and>
     (if runner_state p = ACTIVE then awaited (user p) = 0
      else if program_state p = PAUSED then awaited (user p) = 1
      else awaited (user p) = 0 \<and> statements p = [])"

lemma runner_start: "awaited w = 0 \<Longrightarrow> runner_inv awaited (program_start w)"
  by (simp add: runner_inv_def program_start_def)

lemma append_ok:
  assumes "runner_inv awaited p"
  shows "\<exists>p'. wcsh_program_append argv p = Inr p' \<and> runner_inv awaited p' \<and> user p' = user p \<and> executed p' = executed p \<and>
    statements p' = statements p @ (if argv = [] then [] else [argv])"
  using assms by (cases "runner_state p"; cases "program_state p")
    (auto simp: runner_inv_def wcsh_program_append_def wcsh_program_resume_def Let_def)

text \<open>The awaited event comes: it is noted, and the program goes on.\<close>

lemma resume_ok:
  assumes "runner_inv awaited p" "awaited (user p) = 1" "awaited w = 0"
  shows "\<exists>p'. wcsh_program_resume (p\<lparr>user := w\<rparr>) = Inr p' \<and> runner_inv awaited p' \<and> user p' = w \<and> executed p' = executed p \<and>
    statements p' = statements p"
  using assms by (cases "runner_state p"; cases "program_state p")
    (auto simp: runner_inv_def wcsh_program_resume_def Let_def split: if_splits)

lemma pause_ok:
  assumes "runner_inv awaited p" "awaited w = 1"
  shows "runner_inv awaited (wcsh_program_pause (p\<lparr>user := w\<rparr>))"
  using assms by (auto simp: runner_inv_def wcsh_program_pause_def)

lemma user_ok:
  assumes "runner_inv awaited p" "awaited w = awaited (user p)"
  shows "runner_inv awaited (p\<lparr>user := w\<rparr>)"
  using assms by (auto simp: runner_inv_def)

lemma executed_ok: "runner_inv awaited (p\<lparr>executed := e\<rparr>) = runner_inv awaited p"
  by (simp add: runner_inv_def)

lemma remove_head_ok:
  assumes "runner_inv awaited p" "statements p = c # rest"
    and "runner_state p = INACTIVE \<longrightarrow> program_state p = PAUSED"
  shows "\<exists>p'. remove_head p = Inr p' \<and> runner_inv awaited p' \<and> user p' = user p \<and> executed p' = executed p \<and> statements p' = rest"
  using assms by (cases "runner_state p") (auto simp: runner_inv_def remove_head_def Let_def)

text \<open>
  Nothing stops the watcher when the queue is empty: the loop calls it back for ever, although
  there is nothing to execute.
\<close>

lemma runner_never_rests: "idle_active p \<Longrightarrow> pending_commands p = 0 \<Longrightarrow> idle_cb f p = Inr p"
  by (simp add: idle_cb_def wcsh_program_run_step_def wcsh_program_is_finished_def)

section \<open>The interface between the program and the shell\<close>

text \<open>
  A shell executes statements: it leaves the queue alone, and it pauses the program exactly
  when it awaits an event.
\<close>

locale command_runner =
  fixes wcsh_exec :: "'w exec" and awaited :: "'w \<Rightarrow> nat"
  assumes exec_queue: "wcsh_exec argv p = Inr p' \<Longrightarrow> runner_inv awaited p \<Longrightarrow> runner_state p = ACTIVE \<Longrightarrow>
      statements p' = statements p \<and> executed p' = executed p"
    and exec_inv: "wcsh_exec argv p = Inr p' \<Longrightarrow> runner_inv awaited p \<Longrightarrow> runner_state p = ACTIVE \<Longrightarrow>
      runner_inv awaited p' \<and> (runner_state p' = INACTIVE \<longrightarrow> program_state p' = PAUSED)"
begin

lemma run_step:
  assumes "wcsh_program_run_step wcsh_exec p = Inr (r, p')" "runner_inv awaited p" "runner_state p = ACTIVE"
  shows "runner_inv awaited p'" "executed p' @ statements p' = executed p @ statements p"
    "r = 0 \<longrightarrow> (\<exists>c. statements p = c # statements p' \<and> executed p' = executed p @ [c])"
proof -
  have "runner_inv awaited p' \<and> executed p' @ statements p' = executed p @ statements p \<and>
    (r = 0 \<longrightarrow> (\<exists>c. statements p = c # statements p' \<and> executed p' = executed p @ [c]))"
  proof (cases "pending_commands p = 0")
    case False
    then obtain c rest p1 where 1: "statements p = c # rest" "wcsh_exec c (p\<lparr>executed := executed p @ [c]\<rparr>) = Inr p1"
      "remove_head p1 = Inr p'" "r = 0"
      using assms(1) by (auto simp: wcsh_program_run_step_def wcsh_program_is_finished_def rbind_eq_Inr_iff split: list.splits)
    have inv: "runner_inv awaited p1" "runner_state p1 = INACTIVE \<longrightarrow> program_state p1 = PAUSED"
      using exec_inv [OF 1(2)] assms(2,3) by (simp_all add: executed_ok)
    have st: "statements p1 = c # rest" "executed p1 = executed p @ [c]" using exec_queue [OF 1(2)] 1(1) assms(2,3) by (simp_all add: executed_ok)
    show ?thesis using remove_head_ok [OF inv(1) st(1) inv(2)] 1 st by auto
  qed (use assms in \<open>auto simp: wcsh_program_run_step_def wcsh_program_is_finished_def\<close>)
  then show "runner_inv awaited p'" "executed p' @ statements p' = executed p @ statements p"
    "r = 0 \<longrightarrow> (\<exists>c. statements p = c # statements p' \<and> executed p' = executed p @ [c])" by blast+
qed

lemma idle:
  assumes "idle_cb wcsh_exec p = Inr p'" "runner_inv awaited p"
  shows "runner_inv awaited p' \<and> executed p' @ statements p' = executed p @ statements p"
proof (cases "idle_active p")
  case True
  then obtain r where "wcsh_program_run_step wcsh_exec p = Inr (r, p')" using assms(1) by (auto simp: idle_cb_def rbind_eq_Inr_iff)
  then show ?thesis using run_step [of p r p'] assms(2) True by (auto simp: runner_inv_def)
qed (use assms in \<open>simp add: idle_cb_def\<close>)

end

end
