(* ===== verification/Log.thy ===== *)
theory Log
  imports Prelude
begin

text \<open>
  The logs (\<^verbatim>\<open>lib/log.c\<close>, \<^verbatim>\<open>webcom-log.h\<close>): a level per facility, the filter of
  libwebsockets, and the backends. What a backend gets is recorded in \<open>log_out\<close>; the message
  is the formatted one. The levels of libwebsockets are symbols.
\<close>

section \<open>Facilities and levels\<close>

datatype wc_log_facility =
  WC_LOG_WEBSOCKET | WC_LOG_PARSER | WC_LOG_CONNECTION | WC_LOG_MESSAGE | WC_LOG_GENERAL | WC_LOG_APPLICATION | WC_LOG_AUTH |
  WC_LOG_ALL

datatype wc_log_level =
  WC_LOG_EMERG | WC_LOG_ALERT | WC_LOG_CRIT | WC_LOG_ERR | WC_LOG_WARNING | WC_LOG_NOTICE | WC_LOG_INFO | WC_LOG_DEBUG |
  WC_LOG_EXTRADEBUG | WC_LOG_DISABLED

fun facility_no :: "wc_log_facility \<Rightarrow> nat" where
  "facility_no WC_LOG_WEBSOCKET = 0" | "facility_no WC_LOG_PARSER = 1" | "facility_no WC_LOG_CONNECTION = 2"
| "facility_no WC_LOG_MESSAGE = 3" | "facility_no WC_LOG_GENERAL = 4" | "facility_no WC_LOG_APPLICATION = 5"
| "facility_no WC_LOG_AUTH = 6" | "facility_no WC_LOG_ALL = 7"

fun level_no :: "wc_log_level \<Rightarrow> nat" where
  "level_no WC_LOG_EMERG = 0" | "level_no WC_LOG_ALERT = 1" | "level_no WC_LOG_CRIT = 2" | "level_no WC_LOG_ERR = 3"
| "level_no WC_LOG_WARNING = 4" | "level_no WC_LOG_NOTICE = 5" | "level_no WC_LOG_INFO = 6" | "level_no WC_LOG_DEBUG = 7"
| "level_no WC_LOG_EXTRADEBUG = 8" | "level_no WC_LOG_DISABLED = 9"

lemma level_no_inj: "level_no l = level_no l' \<longleftrightarrow> l = l'"
  by (cases l; cases l') simp_all

lemma level_no_max: "level_no l \<le> 9"
  by (cases l) simp_all

instantiation wc_log_level :: linorder
begin

definition less_eq_wc_log_level :: "wc_log_level \<Rightarrow> wc_log_level \<Rightarrow> bool" where
  "less_eq_wc_log_level l l' \<longleftrightarrow> level_no l \<le> level_no l'"

definition less_wc_log_level :: "wc_log_level \<Rightarrow> wc_log_level \<Rightarrow> bool" where
  "less_wc_log_level l l' \<longleftrightarrow> level_no l < level_no l'"

instance
  by standard (auto simp: less_eq_wc_log_level_def less_wc_log_level_def level_no_inj)

end

lemmas level_order = less_eq_wc_log_level_def less_wc_log_level_def

lemma level_le_disabled [simp]: "l \<le> WC_LOG_DISABLED"
  by (simp add: level_order level_no_max)

definition wc_log_facility_names :: "string list" where
  "wc_log_facility_names = [''LWS'', ''PRS'', ''CNX'', ''MSG'', ''GEN'', ''APP'', ''AUT'']"

definition wc_log_level_names :: "string list" where
  "wc_log_level_names =
     ['' EMERG'', '' ALERT'', ''CRITIC'', '' ERROR'', ''WARNIN'', ''NOTICE'', ''  INFO'', '' DEBUG'', ''EXTDBG'']"

text \<open>The levels of libwebsockets, those that the library does not name in one constructor.\<close>

datatype lll =
  LLL_ERR | LLL_WARN | LLL_NOTICE | LLL_INFO | LLL_DEBUG | LLL_PARSER | LLL_HEADER | LLL_EXT | LLL_CLIENT | LLL_LATENCY |
  LLL_UNNAMED nat

section \<open>State\<close>

text \<open>The custom function is a number that stands for it.\<close>

datatype wc_log_backend = Be_stderr | Be_custom nat | Be_syslog string int int | Be_journald

datatype log_line =
    On_stderr string string int string string
  | On_custom nat string string string string int string
  | On_syslog wc_log_level string int string string
  | On_journald string int string string wc_log_level string

record log_state =
  wc_log_levels :: "wc_log_facility \<Rightarrow> wc_log_level"
  lws_log_level :: "lll list"
  log_backend :: wc_log_backend
  log_out :: "log_line list"

text \<open>The levels that the source does not initialise are 0.\<close>

definition initial_levels :: "wc_log_facility \<Rightarrow> wc_log_level" where
  "initial_levels = ((\<lambda>_. WC_LOG_EMERG)
     (WC_LOG_WEBSOCKET := WC_LOG_ERR, WC_LOG_PARSER := WC_LOG_ERR, WC_LOG_CONNECTION := WC_LOG_ERR,
      WC_LOG_MESSAGE := WC_LOG_ERR, WC_LOG_GENERAL := WC_LOG_ERR, WC_LOG_APPLICATION := WC_LOG_WARNING))"

section \<open>Levels\<close>

text \<open>The cases of the switch fall through.\<close>

function lws_level :: "wc_log_level \<Rightarrow> lll list" where
  "lws_level WC_LOG_EXTRADEBUG = [LLL_EXT, LLL_PARSER, LLL_LATENCY] @ lws_level WC_LOG_DEBUG"
| "lws_level WC_LOG_DEBUG = [LLL_DEBUG, LLL_CLIENT] @ lws_level WC_LOG_INFO"
| "lws_level WC_LOG_INFO = [LLL_INFO] @ lws_level WC_LOG_NOTICE"
| "lws_level WC_LOG_NOTICE = [LLL_NOTICE] @ lws_level WC_LOG_WARNING"
| "lws_level WC_LOG_WARNING = [LLL_WARN] @ lws_level WC_LOG_ERR"
| "lws_level WC_LOG_ERR = [LLL_ERR]"
| "lws_level WC_LOG_CRIT = []"
| "lws_level WC_LOG_ALERT = []"
| "lws_level WC_LOG_EMERG = []"
| "lws_level WC_LOG_DISABLED = []"
  by pat_completeness auto
termination by (relation "measure level_no") simp_all

definition set_facility_level :: "wc_log_facility \<Rightarrow> wc_log_level \<Rightarrow> log_state \<Rightarrow> log_state" where
  "set_facility_level f l st =
     (let st = (if f = WC_LOG_WEBSOCKET then st\<lparr>lws_log_level := lws_level l\<rparr> else st)
      in st\<lparr>wc_log_levels := (wc_log_levels st)(f := l)\<rparr>)"

definition all_facilities :: "wc_log_facility list" where
  "all_facilities = [WC_LOG_WEBSOCKET, WC_LOG_PARSER, WC_LOG_CONNECTION, WC_LOG_MESSAGE, WC_LOG_GENERAL, WC_LOG_APPLICATION, WC_LOG_AUTH]"

definition wc_set_log_level :: "wc_log_facility \<Rightarrow> wc_log_level \<Rightarrow> log_state \<Rightarrow> log_state" where
  "wc_set_log_level f l st =
     (if f = WC_LOG_ALL then fold (\<lambda>i. set_facility_level i l) all_facilities st else set_facility_level f l st)"

definition wc_init_log :: "log_state \<Rightarrow> log_state" where
  "wc_init_log st = wc_set_log_level WC_LOG_WEBSOCKET (wc_log_levels st WC_LOG_WEBSOCKET) st"

definition wc_log_use_stderr :: "log_state \<Rightarrow> log_state" where
  "wc_log_use_stderr st = st\<lparr>log_backend := Be_stderr\<rparr>"

definition wc_log_use_custom :: "nat \<Rightarrow> log_state \<Rightarrow> log_state" where
  "wc_log_use_custom f st = st\<lparr>log_backend := Be_custom f\<rparr>"

definition wc_log_use_syslog :: "string \<Rightarrow> int \<Rightarrow> int \<Rightarrow> log_state \<Rightarrow> log_state" where
  "wc_log_use_syslog ident opt facility st = st\<lparr>log_backend := Be_syslog ident opt facility\<rparr>"

definition wc_log_use_journald :: "log_state \<Rightarrow> log_state" where
  "wc_log_use_journald st = st\<lparr>log_backend := Be_journald\<rparr>"

section \<open>Messages\<close>

fun basename_loop :: "string \<Rightarrow> string \<Rightarrow> string" where
  "basename_loop ret [] = ret"
| "basename_loop ret (c # p) = basename_loop (if c = CHR ''/'' then p else ret) p"

definition basename :: "string \<Rightarrow> string" where
  "basename p = basename_loop p p"

text \<open>The names are read from arrays; a level or a facility after their end is an \<open>Overflow\<close>.\<close>

definition name_at :: "string list \<Rightarrow> nat \<Rightarrow> string res" where
  "name_at names i = (if i < length names then Inr (names ! i) else Inl Overflow)"

definition log_to :: "wc_log_backend \<Rightarrow> wc_log_facility \<Rightarrow> wc_log_level \<Rightarrow> string \<Rightarrow> string \<Rightarrow> int \<Rightarrow> string \<Rightarrow> log_line res" where
  "log_to be f l file func line msg = rbind (name_at wc_log_facility_names (facility_no f)) (\<lambda>fname. case be of
      Be_stderr \<Rightarrow> rbind (name_at wc_log_level_names (level_no l)) (\<lambda>lname. Inr (On_stderr lname (basename file) line fname msg))
    | Be_custom c \<Rightarrow>
        rbind (name_at wc_log_level_names (level_no l)) (\<lambda>lname. Inr (On_custom c fname lname (basename file) func line msg))
    | Be_syslog ident opt facility \<Rightarrow>
        Inr (On_syslog (if l = WC_LOG_EXTRADEBUG then WC_LOG_DEBUG else l) (basename file) line fname msg)
    | Be_journald \<Rightarrow> Inr (On_journald file line func msg l fname))"

definition wc_log :: "wc_log_facility \<Rightarrow> wc_log_level \<Rightarrow> string \<Rightarrow> string \<Rightarrow> int \<Rightarrow> string \<Rightarrow> log_state \<Rightarrow> log_state res" where
  "wc_log f l file func line msg st =
     (if f = WC_LOG_ALL then Inl Overflow
      else if l > wc_log_levels st f then Inr st
      else rbind (log_to (log_backend st) f l file func line msg) (\<lambda>out. Inr (st\<lparr>log_out := log_out st @ [out]\<rparr>)))"

fun lws_adapt :: "lll \<Rightarrow> wc_log_level" where
  "lws_adapt LLL_ERR = WC_LOG_ERR"
| "lws_adapt LLL_WARN = WC_LOG_WARNING"
| "lws_adapt LLL_NOTICE = WC_LOG_NOTICE"
| "lws_adapt LLL_INFO = WC_LOG_INFO"
| "lws_adapt LLL_DEBUG = WC_LOG_DEBUG"
| "lws_adapt LLL_CLIENT = WC_LOG_DEBUG"
| "lws_adapt LLL_PARSER = WC_LOG_EXTRADEBUG"
| "lws_adapt LLL_HEADER = WC_LOG_EXTRADEBUG"
| "lws_adapt LLL_EXT = WC_LOG_EXTRADEBUG"
| "lws_adapt LLL_LATENCY = WC_LOG_EXTRADEBUG"
| "lws_adapt (LLL_UNNAMED n) = WC_LOG_EXTRADEBUG"

definition wc_lws_log_adapter :: "lll \<Rightarrow> string \<Rightarrow> log_state \<Rightarrow> log_state res" where
  "wc_lws_log_adapter level line st = wc_log WC_LOG_WEBSOCKET (lws_adapt level) ''libwebsockets.so'' ''N/A'' 0 line st"

text \<open>The level of each group of macros (\<^verbatim>\<open>W_EXDBG\<close>, \<^verbatim>\<open>WL_EXDBG\<close>, \<^verbatim>\<open>APP_EXDBG\<close> and so on).\<close>

datatype log_macro = EXDBG | DBG | INFO | NOT | WARN | ERR | CRIT | ALRT | EMRG

fun macro_level :: "log_macro \<Rightarrow> wc_log_level" where
  "macro_level EXDBG = WC_LOG_EXTRADEBUG"
| "macro_level DBG = WC_LOG_DEBUG"
| "macro_level INFO = WC_LOG_INFO"
| "macro_level NOT = WC_LOG_NOTICE"
| "macro_level WARN = WC_LOG_INFO"
| "macro_level ERR = WC_LOG_ERR"
| "macro_level CRIT = WC_LOG_CRIT"
| "macro_level ALRT = WC_LOG_ALERT"
| "macro_level EMRG = WC_LOG_EMERG"

definition W_LOG :: "wc_log_facility \<Rightarrow> wc_log_level \<Rightarrow> string \<Rightarrow> string \<Rightarrow> int \<Rightarrow> string \<Rightarrow> log_state \<Rightarrow> log_state res" where
  "W_LOG f l file func line msg = wc_log f l file func line (msg @ [CHR 0x0A])"

section \<open>The base name\<close>

lemma basename_loop_eq: "basename_loop ret p = (if CHR ''/'' \<in> set p then rev (takeWhile (\<lambda>c. c \<noteq> CHR ''/'') (rev p)) else ret)"
proof (induction ret p rule: basename_loop.induct)
  case (2 ret c p)
  have "takeWhile (\<lambda>c. c \<noteq> CHR ''/'') (rev p @ [c]) =
    (if CHR ''/'' \<in> set p then takeWhile (\<lambda>c. c \<noteq> CHR ''/'') (rev p) else if c = CHR ''/'' then rev p else rev p @ [c])"
    by (auto intro!: takeWhile_append1 simp: takeWhile_append)
  then show ?case using 2 by auto
qed simp

lemma basename_is_last_part: "basename p = rev (takeWhile (\<lambda>c. c \<noteq> CHR ''/'') (rev p))"
proof (cases "CHR ''/'' \<in> set p")
  case False
  then have e: "takeWhile (\<lambda>c. c \<noteq> CHR ''/'') (rev p) = rev p" by (subst takeWhile_eq_all_conv) auto
  show ?thesis unfolding e using False by (simp add: basename_def basename_loop_eq)
qed (simp add: basename_def basename_loop_eq)

section \<open>What is logged\<close>

text \<open>The level that a sequence of calls of \<^verbatim>\<open>wc_set_log_level\<close> gives a facility.\<close>

definition configured :: "(wc_log_facility \<times> wc_log_level) list \<Rightarrow> wc_log_facility \<Rightarrow> wc_log_level" where
  "configured cs f = (case filter (\<lambda>(g, l). g = f \<or> g = WC_LOG_ALL) (rev cs) of [] \<Rightarrow> initial_levels f | (g, l) # _ \<Rightarrow> l)"

definition log_start :: "wc_log_backend \<Rightarrow> log_state" where
  "log_start be = wc_init_log \<lparr>wc_log_levels = initial_levels, lws_log_level = [], log_backend = be, log_out = []\<rparr>"

definition configure :: "(wc_log_facility \<times> wc_log_level) list \<Rightarrow> log_state \<Rightarrow> log_state" where
  "configure cs st = fold (\<lambda>(f, l). wc_set_log_level f l) cs st"

lemma configured_snoc: "configured (cs @ [(g, l)]) f = (if g = f \<or> g = WC_LOG_ALL then l else configured cs f)"
  by (simp add: configured_def)

lemma set_level_levels:
  "f \<noteq> WC_LOG_ALL \<Longrightarrow> wc_log_levels (wc_set_log_level g l st) f = (if g = f \<or> g = WC_LOG_ALL then l else wc_log_levels st f)"
  by (cases f) (auto simp: wc_set_log_level_def set_facility_level_def all_facilities_def Let_def)

lemma set_level_lws:
  "lws_log_level (wc_set_log_level g l st) =
     (if g = WC_LOG_WEBSOCKET \<or> g = WC_LOG_ALL then lws_level l else lws_log_level st)"
  by (auto simp: wc_set_log_level_def set_facility_level_def all_facilities_def Let_def)

lemma set_level_rest: "log_backend (wc_set_log_level g l st) = log_backend st" "log_out (wc_set_log_level g l st) = log_out st"
  by (auto simp: wc_set_log_level_def set_facility_level_def all_facilities_def Let_def)

lemma configure_snoc: "configure (cs @ [(g, l)]) st = wc_set_log_level g l (configure cs st)"
  by (simp add: configure_def)

lemma configure_state:
  "(f \<noteq> WC_LOG_ALL \<longrightarrow> wc_log_levels (configure cs (log_start be)) f = configured cs f) \<and>
   lws_log_level (configure cs (log_start be)) = lws_level (configured cs WC_LOG_WEBSOCKET) \<and>
   log_backend (configure cs (log_start be)) = be \<and> log_out (configure cs (log_start be)) = []"
proof (induction cs rule: rev_induct)
  case Nil
  then show ?case
    by (auto simp: configure_def log_start_def wc_init_log_def set_level_levels set_level_lws set_level_rest configured_def)
next
  case (snoc c cs)
  obtain g l where c: "c = (g, l)" by fastforce
  then show ?case using snoc
    by (auto simp: configure_snoc set_level_levels set_level_lws set_level_rest configured_snoc)
qed

lemma lws_level_iff:
  "x \<in> set (lws_level l) \<longleftrightarrow> lws_adapt x \<le> l \<and> l \<noteq> WC_LOG_DISABLED \<and> x \<noteq> LLL_HEADER \<and> (\<forall>n. x \<noteq> LLL_UNNAMED n)"
  by (cases l; cases x) (simp_all add: level_order)

lemma log_to_defined: "f \<noteq> WC_LOG_ALL \<Longrightarrow> l \<noteq> WC_LOG_DISABLED \<Longrightarrow> \<exists>out. log_to be f l file func line msg = Inr out"
  by (cases be; cases f; cases l)
     (simp_all add: log_to_def name_at_def wc_log_facility_names_def wc_log_level_names_def)



text \<open>Nothing of the authentication below an emergency is logged unless a level is set.\<close>

lemma auth_not_logged: "initial_levels WC_LOG_AUTH = WC_LOG_EMERG"
  by (simp add: initial_levels_def)

text \<open>The macros for warnings log at the level of informations.\<close>

lemma warnings_are_informations: "macro_level WARN = macro_level INFO"
  by simp

end
