(* ===== verification/Wcsh.thy ===== *)
theory Wcsh
  imports Wcsh_Parse Wcsh_Program Log Datasync
begin

text \<open>
  The shell (\<^verbatim>\<open>tools/wcsh.c\<close>): its commands on a context of the library, the events it
  waits for, the scripts it reads and the lines that are typed. The prompt, the line editing and
  the colours are left out; what is printed is recorded in \<open>sh_out\<close>.
\<close>

section \<open>State\<close>

datatype shell_output =
    Unknown_command string
  | Wrong_arguments string string
  | Usage string
  | Command_list "(string \<times> string) list"
  | Command_help string string
  | Entry char string
  | Text string
  | File string string
  | Open_error string
  | Parse_error
  | Value_at nat string string
  | New_child nat string string string
  | Child_removed nat string string
  | Child_changed nat string string string

text \<open>The bits of \<^verbatim>\<open>waiting\<close> are \<open>w_connected\<close>, \<open>w_disconnected\<close> and \<open>w_data\<close>.
  \<open>wait_cbs\<close> are the handles for which the library still calls \<^verbatim>\<open>data_wait_cb\<close>.\<close>

record 'tok shell =
  lib :: "'tok webcom_ctx"
  sh_log :: log_state
  sh_connected :: bool
  sh_disconnect :: bool
  sh_done :: bool
  w_connected :: bool
  w_disconnected :: bool
  w_data :: bool
  data_cb :: "nat option"
  data_hash :: string
  wait_cbs :: "nat list"
  ev_sleep :: "32 word option"
  cwd :: wc_ds_path
  sh_out :: "shell_output list"

text \<open>
  What is around the shell: the libraries and the application as the library sees them, the
  32-bit reading of JSON integers, the time of day, and the files.
\<close>

record 'tok shell_env =
  sh_env :: "'tok webcom_env"
  sh_get_int :: "int \<Rightarrow> int"
  sh_time :: "'tok webcom_ctx \<Rightarrow> int \<times> int"
  json_object_from_file :: "string \<Rightarrow> json option"
  can_write :: "string \<Rightarrow> bool"

type_synonym 'tok wcsh = "'tok shell program"

abbreviation upd_user :: "('w \<Rightarrow> 'w) \<Rightarrow> 'w program \<Rightarrow> 'w program" where
  "upd_user f p \<equiv> p\<lparr>user := f (user p)\<rparr>"

definition print :: "shell_output \<Rightarrow> 'tok wcsh \<Rightarrow> 'tok wcsh" where
  "print out p = upd_user (\<lambda>sh. sh\<lparr>sh_out := sh_out sh @ [out]\<rparr>) p"

text \<open>The context after a call of the library.\<close>

definition on_lib :: "('tok webcom_ctx \<Rightarrow> 'tok webcom_ctx res) \<Rightarrow> 'tok wcsh \<Rightarrow> 'tok wcsh res" where
  "on_lib f p = rbind (f (lib (user p))) (\<lambda>ctx. Inr (upd_user (\<lambda>sh. sh\<lparr>lib := ctx\<rparr>) p))"

text \<open>An argument after the last one is read after the end of the array.\<close>

definition arg :: "string list \<Rightarrow> nat \<Rightarrow> string res" where
  "arg argv i = (if i < length argv then Inr (argv ! i) else Inl Overflow)"

definition root_path :: wc_ds_path where
  "root_path = \<lparr>p_buf = Some [], p_norm = ''/'', p_nparts = 0, p_offsets = []\<rparr>"

section \<open>Callbacks of the library\<close>

definition on_connected :: "'tok wcsh \<Rightarrow> 'tok wcsh res" where
  "on_connected p =
     (let p = upd_user (\<lambda>sh. sh\<lparr>sh_connected := True\<rparr>) p
      in if w_connected (user p) then wcsh_program_resume (upd_user (\<lambda>sh. sh\<lparr>w_connected := False\<rparr>) p) else Inr p)"

definition on_disconnected :: "'tok wcsh \<Rightarrow> (bool \<times> 'tok wcsh) res" where
  "on_disconnected p =
     (let p = upd_user (\<lambda>sh. sh\<lparr>sh_connected := False\<rparr>) p
      in rbind (if w_disconnected (user p) then wcsh_program_resume (upd_user (\<lambda>sh. sh\<lparr>w_disconnected := False\<rparr>) p) else Inr p)
           (\<lambda>p. Inr (\<not> sh_done (user p) \<and> \<not> sh_disconnect (user p), p)))"

definition on_error :: "string \<Rightarrow> 'tok wcsh \<Rightarrow> bool \<times> 'tok wcsh" where
  "on_error err p = (True, print (Text err) (upd_user (\<lambda>sh. sh\<lparr>sh_connected := False\<rparr>) p))"

text \<open>The callbacks of subscriptions are known by numbers.\<close>

definition ON_VALUE_CB :: nat where "ON_VALUE_CB = 0"

definition ON_CHILD_ADDED_CB :: nat where "ON_CHILD_ADDED_CB = 1"

definition ON_CHILD_REMOVED_CB :: nat where "ON_CHILD_REMOVED_CB = 2"

definition ON_CHILD_CHANGED_CB :: nat where "ON_CHILD_CHANGED_CB = 3"

definition DATA_WAIT_CB :: nat where "DATA_WAIT_CB = 4"

text \<open>
  The callbacks that print what they are told. All keep their subscriptions. The path of a child
  is shown without the slash of the root.
\<close>

definition shown_path :: "string \<Rightarrow> string res" where
  "shown_path path = (if path = [] then Inl Overflow else Inr (if length path = 1 then tl path else path))"

definition on_value_cb :: "nat \<Rightarrow> string \<Rightarrow> string \<Rightarrow> 'tok wcsh \<Rightarrow> 'tok wcsh res" where
  "on_value_cb handle data cur p =
     rbind (wc_datasync_on_handle_get_path (lib (user p)) handle) (\<lambda>path. Inr (print (Value_at handle path data) p))"

definition on_child_added_cb :: "nat \<Rightarrow> string \<Rightarrow> string \<Rightarrow> 'tok wcsh \<Rightarrow> 'tok wcsh res" where
  "on_child_added_cb handle data cur p =
     rbind (wc_datasync_on_handle_get_path (lib (user p)) handle) (\<lambda>path.
     rbind (shown_path path) (\<lambda>path. Inr (print (New_child handle path cur data) p)))"

definition on_child_removed_cb :: "nat \<Rightarrow> string \<Rightarrow> string \<Rightarrow> 'tok wcsh \<Rightarrow> 'tok wcsh res" where
  "on_child_removed_cb handle data cur p =
     rbind (wc_datasync_on_handle_get_path (lib (user p)) handle) (\<lambda>path.
     rbind (shown_path path) (\<lambda>path. Inr (print (Child_removed handle path cur) p)))"

definition on_child_changed_cb :: "nat \<Rightarrow> string \<Rightarrow> string \<Rightarrow> 'tok wcsh \<Rightarrow> 'tok wcsh res" where
  "on_child_changed_cb handle data cur p =
     rbind (wc_datasync_on_handle_get_path (lib (user p)) handle) (\<lambda>path.
     rbind (shown_path path) (\<lambda>path. Inr (print (Child_changed handle path cur data) p)))"

definition told :: "nat \<Rightarrow> nat \<Rightarrow> string \<Rightarrow> string \<Rightarrow> 'tok wcsh \<Rightarrow> 'tok wcsh res" where
  "told cb handle data cur p =
     (if cb = ON_VALUE_CB then on_value_cb handle data cur p
      else if cb = ON_CHILD_ADDED_CB then on_child_added_cb handle data cur p
      else if cb = ON_CHILD_REMOVED_CB then on_child_removed_cb handle data cur p
      else if cb = ON_CHILD_CHANGED_CB then on_child_changed_cb handle data cur p
      else Inr p)"

definition data_wait_cb :: "nat \<Rightarrow> 'tok wcsh \<Rightarrow> (bool \<times> 'tok wcsh) res" where
  "data_wait_cb handle p =
     (if Some handle = data_cb (user p)
      then rbind (wc_datasync_on_handle_get_path (lib (user p)) handle) (\<lambda>path.
           rbind (data_cache_get (cache (lib (user p))) path) (\<lambda>n.
             if treenode_hash_eq (Some (data_hash (user p))) (node_hash n)
             then rbind (wcsh_program_resume (upd_user (\<lambda>sh. sh\<lparr>w_data := False\<rparr>) p)) (\<lambda>p. Inr (False, p))
             else Inr (True, p)))
      else Inr (True, p))"

definition sleep_cb :: "'tok wcsh \<Rightarrow> 'tok wcsh res" where
  "sleep_cb p = wcsh_program_resume p"

section \<open>Commands\<close>

type_synonym 'tok command = "'tok shell_env \<Rightarrow> string list \<Rightarrow> 'tok wcsh \<Rightarrow> 'tok wcsh res"

definition subscribe :: "'tok shell_env \<Rightarrow> on_event_type \<Rightarrow> nat \<Rightarrow> string list \<Rightarrow> 'tok wcsh \<Rightarrow> 'tok wcsh res" where
  "subscribe K ty cb argv p = rbind (arg argv 1) (\<lambda>path.
     on_lib (\<lambda>ctx. rbind (wc_datasync_on (env_sdk (sh_env K)) (app_on_data (sh_env K)) ty ctx path cb) (\<lambda>(h, ctx). Inr ctx)) p)"

definition exec_on :: "'tok command" where
  "exec_on K argv p = rbind (arg argv 0) (\<lambda>a.
     if a = ''value'' then subscribe K ON_VALUE ON_VALUE_CB argv p
     else if a = ''child_added'' then subscribe K ON_CHILD_ADDED ON_CHILD_ADDED_CB argv p
     else if a = ''child_removed'' then subscribe K ON_CHILD_REMOVED ON_CHILD_REMOVED_CB argv p
     else if a = ''child_changed'' then subscribe K ON_CHILD_CHANGED ON_CHILD_CHANGED_CB argv p
     else Inr (print (Usage '' on {value,child_added,child_removed_child_changed} PATH'') p))"

definition exec_off :: "'tok command" where
  "exec_off K argv p = (let E = env_sdk (sh_env K) in case argv of
      [path] \<Rightarrow> on_lib (\<lambda>ctx. wc_datasync_off_path E ctx path) p
    | [a, path] \<Rightarrow>
        (if a = ''value'' then on_lib (\<lambda>ctx. wc_datasync_off_path_type E ctx path ON_VALUE) p
         else if a = ''child_added'' then on_lib (\<lambda>ctx. wc_datasync_off_path_type E ctx path ON_CHILD_ADDED) p
         else if a = ''child_removed'' then on_lib (\<lambda>ctx. wc_datasync_off_path_type E ctx path ON_CHILD_REMOVED) p
         else if a = ''child_changed'' then on_lib (\<lambda>ctx. wc_datasync_off_path_type E ctx path ON_CHILD_CHANGED) p
         else Inr p)
    | _ \<Rightarrow> Inr p)"

definition exec_info :: "'tok command" where
  "exec_info K argv p = (case argv of
      [] \<Rightarrow> Inr (print (Usage '' info {on,listen}'') p)
    | a # _ \<Rightarrow>
        Inr (if a = ''on'' then print (Text (dump_on_registry (on_reg (lib (user p))))) p
             else if a = ''listen'' then print (Text (dump_listen_registry (listen_reg (lib (user p))))) p
             else p))"

definition exec_cache_save :: "'tok command" where
  "exec_cache_save K argv p = (case argv of
      [f] \<Rightarrow> Inr (print (if can_write K f then File f (ftreenode_to_json (dc_root (cache (lib (user p)))) []) else Open_error f) p)
    | _ \<Rightarrow> Inr p)"

definition exec_cache_load :: "'tok command" where
  "exec_cache_load K argv p = (case argv of
      [f] \<Rightarrow> (case json_object_from_file K f of
          Some json \<Rightarrow> on_lib (\<lambda>ctx.
            rbind (data_cache_set_ex (cache ctx) root_path json) (\<lambda>c.
              on_registry_dispatch_on_event (env_sdk (sh_env K)) (app_on_data (sh_env K)) (ctx\<lparr>cache := c\<rparr>) ''/'')) p
        | None \<Rightarrow> Inr (print (Open_error f) p))
    | _ \<Rightarrow> Inr p)"

definition exec_cache :: "'tok command" where
  "exec_cache K argv p = (case argv of
      [] \<Rightarrow> Inr (print (Usage '' cache {dump,save,load}'') p)
    | a # rest \<Rightarrow>
        if a = ''print'' then Inr (print (Text (ftreenode_to_json (dc_root (cache (lib (user p)))) [] @ [CHR 0x0A])) p)
        else if a = ''load'' then exec_cache_load K rest p
        else if a = ''save'' then exec_cache_save K rest p
        else Inr p)"

definition exec_cd :: "'tok command" where
  "exec_cd K argv p = Inr (case argv of
      [] \<Rightarrow> upd_user (\<lambda>sh. sh\<lparr>cwd := root_path\<rparr>) p
    | a # _ \<Rightarrow> upd_user (\<lambda>sh. sh\<lparr>cwd := wc_datasync_path_new a\<rparr>) p)"

text \<open>\<^verbatim>\<open>sscanf(s, "%u", &t)\<close>, with the saturation of \<^verbatim>\<open>strtoul\<close>.\<close>

definition scan_u :: "string \<Rightarrow> 32 word option" where
  "scan_u s =
     (let s = dropWhile c_isspace s;
          neg = (s \<noteq> [] \<and> hd s = CHR ''-'');
          s = (if s \<noteq> [] \<and> (hd s = CHR ''-'' \<or> hd s = CHR ''+'') then tl s else s)
      in if s = [] \<or> digit_value (hd s) \<ge> 10 then None
         else let v = fst (scan_digits 10 0 s)
              in Some (if v \<ge> 2 ^ 64 then - 1 else if neg then - word_of_int v else word_of_int v))"

text \<open>libev forbids to initialise a timer that is active.\<close>

definition exec_sleep :: "'tok command" where
  "exec_sleep K argv p = rbind (arg argv 0) (\<lambda>a. case scan_u a of
      None \<Rightarrow> Inr p
    | Some t \<Rightarrow>
        if ev_sleep (user p) \<noteq> None then Inl ApiMisuse
        else Inr (wcsh_program_pause (upd_user (\<lambda>sh. sh\<lparr>ev_sleep := Some t\<rparr>) p)))"

definition print_treenode_entry :: "treenode \<Rightarrow> string \<Rightarrow> 'tok wcsh \<Rightarrow> 'tok wcsh" where
  "print_treenode_entry n key p = print (case n of
      TN_bool b \<Rightarrow> Entry CHR ''b'' (key @ '': '' @ (if b then ''true'' else ''false''))
    | TN_null \<Rightarrow> Entry CHR ''-'' key
    | TN_number h d \<Rightarrow> Entry CHR ''n'' key
    | TN_string h s \<Rightarrow> Entry CHR ''s'' key
    | TN_internal h t \<Rightarrow> Entry CHR ''i'' (key @ ''/'')) p"

definition exec_ls :: "'tok command" where
  "exec_ls K argv p = rbind (data_cache_get_parsed (cache (lib (user p))) (cwd (user p))) (\<lambda>n. Inr (case n of
      None \<Rightarrow> print (Entry CHR ''-'' ''.'') p
    | Some (TN_internal h t) \<Rightarrow> fold (\<lambda>(key, n). print_treenode_entry n key) (reg_all t) p
    | Some n \<Rightarrow> print_treenode_entry n ''.'' p))"

definition exec_log :: "'tok command" where
  "exec_log K argv p = rbind (arg argv 0) (\<lambda>a. let set_all = \<lambda>l. upd_user (\<lambda>sh. sh\<lparr>sh_log := wc_set_log_level WC_LOG_ALL l (sh_log sh)\<rparr>) p in
     Inr (if a = ''on'' then set_all WC_LOG_INFO
          else if a = ''off'' then set_all WC_LOG_CRIT
          else if a = ''verbose'' then set_all WC_LOG_DEBUG
          else p))"

definition exec_connect :: "'tok command" where
  "exec_connect K argv p = on_lib (\<lambda>ctx. Inr (wc_datasync_connect (sh_env K) ctx)) (upd_user (\<lambda>sh. sh\<lparr>sh_disconnect := False\<rparr>) p)"

definition exec_disconnect :: "'tok command" where
  "exec_disconnect K argv p = on_lib (\<lambda>ctx. Inr (wc_datasync_close_cnx ctx)) (upd_user (\<lambda>sh. sh\<lparr>sh_disconnect := True\<rparr>) p)"

definition exec_exit :: "'tok command" where
  "exec_exit K argv p = Inr (upd_user (\<lambda>sh. sh\<lparr>sh_done := True\<rparr>) p)"

text \<open>
  While the value is subscribed to, \<^verbatim>\<open>data_wait_cb\<close> is called for a value already in the
  cache; it is not the one waited for, and the callback does nothing.
\<close>

definition wait_data :: "'tok shell_env \<Rightarrow> string \<Rightarrow> string \<Rightarrow> 'tok wcsh \<Rightarrow> 'tok wcsh res" where
  "wait_data K path json p = (let E = env_sdk (sh_env K) in
     rbind (treenode_from_json (env_tokener E) (sh_get_int K) json) (\<lambda>n.
     rbind (data_cache_get (cache (lib (user p))) path) (\<lambda>c.
       let cached_hash = node_hash c; wanted_hash = node_hash (Some n) in
       if \<not> treenode_hash_eq wanted_hash cached_hash
       then let p = upd_user (\<lambda>sh. sh\<lparr>data_hash := treenode_hash_copy wanted_hash, w_data := True\<rparr>) p
            in rbind (wc_datasync_on_value E (app_on_data (sh_env K)) (lib (user p)) path DATA_WAIT_CB) (\<lambda>(h, ctx).
                 Inr (wcsh_program_pause (upd_user (\<lambda>sh. sh\<lparr>data_cb := Some h, wait_cbs := h # wait_cbs sh, lib := ctx\<rparr>) p)))
       else Inr p)))"

definition exec_wait :: "'tok command" where
  "exec_wait K argv p = rbind (arg argv 0) (\<lambda>a.
     if a = ''connected''
     then if \<not> sh_connected (user p) then Inr (wcsh_program_pause (upd_user (\<lambda>sh. sh\<lparr>w_connected := True\<rparr>) p)) else Inr p
     else if a = ''disconnected''
     then if sh_connected (user p) then Inr (wcsh_program_pause (upd_user (\<lambda>sh. sh\<lparr>w_disconnected := True\<rparr>) p)) else Inr p
     else if a = ''data'' \<and> length argv = 3 then wait_data K (argv ! 1) (argv ! 2) p
     else Inr p)"

definition exec_merge :: "'tok command" where
  "exec_merge K argv p = rbind (arg argv 0) (\<lambda>path. rbind (arg argv 1) (\<lambda>json.
     on_lib (\<lambda>ctx. Inr (snd (wc_datasync_merge (env_sdk (sh_env K)) ctx path json None 0))) p))"

definition exec_push :: "'tok command" where
  "exec_push K argv p = rbind (arg argv 0) (\<lambda>path. rbind (arg argv 1) (\<lambda>json.
     on_lib (\<lambda>ctx. Inr (snd (wc_datasync_push (env_sdk (sh_env K)) (sh_time K ctx) ctx path json None 0))) p))"

definition exec_put :: "'tok command" where
  "exec_put K argv p = rbind (arg argv 0) (\<lambda>path. rbind (arg argv 1) (\<lambda>json.
     on_lib (\<lambda>ctx. Inr (snd (wc_datasync_put (env_sdk (sh_env K)) ctx path json None 0))) p))"

section \<open>The table of commands\<close>

datatype command_name =
  Cmd_cache | Cmd_cd | Cmd_connect | Cmd_disconnect | Cmd_exit | Cmd_help | Cmd_info | Cmd_log | Cmd_ls | Cmd_merge | Cmd_off |
  Cmd_on | Cmd_push | Cmd_put | Cmd_sleep | Cmd_wait

record command_infos =
  c_name :: string
  c_help :: string
  c_usage :: string
  min_args :: int
  max_args :: int
  execute :: command_name

definition commands :: "command_infos list" where
  "commands = map (\<lambda>(name, help, usage, lo, hi, f).
       \<lparr>c_name = name, c_help = help, c_usage = usage, min_args = lo, max_args = hi, execute = f\<rparr>)
     [(''cache'', ''Prints, loads from a file or stores in a file the contents of the cache'', ''cache {print,load,save}'', 1, 2, Cmd_cache),
      (''cd'', ''Sets the current working path to \"/\", or to the specified path'', ''cd [PATH]'', 0, 1, Cmd_cd),
      (''connect'', ''Connects to the datasync server'', ''connect'', 0, 0, Cmd_connect),
      (''disconnect'', ''Disconnects from the datasync server'', ''disconnect'', 0, 0, Cmd_disconnect),
      (''exit'', ''Exits from this shell'', ''exit'', 0, 0, Cmd_exit),
      (''help'', ''Shows available commands or shows help about a command'', ''help [COMMAND]'', 0, 1, Cmd_help),
      (''info'', ''Displays internal informations about the \"on\"-subscriptions, listen status'', ''info {on,listen}'', 1, 1, Cmd_info),
      (''log'', ''Enable or disables logs'', ''log {on,off,verbose}'', 1, 1, Cmd_log),
      (''ls'', ''Displays the cached contents of the datasync database at the current path or at the specified path'', ''ls [PATH]'', 0, 1, Cmd_ls),
      (''merge'', ''Sends a merge request on a given path, with a given json document'', ''merge PATH JSON'', 2, 2, Cmd_merge),
      (''off'', ''Unregisters from a given data event, or all data events on a given path'',
        ''off [{value,child_added,child_removed,child_changed}] PATH'', 1, 2, Cmd_off),
      (''on'', ''Registers to a given data event on a given path'', ''on {value,child_added,child_removed,child_changed} PATH'', 2, 2, Cmd_on),
      (''push'', ''Sends a push request on a given path, with a given json document'', ''push PATH JSON'', 2, 2, Cmd_push),
      (''put'', ''Sends a put request on a given path, with a given json document'', ''put PATH JSON'', 2, 2, Cmd_put),
      (''sleep'', ''Suspends the interpreter for a given number of seconds'', ''sleep SECONDS'', 1, 1, Cmd_sleep),
      (''wait'', ''Waits for a particular event before executing the following statements'',
        ''wait {connected,disconnected} | wait data PATH JSON'', 1, 3, Cmd_wait)]"

function find_command_loop :: "string list \<Rightarrow> string \<Rightarrow> int \<Rightarrow> int \<Rightarrow> nat option" where
  "find_command_loop names name lo hi =
     (if lo \<le> hi
      then let mid = lo + (hi - lo) div 2; cmp = strcmp (names ! nat mid) name
           in if cmp < 0 then find_command_loop names name (mid + 1) hi
              else if cmp > 0 then find_command_loop names name lo (mid - 1)
              else Some (nat mid)
      else None)"
  by auto
termination
  by (relation "measure (\<lambda>(names, name, lo, hi). nat (hi - lo + 1))") auto

declare find_command_loop.simps [simp del]

definition find_command :: "string \<Rightarrow> command_infos option" where
  "find_command name =
     map_option (\<lambda>i. commands ! i) (find_command_loop (map c_name commands) name 0 (int (length commands) - 1))"

definition exec_help :: "'tok command" where
  "exec_help K argv p = Inr (case argv of
      [] \<Rightarrow> print (Command_list (map (\<lambda>c. (c_name c, c_help c)) commands)) p
    | a # _ \<Rightarrow> (case find_command a of
        None \<Rightarrow> print (Unknown_command a) p
      | Some cmd \<Rightarrow> print (Command_help (c_help cmd) (c_usage cmd)) p))"

fun run_command :: "command_name \<Rightarrow> 'tok command" where
  "run_command Cmd_cache = exec_cache"
| "run_command Cmd_cd = exec_cd"
| "run_command Cmd_connect = exec_connect"
| "run_command Cmd_disconnect = exec_disconnect"
| "run_command Cmd_exit = exec_exit"
| "run_command Cmd_help = exec_help"
| "run_command Cmd_info = exec_info"
| "run_command Cmd_log = exec_log"
| "run_command Cmd_ls = exec_ls"
| "run_command Cmd_merge = exec_merge"
| "run_command Cmd_off = exec_off"
| "run_command Cmd_on = exec_on"
| "run_command Cmd_push = exec_push"
| "run_command Cmd_put = exec_put"
| "run_command Cmd_sleep = exec_sleep"
| "run_command Cmd_wait = exec_wait"

definition wcsh_exec :: "'tok shell_env \<Rightarrow> string list \<Rightarrow> 'tok wcsh \<Rightarrow> 'tok wcsh res" where
  "wcsh_exec K argv p = rbind (arg argv 0) (\<lambda>name. case find_command name of
      None \<Rightarrow> Inr (print (Unknown_command name) p)
    | Some cmd \<Rightarrow>
        let argc = int (length argv) in
        if argc - 1 > max_args cmd \<or> argc - 1 < min_args cmd
        then Inr (print (Wrong_arguments (c_name cmd) (c_usage cmd)) p)
        else run_command (execute cmd) K (tl argv) p)"

section \<open>Scripts\<close>

text \<open>
  The machine of \<^verbatim>\<open>wcsh_chunk_eval\<close> keeps its state between the chunks; the watcher of the
  script is stopped at its end.
\<close>

record 'tok script =
  sc_machine :: "'tok wcsh script_fsm option"
  sc_watching :: bool
  sc_program :: "'tok wcsh"

definition chunk :: "string \<Rightarrow> 'tok script \<Rightarrow> 'tok script res" where
  "chunk buf sc = rbind (wcsh_chunk_eval wcsh_program_append (sc_machine sc) (sc_program sc) buf) (\<lambda>(ok, fsm).
     let p = world (fsm_user fsm)
     in Inr (sc\<lparr>sc_machine := Some fsm, sc_program := (if ok then p else print Parse_error p)\<rparr>))"

text \<open>
  What is read: some bytes, none at the end, or nothing because reading failed; then
  \<^verbatim>\<open>len\<close> holds a huge value.
\<close>

definition script_data_event :: "string option \<Rightarrow> 'tok script \<Rightarrow> 'tok script res" where
  "script_data_event r sc = (case r of
      None \<Rightarrow> Inl Overflow
    | Some buf \<Rightarrow>
        if length buf > 0 then chunk buf sc
        else rbind (chunk [] sc) (\<lambda>sc. rbind (wcsh_program_append [''exit''] (sc_program sc)) (\<lambda>p.
          Inr (sc\<lparr>sc_program := p, sc_watching := False\<rparr>))))"

text \<open>
  What happens to a shell that executes a script: its loop reads from the script or has
  nothing else to do, the timer fires, the library tells an event or a value, or the
  library has changed. The loop calls back what is active only, and the library the
  callbacks that it has.
\<close>

datatype 'tok shell_input =
    Script_read "string option"
  | Idle_turn
  | Sleep_over
  | Connected_told
  | Disconnected_told
  | Error_told string
  | Value_told nat
  | Data_told nat nat string string
  | Library_is "'tok webcom_ctx"

definition on_program :: "('tok wcsh \<Rightarrow> 'tok wcsh res) \<Rightarrow> 'tok script \<Rightarrow> 'tok script res" where
  "on_program f sc = rbind (f (sc_program sc)) (\<lambda>p. Inr (sc\<lparr>sc_program := p\<rparr>))"

definition value_told :: "nat \<Rightarrow> 'tok wcsh \<Rightarrow> 'tok wcsh res" where
  "value_told h p =
     (if h \<in> set (wait_cbs (user p))
      then rbind (data_wait_cb h p) (\<lambda>(keep, p).
        Inr (if keep then p else upd_user (\<lambda>sh. sh\<lparr>wait_cbs := removeAll h (wait_cbs sh)\<rparr>) p))
      else Inr p)"

definition sleep_over :: "'tok wcsh \<Rightarrow> 'tok wcsh res" where
  "sleep_over p = (if ev_sleep (user p) \<noteq> None then sleep_cb (upd_user (\<lambda>sh. sh\<lparr>ev_sleep := None\<rparr>) p) else Inr p)"

fun shell_step :: "'tok shell_env \<Rightarrow> 'tok shell_input \<Rightarrow> 'tok script \<Rightarrow> 'tok script res" where
  "shell_step K (Script_read r) sc = (if sc_watching sc then script_data_event r sc else Inr sc)"
| "shell_step K Idle_turn sc = on_program (idle_cb (wcsh_exec K)) sc"
| "shell_step K Sleep_over sc = on_program sleep_over sc"
| "shell_step K Connected_told sc = on_program on_connected sc"
| "shell_step K Disconnected_told sc = on_program (\<lambda>p. rbind (on_disconnected p) (\<lambda>(r, p). Inr p)) sc"
| "shell_step K (Error_told err) sc = on_program (\<lambda>p. Inr (snd (on_error err p))) sc"
| "shell_step K (Value_told h) sc = on_program (value_told h) sc"
| "shell_step K (Data_told cb h data cur) sc = on_program (told cb h data cur) sc"
| "shell_step K (Library_is ctx) sc = on_program (\<lambda>p. Inr (upd_user (\<lambda>sh. sh\<lparr>lib := ctx\<rparr>) p)) sc"

primrec shell_run :: "'tok shell_env \<Rightarrow> 'tok shell_input list \<Rightarrow> 'tok script \<Rightarrow> 'tok script res" where
  "shell_run K [] sc = Inr sc"
| "shell_run K (i # is) sc = rbind (shell_step K i sc) (shell_run K is)"

definition shell_start :: "'tok webcom_ctx \<Rightarrow> log_state \<Rightarrow> 'tok script" where
  "shell_start ctx log = \<lparr>sc_machine = None, sc_watching = True, sc_program = program_start
     \<lparr>lib = ctx, sh_log = log, sh_connected = False, sh_disconnect = False, sh_done = False, w_connected = False, w_disconnected = False,
      w_data = False, data_cb = None, data_hash = [], wait_cbs = [], ev_sleep = None, cwd = root_path, sh_out = []\<rparr>\<rparr>"

text \<open>A line is typed, or the end of the input is; commands that are typed are executed at once.\<close>

definition rlhandler :: "'tok shell_env \<Rightarrow> string option \<Rightarrow> 'tok wcsh \<Rightarrow> 'tok wcsh res" where
  "rlhandler K line p = (case line of
      None \<Rightarrow> Inr (upd_user (\<lambda>sh. sh\<lparr>sh_done := True\<rparr>) p)
    | Some line \<Rightarrow>
        if line \<noteq> [] then rbind (wcsh_cmdline_eval (wcsh_exec K) line p) (\<lambda>(ok, p). Inr (if ok then p else print Parse_error p))
        else Inr p)"

section \<open>The shell executes the statements of a program\<close>

text \<open>The events that the shell waits for.\<close>

definition awaited :: "'tok shell \<Rightarrow> nat" where
  "awaited sh = of_bool (w_connected sh) + of_bool (w_disconnected sh) + of_bool (w_data sh) + of_bool (ev_sleep sh \<noteq> None)"

text \<open>A command that only acts on the library, the logs and the output.\<close>

definition same_waits :: "'tok shell \<Rightarrow> 'tok shell \<Rightarrow> bool" where
  "same_waits w w' \<longleftrightarrow> w_connected w = w_connected w' \<and> w_disconnected w = w_disconnected w' \<and> w_data w = w_data w' \<and>
     ev_sleep w = ev_sleep w' \<and> wait_cbs w = wait_cbs w' \<and> data_cb w = data_cb w'"

definition quiet :: "'tok wcsh \<Rightarrow> 'tok wcsh \<Rightarrow> bool" where
  "quiet p p' \<longleftrightarrow> (\<exists>w. p' = p\<lparr>user := w\<rparr> \<and> same_waits w (user p))"

lemma user_inj: "p\<lparr>user := w\<rparr> = p\<lparr>user := w'\<rparr> \<Longrightarrow> w = w'"
  by (metis program.select_convs(7) program.surjective program.update_convs(7))

lemma quiet_user [simp]: "quiet p (p\<lparr>user := w\<rparr>) \<longleftrightarrow> same_waits w (user p)"
  unfolding quiet_def by (auto dest: user_inj)

lemma quiet_refl [simp, intro]: "quiet p p"
  unfolding quiet_def by (rule exI [of _ "user p"]) (simp add: same_waits_def)

lemma quiet_trans: "quiet p p1 \<Longrightarrow> quiet p1 p2 \<Longrightarrow> quiet p p2"
  unfolding quiet_def same_waits_def by (elim exE conjE) (rule exI, auto)

lemma quiet_print [simp, intro]: "quiet p (print out p)"
  by (simp add: print_def same_waits_def)

lemma quiet_on_lib: "on_lib f p = Inr p' \<Longrightarrow> quiet p p'"
  by (auto simp: on_lib_def rbind_eq_Inr_iff same_waits_def)

text \<open>What holds of the result when there is one, case by case.\<close>

definition leads :: "('a \<Rightarrow> bool) \<Rightarrow> 'a res \<Rightarrow> bool" where
  "leads Q r \<longleftrightarrow> (\<forall>x. r = Inr x \<longrightarrow> Q x)"

lemma leadsD: "leads Q r \<Longrightarrow> r = Inr x \<Longrightarrow> Q x"
  by (simp add: leads_def)

lemma leads_intros:
  "(b \<Longrightarrow> leads Q r) \<Longrightarrow> (\<not> b \<Longrightarrow> leads Q r') \<Longrightarrow> leads Q (if b then r else r')"
  "(\<And>x. m = Inr x \<Longrightarrow> leads Q (f x)) \<Longrightarrow> leads Q (rbind m f)"
  "Q x \<Longrightarrow> leads Q (Inr x)"
  by (auto simp: leads_def rbind_eq_Inr_iff)

lemma told_is_quiet:
  assumes "told cb h data cur p = Inr p'"
  shows "quiet p p'"
proof -
  have "leads (quiet p) (told cb h data cur p)"
    unfolding told_def on_value_cb_def on_child_added_cb_def on_child_removed_cb_def on_child_changed_cb_def
    by (intro leads_intros quiet_print quiet_refl)
  then show ?thesis using assms by (rule leadsD)
qed

lemma quiet_fold: "(\<And>x p. quiet p (f x p)) \<Longrightarrow> quiet p (fold f xs p)"
  by (induction xs arbitrary: p) (auto intro: quiet_trans)

lemma same_waits_awaited: "same_waits w w' \<Longrightarrow> awaited w = awaited w'"
  by (simp add: awaited_def same_waits_def)

lemma quiet_fields:
  assumes "quiet p p'"
  shows "awaited (user p') = awaited (user p)" "runner_inv awaited p' = runner_inv awaited p"
    "statements p' = statements p" "executed p' = executed p" "runner_state p' = runner_state p" "program_state p' = program_state p"
    "same_waits (user p') (user p)"
proof -
  obtain w where w: "p' = p\<lparr>user := w\<rparr>" "same_waits w (user p)" using assms by (auto simp: quiet_def)
  then show "awaited (user p') = awaited (user p)" "runner_inv awaited p' = runner_inv awaited p"
    by (simp_all add: same_waits_awaited runner_inv_def)
  show "statements p' = statements p" "executed p' = executed p" "runner_state p' = runner_state p" "program_state p' = program_state p"
    "same_waits (user p') (user p)" using w by simp_all
qed

lemma subscribe_quiet: "subscribe K ty cb argv p = Inr p' \<Longrightarrow> quiet p p'"
  by (auto simp: subscribe_def rbind_eq_Inr_iff intro: quiet_on_lib)

lemma print_entry_quiet: "quiet p (print_treenode_entry n key p)"
  by (simp add: print_treenode_entry_def)

lemma exec_on_leads: "leads (quiet p) (exec_on K argv p)"
  unfolding exec_on_def by (intro leads_intros quiet_print) (auto simp: leads_def intro: subscribe_quiet)

lemmas exec_on_quiet = leadsD [OF exec_on_leads]

lemma exec_off_quiet: "exec_off K argv p = Inr p' \<Longrightarrow> quiet p p'"
  unfolding exec_off_def by (auto simp: Let_def split: if_splits list.splits intro: quiet_on_lib)

lemma exec_info_quiet: "exec_info K argv p = Inr p' \<Longrightarrow> quiet p p'"
  unfolding exec_info_def by (auto split: if_splits list.splits)

lemma exec_cache_save_quiet: "exec_cache_save K argv p = Inr p' \<Longrightarrow> quiet p p'"
  unfolding exec_cache_save_def by (auto split: list.splits)

lemma exec_cache_load_quiet: "exec_cache_load K argv p = Inr p' \<Longrightarrow> quiet p p'"
  unfolding exec_cache_load_def by (auto split: list.splits option.splits intro: quiet_on_lib)

lemma exec_help_quiet: "exec_help K argv p = Inr p' \<Longrightarrow> quiet p p'"
  unfolding exec_help_def by (auto split: list.splits option.splits)

lemma exec_request_quiet:
  "exec_merge K argv p = Inr p' \<Longrightarrow> quiet p p'"
  "exec_push K argv p = Inr p' \<Longrightarrow> quiet p p'"
  "exec_put K argv p = Inr p' \<Longrightarrow> quiet p p'"
  unfolding exec_merge_def exec_push_def exec_put_def rbind_eq_Inr_iff by (blast intro: quiet_on_lib)+

lemmas exec_quiet = exec_on_quiet exec_off_quiet exec_info_quiet exec_cache_save_quiet exec_cache_load_quiet exec_help_quiet
  exec_request_quiet

lemma exec_quiet2:
  "exec_cache K argv p = Inr p' \<Longrightarrow> quiet p p'"
  "exec_cd K argv p = Inr p' \<Longrightarrow> quiet p p'"
  "exec_log K argv p = Inr p' \<Longrightarrow> quiet p p'"
  "exec_exit K argv p = Inr p' \<Longrightarrow> quiet p p'"
  by (auto simp: exec_cache_def exec_cd_def exec_log_def exec_exit_def rbind_eq_Inr_iff Let_def
      same_waits_def split: if_splits list.splits intro: exec_quiet)

lemma exec_quiet3:
  "exec_connect K argv p = Inr p' \<Longrightarrow> quiet p p'"
  "exec_disconnect K argv p = Inr p' \<Longrightarrow> quiet p p'"
  by (auto simp: exec_connect_def exec_disconnect_def on_lib_def same_waits_def)

lemma exec_quiet4:
  assumes "exec_ls K argv p = Inr p'"
  shows "quiet p p'"
proof -
  obtain n where n: "(case n of None \<Rightarrow> print (Entry CHR ''-'' ''.'') p
      | Some (TN_internal h t) \<Rightarrow> fold (\<lambda>(key, n). print_treenode_entry n key) (reg_all t) p
      | Some n \<Rightarrow> print_treenode_entry n ''.'' p) = p'"
    using assms unfolding exec_ls_def rbind_eq_Inr_iff by auto
  have "quiet p (fold (\<lambda>(key, n). print_treenode_entry n key) xs p)" for xs :: "(string \<times> treenode) list"
    by (rule quiet_fold) (auto simp: print_entry_quiet)
  then show ?thesis using n by (cases n; cases "the n") (auto simp: print_entry_quiet)
qed

text \<open>A command that waits pauses the program until one event.\<close>

definition pauses :: "'tok wcsh \<Rightarrow> 'tok wcsh \<Rightarrow> bool" where
  "pauses p p' \<longleftrightarrow> (\<exists>w. p' = wcsh_program_pause (p\<lparr>user := w\<rparr>) \<and> awaited w = Suc (awaited (user p)) \<and>
     (wait_cbs w = wait_cbs (user p) \<and> data_cb w = data_cb (user p) \<and> w_data w = w_data (user p) \<or>
      (\<exists>h. data_cb w = Some h \<and> wait_cbs w = h # wait_cbs (user p) \<and> w_data w \<and> \<not> w_data (user p))))"

lemma pauses_flag:
  "awaited w = Suc (awaited (user p)) \<Longrightarrow> wait_cbs w = wait_cbs (user p) \<Longrightarrow> data_cb w = data_cb (user p) \<Longrightarrow>
   w_data w = w_data (user p) \<Longrightarrow> pauses p (wcsh_program_pause (p\<lparr>user := w\<rparr>))"
  unfolding pauses_def by blast

lemma pauses_data:
  "awaited w = Suc (awaited (user p)) \<Longrightarrow> wait_cbs w = h # wait_cbs (user p) \<Longrightarrow> data_cb w = Some h \<Longrightarrow> w_data w \<Longrightarrow>
   \<not> w_data (user p) \<Longrightarrow> pauses p (wcsh_program_pause (p\<lparr>user := w\<rparr>))"
  unfolding pauses_def by blast

lemma sleep_pauses:
  assumes "exec_sleep K argv p = Inr p'"
  shows "quiet p p' \<or> pauses p p'"
proof -
  have "pauses p (wcsh_program_pause (upd_user (\<lambda>sh. sh\<lparr>ev_sleep := Some t\<rparr>) p))" if "ev_sleep (user p) = None" for t
    using that by (intro pauses_flag) (simp_all add: awaited_def)
  then show ?thesis using assms unfolding exec_sleep_def by (auto simp: rbind_eq_Inr_iff split: option.splits if_splits)
qed

lemma wait_data_pauses:
  assumes "wait_data K path json p = Inr p'" "\<not> w_data (user p)"
  shows "quiet p p' \<or> pauses p p'"
proof -
  have "pauses p (wcsh_program_pause (upd_user (\<lambda>sh. sh\<lparr>data_hash := x, w_data := True, data_cb := Some h, wait_cbs := h # wait_cbs sh, lib := ctx\<rparr>) p))"
    for x h ctx using assms(2) by (intro pauses_data [where h = h]) (simp_all add: awaited_def)
  then show ?thesis using assms(1) unfolding wait_data_def Let_def by (auto simp: rbind_eq_Inr_iff split: if_splits)
qed

lemma wait_pauses: "exec_wait K argv p = Inr p' \<Longrightarrow> awaited (user p) = 0 \<Longrightarrow> quiet p p' \<or> pauses p p'"
proof -
  assume w: "exec_wait K argv p = Inr p'" and "awaited (user p) = 0"
  then have "\<not> w_connected (user p)" "\<not> w_disconnected (user p)" "\<not> w_data (user p)" by (auto simp: awaited_def)
  moreover from this have "pauses p (wcsh_program_pause (upd_user (\<lambda>sh. sh\<lparr>w_connected := True\<rparr>) p))"
    "pauses p (wcsh_program_pause (upd_user (\<lambda>sh. sh\<lparr>w_disconnected := True\<rparr>) p))"
    by (intro pauses_flag, simp_all add: awaited_def)+
  ultimately have "leads (\<lambda>p'. quiet p p' \<or> pauses p p') (exec_wait K argv p)"
    unfolding exec_wait_def by (intro leads_intros) (auto simp: leads_def dest: wait_data_pauses)
  then show "quiet p p' \<or> pauses p p'" using w by (rule leadsD)
qed

lemma run_command_cases:
  assumes "run_command f K argv p = Inr p'" "awaited (user p) = 0"
  shows "quiet p p' \<or> pauses p p'"
  using assms by (cases f) (auto dest: exec_quiet exec_quiet2 exec_quiet3 exec_quiet4 sleep_pauses wait_pauses)

lemma wcsh_exec_cases:
  assumes "wcsh_exec K argv p = Inr p'" "awaited (user p) = 0"
  shows "quiet p p' \<or> pauses p p'"
  using assms by (auto simp: wcsh_exec_def rbind_eq_Inr_iff Let_def split: option.splits if_splits dest: run_command_cases)

text \<open>The callbacks that the library has are those of the value that is waited for.\<close>

definition cbs_ok :: "'tok shell \<Rightarrow> bool" where
  "cbs_ok sh \<longleftrightarrow> (if w_data sh then \<exists>h. data_cb sh = Some h \<and> wait_cbs sh = [h] else wait_cbs sh = [])"

lemma exec_ok:
  assumes "wcsh_exec K argv p = Inr p'" "runner_inv awaited p" "runner_state p = ACTIVE"
  shows "statements p' = statements p \<and> executed p' = executed p"
    "runner_inv awaited p' \<and> (runner_state p' = INACTIVE \<longrightarrow> program_state p' = PAUSED)"
    "cbs_ok (user p) \<longrightarrow> cbs_ok (user p')"
proof -
  have 0: "awaited (user p) = 0" using assms(2,3) by (simp add: runner_inv_def)
  have "(statements p' = statements p \<and> executed p' = executed p) \<and>
    (runner_inv awaited p' \<and> (runner_state p' = INACTIVE \<longrightarrow> program_state p' = PAUSED)) \<and> (cbs_ok (user p) \<longrightarrow> cbs_ok (user p'))"
    using wcsh_exec_cases [OF assms(1) 0]
  proof
    assume q: "quiet p p'"
    show ?thesis using quiet_fields [OF q] assms(2,3) by (simp add: cbs_ok_def same_waits_def)
  next
    assume "pauses p p'"
    then obtain w where w: "p' = wcsh_program_pause (p\<lparr>user := w\<rparr>)" "awaited w = 1"
      "wait_cbs w = wait_cbs (user p) \<and> data_cb w = data_cb (user p) \<and> w_data w = w_data (user p) \<or>
       (\<exists>h. data_cb w = Some h \<and> wait_cbs w = h # wait_cbs (user p) \<and> w_data w \<and> \<not> w_data (user p))"
      unfolding pauses_def 0 by auto
    then show ?thesis using pause_ok [OF assms(2) w(2)] by (auto simp: wcsh_program_pause_def cbs_ok_def split: if_splits)
  qed
  then show "statements p' = statements p \<and> executed p' = executed p"
    "runner_inv awaited p' \<and> (runner_state p' = INACTIVE \<longrightarrow> program_state p' = PAUSED)" "cbs_ok (user p) \<longrightarrow> cbs_ok (user p')"
    by blast+
qed

interpretation shell: command_runner "wcsh_exec K" awaited for K :: "'tok shell_env"
  by unfold_locales (use exec_ok in blast)+

section \<open>Commands are found\<close>

text \<open>The binary search finds the commands because the table is sorted.\<close>

lemma find_command_loop_finds:
  assumes "sorted_wrt (\<lambda>a b. strcmp a b < 0) names" "j < length names" "0 \<le> lo" "lo \<le> int j" "int j \<le> hi" "hi < int (length names)"
  shows "find_command_loop names (names ! j) lo hi = Some j"
  using assms
proof (induction names "names ! j" lo hi rule: find_command_loop.induct)
  case (1 names lo hi)
  define mid where "mid = lo + (hi - lo) div 2"
  have mid: "lo \<le> mid" "mid \<le> hi" "lo \<le> hi" using "1.prems" by (auto simp: mid_def)
  have less: "strcmp (names ! i) (names ! i') < 0" if "i < i'" "i' < length names" for i i'
    using sorted_wrt_nth_less [OF "1.prems"(1)] that by blast
  consider "nat mid < j" | "nat mid = j" | "nat mid > j" by linarith
  then show ?case
  proof cases
    case 1
    then have "strcmp (names ! nat mid) (names ! j) < 0" using less "1.prems" by blast
    then show ?thesis using "1.hyps"(1) [OF mid(3) mid_def refl] 1 "1.prems" mid
      by (subst find_command_loop.simps) (simp add: mid_def [symmetric] Let_def)
  next
    case 2
    then show ?thesis using mid by (subst find_command_loop.simps) (simp add: mid_def [symmetric] Let_def)
  next
    case 3
    then have "strcmp (names ! nat mid) (names ! j) > 0" using less [of j "nat mid"] strcmp_swap [of "names ! j"] "1.prems" mid by force
    then show ?thesis using "1.hyps"(2) [OF mid(3) mid_def refl] 3 "1.prems" mid
      by (subst find_command_loop.simps) (simp add: mid_def [symmetric] Let_def)
  qed
qed

lemma find_command_loop_sound:
  assumes "list_all no_nul names" "no_nul name" "0 \<le> lo" "hi < int (length names)" "find_command_loop names name lo hi = Some j"
  shows "j < length names \<and> names ! j = name"
  using assms
proof (induction names name lo hi rule: find_command_loop.induct)
  case (1 names name lo hi)
  define mid where "mid = lo + (hi - lo) div 2"
  show ?case
  proof (cases "lo \<le> hi")
    case True
    then have mid: "lo \<le> mid" "mid \<le> hi" by (auto simp: mid_def)
    then have "nat mid < length names" using "1.prems" by linarith
    then have eq: "strcmp (names ! nat mid) name = 0 \<longleftrightarrow> names ! nat mid = name"
      using "1.prems" by (intro strcmp_eq_0) (auto simp: list_all_length)
    have step: "find_command_loop names name lo hi = (let cmp = strcmp (names ! nat mid) name
        in if cmp < 0 then find_command_loop names name (mid + 1) hi
           else if cmp > 0 then find_command_loop names name lo (mid - 1) else Some (nat mid))"
      using True by (subst find_command_loop.simps) (simp add: mid_def [symmetric] Let_def)
    show ?thesis
      using "1.IH"(1) [OF True mid_def refl] "1.IH"(2) [OF True mid_def refl] "1.prems" mid eq \<open>nat mid < length names\<close>
      unfolding step by (auto simp: Let_def split: if_splits)
  next
    case False
    then show ?thesis using "1.prems"(5) by (subst (asm) find_command_loop.simps) simp
  qed
qed

lemma commands_sorted: "sorted_wrt (\<lambda>a b. strcmp a b < 0) (map c_name commands)" "list_all no_nul (map c_name commands)"
  by code_simp+

lemma find_command_correct:
  assumes "no_nul name"
  shows "find_command name = Some cmd \<longleftrightarrow> cmd \<in> set commands \<and> c_name cmd = name"
proof -
  let ?names = "map c_name commands" and ?hi = "int (length commands) - 1"
  have inj: "commands ! i = commands ! j" if "i < length commands" "j < length commands" "c_name (commands ! i) = c_name (commands ! j)" for i j
    using find_command_loop_finds [OF commands_sorted(1), of i 0 ?hi] find_command_loop_finds [OF commands_sorted(1), of j 0 ?hi] that
    by simp
  show ?thesis
  proof
    assume "find_command name = Some cmd"
    then obtain j where j: "find_command_loop ?names name 0 ?hi = Some j" "cmd = commands ! j" by (auto simp: find_command_def)
    then show "cmd \<in> set commands \<and> c_name cmd = name"
      using find_command_loop_sound [OF commands_sorted(2) assms _ _ j(1)] by auto
  next
    assume "cmd \<in> set commands \<and> c_name cmd = name"
    then obtain j where j: "j < length commands" "cmd = commands ! j" "name = ?names ! j" by (auto simp: in_set_conv_nth)
    then show "find_command name = Some cmd"
      using find_command_loop_finds [OF commands_sorted(1), of j 0 ?hi] by (simp add: find_command_def)
  qed
qed

end
