(* ===== verification/Wcsh_Script.thy ===== *)
theory Wcsh_Script
  imports Wcsh Connection
begin

text \<open>
  Scripts of the shell, from the file to the commands: whatever happens meanwhile and however
  the file is cut into pieces, its commands are executed in order, each once, and a script that
  waits goes on when the event comes.
\<close>

section \<open>The parser and the program\<close>

text \<open>The state of the parser with a record of the commands in place of the shell.\<close>

definition as_record :: "string list list \<Rightarrow> 'w cmd_parse \<Rightarrow> string list list cmd_parse" where
  "as_record cs u = \<lparr>token_list = token_list u, token = token u, world = cs\<rparr>"

lemma as_record_simps [simp]:
  "token_list (as_record cs u) = token_list u" "token (as_record cs u) = token u" "world (as_record cs u) = cs"
  by (simp_all add: as_record_def)

text \<open>The program \<open>p'\<close> is \<open>p\<close> with more statements at its end.\<close>

definition grows :: "('w \<Rightarrow> nat) \<Rightarrow> string list list \<Rightarrow> 'w program \<Rightarrow> 'w program \<Rightarrow> bool" where
  "grows aw new p p' \<longleftrightarrow> runner_inv aw p' \<and> user p' = user p \<and> executed p' = executed p \<and> statements p' = statements p @ new"

lemma grows_refl: "runner_inv aw p \<Longrightarrow> grows aw [] p p"
  by (simp add: grows_def)

lemma grows_trans: "grows aw n1 p p1 \<Longrightarrow> grows aw n2 p1 p2 \<Longrightarrow> grows aw (n1 @ n2) p p2"
  by (simp add: grows_def)

definition follows :: "('w \<Rightarrow> nat) \<Rightarrow> string list list \<Rightarrow> 'w program cmd_parse \<Rightarrow> 'w program cmd_parse res \<Rightarrow> string list list cmd_parse res \<Rightarrow> bool" where
  "follows aw cs u R R' \<longleftrightarrow> (\<forall>u'. R = Inr u' \<longrightarrow> (\<exists>new. grows aw new (world u) (world u') \<and> R' = Inr (as_record (cs @ new) u')))"

lemma follows_same:
  "runner_inv aw (world u) \<Longrightarrow> (\<And>u'. R = Inr u' \<Longrightarrow> world u' = world u \<and> R' = Inr (as_record cs u')) \<Longrightarrow> follows aw cs u R R'"
  unfolding follows_def using grows_refl by (metis append_Nil2)

lemma follows_acts:
  assumes "runner_inv aw (world u)"
  shows "follows aw cs u (save_char c u) (save_char c (as_record cs u))"
    "follows aw cs u (on_token_start c u) (on_token_start c (as_record cs u))"
    "follows aw cs u (on_group_start c u) (on_group_start c (as_record cs u))"
    "follows aw cs u (save_token c u) (save_token c (as_record cs u))"
    "follows aw cs u (Inr u) (Inr (as_record cs u))"
  by (rule follows_same [OF assms];
      auto simp: save_char_def on_token_start_def on_group_start_def save_token_def as_record_def split: if_splits)+

lemma follows_end:
  assumes "runner_inv aw (world u)"
  shows "follows aw cs u (on_command_end wcsh_program_append c u) (on_command_end record_cmd c (as_record cs u))"
proof (cases "token_list u = []")
  case True
  then show ?thesis by (intro follows_same [OF assms]) (auto simp: on_command_end_def as_record_def)
next
  case False
  obtain p' where p': "wcsh_program_append (token_list u) (world u) = Inr p'" "grows aw [token_list u] (world u) p'"
    using append_ok [OF assms, of "token_list u"] False by (auto simp: grows_def)
  then show ?thesis unfolding follows_def using False
    by (auto simp: on_command_end_def record_cmd_def as_record_def)
qed

lemma follows_token_end:
  assumes "runner_inv aw (world u)"
  shows "follows aw cs u (save_token_end_command wcsh_program_append c u) (save_token_end_command record_cmd c (as_record cs u))"
  unfolding follows_def
proof (intro allI impI)
  fix u' assume "save_token_end_command wcsh_program_append c u = Inr u'"
  then obtain u1 where u1: "save_token c u = Inr u1" "on_command_end wcsh_program_append c u1 = Inr u'"
    by (auto simp: save_token_end_command_def rbind_eq_Inr_iff)
  have w: "world u1 = world u" "save_token c (as_record cs u) = Inr (as_record cs u1)"
    using u1(1) by (auto simp: save_token_def as_record_def split: if_splits)
  have "runner_inv aw (world u1)" using assms w by simp
  then obtain new where "grows aw new (world u) (world u')" "on_command_end record_cmd c (as_record cs u1) = Inr (as_record (cs @ new) u')"
    using follows_end [of aw u1 cs c] u1(2) w(1) unfolding follows_def by auto
  then show "\<exists>new. grows aw new (world u) (world u') \<and> save_token_end_command record_cmd c (as_record cs u) = Inr (as_record (cs @ new) u')"
    using w(2) by (auto simp: save_token_end_command_def)
qed

definition step_follows where
  "step_follows aw cs u Q Q' \<longleftrightarrow> (\<forall>r. Q = Inr r \<longrightarrow> (case r of
      None \<Rightarrow> Q' = Inr None
    | Some (st', u') \<Rightarrow> \<exists>new. grows aw new (world u) (world u') \<and> Q' = Inr (Some (st', as_record (cs @ new) u'))))"

lemma step_follows_intros:
  "(b \<Longrightarrow> step_follows aw cs u Q1 Q1') \<Longrightarrow> (\<not> b \<Longrightarrow> step_follows aw cs u Q2 Q2') \<Longrightarrow>
     step_follows aw cs u (if b then Q1 else Q2) (if b then Q1' else Q2')"
  "follows aw cs u R R' \<Longrightarrow> step_follows aw cs u (next_state st' R) (next_state st' R')"
  "step_follows aw cs u (Inr None) (Inr None)"
  by (auto simp: step_follows_def follows_def next_state_def rbind_eq_Inr_iff)

lemma lex_step_program:
  assumes "runner_inv aw (world u)"
  shows "step_follows aw cs u (lex_step wcsh_program_append st c u) (lex_step record_cmd st c (as_record cs u))"
  by (cases st; simp only: lex_steps; intro step_follows_intros follows_acts follows_end follows_token_end assms)

lemma lex_program:
  "lex wcsh_program_append st u cs = Inr (ok, st', u') \<Longrightarrow> runner_inv aw (world u) \<Longrightarrow>
   \<exists>new. grows aw new (world u) (world u') \<and> lex record_cmd st (as_record rec u) cs = Inr (ok, st', as_record (rec @ new) u')"
proof (induction cs arbitrary: st u rec)
  case Nil
  then show ?case using grows_refl by (intro exI [of _ "[]"]) auto
next
  case (Cons c cs)
  obtain r where r: "lex_step wcsh_program_append st c u = Inr r" using Cons.prems(1) by (auto simp: rbind_eq_Inr_iff)
  show ?case
  proof (cases r)
    case None
    then show ?thesis using r Cons.prems lex_step_program [OF Cons.prems(2), of rec st c] grows_refl
      by (intro exI [of _ "[]"]) (auto simp: step_follows_def)
  next
    case (Some a)
    obtain st1 u1 where a: "a = (st1, u1)" by fastforce
    then obtain new where new: "grows aw new (world u) (world u1)" "lex_step record_cmd st c (as_record rec u) = Inr (Some (st1, as_record (rec @ new) u1))"
      using r Some lex_step_program [OF Cons.prems(2), of rec st c] by (auto simp: step_follows_def)
    then obtain new' where "grows aw new' (world u1) (world u')"
      "lex record_cmd st1 (as_record (rec @ new) u1) cs = Inr (ok, st', as_record ((rec @ new) @ new') u')"
      using Cons.IH [of st1 u1 "rec @ new"] Cons.prems(1) r Some a by (auto simp: grows_def)
    then show ?thesis using new grows_trans by (intro exI [of _ "new @ new'"]) auto
  qed
qed

lemma lex_append:
  "lex run st u (xs @ ys) = rbind (lex run st u xs) (\<lambda>(ok, st, u). if ok then lex run st u ys else Inr (False, st, u))"
proof (induction xs arbitrary: st u)
  case (Cons c cs)
  show ?case
  proof (cases "lex_step run st c u")
    case (Inr r)
    then show ?thesis using Cons by (cases r) (auto simp: case_prod_beta)
  qed simp
qed simp

lemma lex_prefix:
  assumes "lex run st u (xs @ ys) = Inr (True, st', u')"
  shows "\<exists>st1 u1. lex run st u xs = Inr (True, st1, u1) \<and> lex run st1 u1 ys = Inr (True, st', u')"
  using assms unfolding lex_append by (cases "lex run st u xs") (auto split: if_splits)

section \<open>What happens to a program\<close>

definition shell_inv :: "'tok wcsh \<Rightarrow> bool" where
  "shell_inv p \<longleftrightarrow> runner_inv awaited p \<and> cbs_ok (user p)"

definition went :: "'tok wcsh \<Rightarrow> 'tok wcsh \<Rightarrow> bool" where
  "went p p' \<longleftrightarrow> shell_inv p' \<and> executed p' @ statements p' = executed p @ statements p"

lemma awaited_flags:
  assumes "runner_inv awaited p"
  shows "awaited (user p) \<le> 1"
    "w_connected (user p) \<or> w_disconnected (user p) \<or> w_data (user p) \<or> ev_sleep (user p) \<noteq> None \<Longrightarrow> awaited (user p) = 1"
proof -
  show le: "awaited (user p) \<le> 1" using assms by (auto simp: runner_inv_def split: if_splits)
  show "w_connected (user p) \<or> w_disconnected (user p) \<or> w_data (user p) \<or> ev_sleep (user p) \<noteq> None \<Longrightarrow> awaited (user p) = 1"
    using le by (auto simp: awaited_def)
qed

text \<open>The awaited event resumes the program.\<close>

lemma resumes:
  assumes "shell_inv p" "awaited (user p) = 1" "awaited w = 0" "cbs_ok w"
  shows "\<exists>p'. wcsh_program_resume (p\<lparr>user := w\<rparr>) = Inr p' \<and> went p p' \<and> user p' = w \<and> statements p' = statements p"
  using resume_ok [of awaited p w] assms by (auto simp: shell_inv_def went_def)

lemma told_quiet: "shell_inv p \<Longrightarrow> same_waits w (user p) \<Longrightarrow> went p (p\<lparr>user := w\<rparr>)"
  using user_ok [of awaited p w] by (simp add: shell_inv_def went_def same_waits_awaited cbs_ok_def) (simp add: same_waits_def)

lemma connected_ok:
  assumes "shell_inv p"
  shows "\<exists>p'. on_connected p = Inr p' \<and> went p p' \<and> statements p' = statements p \<and> (w_connected (user p) \<longrightarrow> awaited (user p') = 0)"
proof (cases "w_connected (user p)")
  case True
  then have 1: "awaited (user p) = 1" using awaited_flags assms by (auto simp: shell_inv_def)
  then have 0: "\<not> w_disconnected (user p)" "\<not> w_data (user p)" "ev_sleep (user p) = None" using True by (auto simp: awaited_def)
  let ?w = "(user p)\<lparr>sh_connected := True, w_connected := False\<rparr>"
  have w: "awaited ?w = 0" "cbs_ok ?w" using 0 assms by (simp_all add: awaited_def cbs_ok_def shell_inv_def)
  from resumes [OF assms 1 w] show ?thesis using True w(1) by (auto simp: on_connected_def Let_def)
next
  case False
  then show ?thesis using told_quiet [OF assms, of "(user p)\<lparr>sh_connected := True\<rparr>"] by (simp add: on_connected_def Let_def same_waits_def)
qed

lemma disconnected_ok:
  assumes "shell_inv p"
  shows "\<exists>r p'. on_disconnected p = Inr (r, p') \<and> went p p' \<and> statements p' = statements p \<and> (w_disconnected (user p) \<longrightarrow> awaited (user p') = 0)"
proof (cases "w_disconnected (user p)")
  case True
  then have 1: "awaited (user p) = 1" using awaited_flags assms by (auto simp: shell_inv_def)
  then have 0: "\<not> w_connected (user p)" "\<not> w_data (user p)" "ev_sleep (user p) = None" using True by (auto simp: awaited_def)
  let ?w = "(user p)\<lparr>sh_connected := False, w_disconnected := False\<rparr>"
  have w: "awaited ?w = 0" "cbs_ok ?w" using 0 assms by (simp_all add: awaited_def cbs_ok_def shell_inv_def)
  from resumes [OF assms 1 w] show ?thesis using True w(1) by (auto simp: on_disconnected_def Let_def)
next
  case False
  then show ?thesis using told_quiet [OF assms, of "(user p)\<lparr>sh_connected := False\<rparr>"] by (simp add: on_disconnected_def Let_def same_waits_def)
qed

lemma sleep_over_ok:
  assumes "shell_inv p"
  shows "\<exists>p'. sleep_over p = Inr p' \<and> went p p' \<and> statements p' = statements p \<and> (ev_sleep (user p) \<noteq> None \<longrightarrow> awaited (user p') = 0)"
proof (cases "ev_sleep (user p) = None")
  case False
  then have 1: "awaited (user p) = 1" using awaited_flags assms by (auto simp: shell_inv_def)
  then have 0: "\<not> w_connected (user p)" "\<not> w_disconnected (user p)" "\<not> w_data (user p)" using False by (auto simp: awaited_def)
  let ?w = "(user p)\<lparr>ev_sleep := None\<rparr>"
  have w: "awaited ?w = 0" "cbs_ok ?w" using 0 assms by (simp_all add: awaited_def cbs_ok_def shell_inv_def)
  from resumes [OF assms 1 w] show ?thesis using False w(1) by (auto simp: sleep_over_def sleep_cb_def)
next
  case True
  then show ?thesis using assms by (simp add: sleep_over_def went_def)
qed

lemma value_told_ok:
  assumes "shell_inv p" "value_told h p = Inr p'"
  shows "went p p'"
proof (cases "h \<in> set (wait_cbs (user p))")
  case True
  then have h: "w_data (user p)" "data_cb (user p) = Some h" "wait_cbs (user p) = [h]"
    using assms(1) by (auto simp: shell_inv_def cbs_ok_def split: if_splits)
  have 1: "awaited (user p) = 1" using awaited_flags assms h by (auto simp: shell_inv_def)
  then have 0: "\<not> w_connected (user p)" "\<not> w_disconnected (user p)" "ev_sleep (user p) = None" using h by (auto simp: awaited_def)
  obtain keep p1 where p1: "data_wait_cb h p = Inr (keep, p1)"
    "p' = (if keep then p1 else upd_user (\<lambda>sh. sh\<lparr>wait_cbs := removeAll h (wait_cbs sh)\<rparr>) p1)"
    using assms(2) True by (auto simp: value_told_def rbind_eq_Inr_iff)
  show ?thesis
  proof (cases keep)
    case True
    then have "p' = p" using p1 by (auto simp: data_wait_cb_def rbind_eq_Inr_iff split: if_splits)
    then show ?thesis using assms(1) by (simp add: went_def)
  next
    case False
    let ?w = "(user p)\<lparr>w_data := False\<rparr>"
    have "wcsh_program_resume (p\<lparr>user := ?w\<rparr>) = Inr p1" using p1(1) False h(2) by (auto simp: data_wait_cb_def rbind_eq_Inr_iff split: if_splits)
    moreover have "awaited ?w = 0" using 0 by (simp add: awaited_def)
    ultimately have r: "runner_inv awaited p1" "user p1 = ?w" "executed p1 = executed p" "statements p1 = statements p"
      using resume_ok [of awaited p ?w] assms(1) 1 by (auto simp: shell_inv_def)
    let ?w' = "?w\<lparr>wait_cbs := []\<rparr>"
    have "p' = p1\<lparr>user := ?w'\<rparr>" using p1(2) False r(2) h(3) by simp
    moreover have "runner_inv awaited (p1\<lparr>user := ?w'\<rparr>)" using user_ok [OF r(1), of ?w'] r(2) by (simp add: awaited_def)
    ultimately show ?thesis using r by (simp add: went_def shell_inv_def cbs_ok_def)
  qed
next
  case False
  then show ?thesis using assms by (simp add: value_told_def went_def)
qed

text \<open>The value of the callback \<open>h\<close> is the one that is waited for.\<close>

definition wanted_value :: "nat \<Rightarrow> 'tok wcsh \<Rightarrow> bool" where
  "wanted_value h p \<longleftrightarrow> w_data (user p) \<and> data_cb (user p) = Some h \<and>
     (case rbind (wc_datasync_on_handle_get_path (lib (user p)) h) (data_cache_get (cache (lib (user p)))) of
        Inl e \<Rightarrow> False | Inr n \<Rightarrow> treenode_hash_eq (Some (data_hash (user p))) (node_hash n))"

lemma wanted_value_resumes:
  assumes "shell_inv p" "wanted_value h p"
  shows "\<exists>p'. value_told h p = Inr p' \<and> statements p' = statements p \<and> awaited (user p') = 0"
proof -
  have h: "w_data (user p)" "data_cb (user p) = Some h" "wait_cbs (user p) = [h]"
    using assms by (auto simp: wanted_value_def shell_inv_def cbs_ok_def split: if_splits)
  have 1: "awaited (user p) = 1" using awaited_flags assms h by (auto simp: shell_inv_def)
  then have 0: "\<not> w_connected (user p)" "\<not> w_disconnected (user p)" "ev_sleep (user p) = None" using h by (auto simp: awaited_def)
  let ?w = "(user p)\<lparr>w_data := False\<rparr>"
  have w: "awaited ?w = 0" using 0 by (simp add: awaited_def)
  obtain p1 where p1: "wcsh_program_resume (p\<lparr>user := ?w\<rparr>) = Inr p1" "user p1 = ?w" "statements p1 = statements p"
    using resume_ok [of awaited p ?w] assms(1) 1 w by (auto simp: shell_inv_def)
  have "data_wait_cb h p = Inr (False, p1)"
    using assms(2) p1(1) unfolding wanted_value_def data_wait_cb_def by (auto split: sum.splits simp: rbind_def)
  then show ?thesis using h(3) p1 0 by (simp add: value_told_def awaited_def)
qed

lemma idle_ok:
  assumes "shell_inv p" "idle_cb (wcsh_exec K) p = Inr p'"
  shows "went p p'"
proof -
  have "cbs_ok (user p')"
  proof (cases "idle_active p \<and> pending_commands p \<noteq> 0")
    case True
    then obtain c rest p1 r where 1: "statements p = c # rest" "wcsh_exec K c (p\<lparr>executed := executed p @ [c]\<rparr>) = Inr p1" "remove_head p1 = Inr p'"
      using assms(2) by (auto simp: idle_cb_def wcsh_program_run_step_def wcsh_program_is_finished_def rbind_eq_Inr_iff split: list.splits)
    have "cbs_ok (user p1)" using exec_ok(3) [OF 1(2)] assms(1) True by (simp add: shell_inv_def runner_inv_def)
    then show ?thesis using 1(3) by (auto simp: remove_head_def Let_def split: if_splits list.splits)
  next
    case False
    then have "p' = p" using assms(2) by (auto simp: idle_cb_def wcsh_program_run_step_def wcsh_program_is_finished_def split: if_splits)
    then show ?thesis using assms(1) by (simp add: shell_inv_def)
  qed
  then show ?thesis using shell.idle [OF assms(2)] assms(1) by (simp add: shell_inv_def went_def)
qed

lemma other_step:
  assumes "shell_step K i sc = Inr sc'" "shell_inv (sc_program sc)" "\<not> (sc_watching sc \<and> (\<exists>r. i = Script_read r))"
  shows "went (sc_program sc) (sc_program sc') \<and> sc_machine sc' = sc_machine sc \<and> sc_watching sc' = sc_watching sc"
proof -
  have prog: "went (sc_program sc) (sc_program sc') \<and> sc_machine sc' = sc_machine sc \<and> sc_watching sc' = sc_watching sc"
    if "on_program f sc = Inr sc'" "\<And>p'. f (sc_program sc) = Inr p' \<Longrightarrow> went (sc_program sc) p'" for f
    using that by (auto simp: on_program_def rbind_eq_Inr_iff)
  note inv = assms(2)
  show ?thesis
  proof (cases i)
    case (Script_read r)
    then show ?thesis using assms by (simp add: went_def)
  next
    case Idle_turn
    then show ?thesis using assms(1) idle_ok [OF inv] by (intro prog [of "idle_cb (wcsh_exec K)"]) auto
  next
    case Sleep_over
    then show ?thesis using assms(1) sleep_over_ok [OF inv] by (intro prog [of sleep_over]) auto
  next
    case Connected_told
    then show ?thesis using assms(1) connected_ok [OF inv] by (intro prog [of on_connected]) auto
  next
    case Disconnected_told
    then show ?thesis using assms(1) disconnected_ok [OF inv]
      by (intro prog [of "\<lambda>p. rbind (on_disconnected p) (\<lambda>(r, p). Inr p)"]) (auto simp: rbind_eq_Inr_iff)
  next
    case (Error_told err)
    then show ?thesis using assms(1) told_quiet [OF inv]
      by (intro prog [of "\<lambda>p. Inr (snd (on_error err p))"]) (auto simp: on_error_def print_def same_waits_def)
  next
    case (Value_told h)
    then show ?thesis using assms(1) value_told_ok [OF inv] by (intro prog [of "value_told h"]) auto
  next
    case (Data_told cb h data cur)
    have "went (sc_program sc) p'" if "quiet (sc_program sc) p'" for p' using that told_quiet [OF inv] by (auto simp: quiet_def)
    then show ?thesis using assms(1) Data_told by (intro prog [of "told cb h data cur"]) (auto dest!: told_is_quiet)
  next
    case (Library_is ctx)
    then show ?thesis using assms(1) told_quiet [OF inv]
      by (intro prog [of "\<lambda>p. Inr (upd_user (\<lambda>sh. sh\<lparr>lib := ctx\<rparr>) p)"]) (auto simp: same_waits_def)
  qed
qed

section \<open>Reading the script\<close>

text \<open>The machine has read \<open>text\<close>, in which it found the commands \<open>cs\<close> so far.\<close>

definition machine_at :: "'tok wcsh script_fsm option \<Rightarrow> string \<Rightarrow> string list list \<Rightarrow> bool" where
  "machine_at m text cs \<longleftrightarrow> (case m of
      None \<Rightarrow> text = [] \<and> cs = []
    | Some f \<Rightarrow> fsm_table f = wcsh_parse_script wcsh_program_append \<and> fsm_ps f = PARSE_PARSING \<and>
        lex record_cmd STATE_BLANK (no_parse []) text = Inr (True, fsm_state f, as_record cs (fsm_user f)))"

lemma fsm_feed_ps: "fsm_feed fsm cs = Inr (ps, f) \<Longrightarrow> fsm_ps f = ps"
  by (induction fsm cs rule: fsm_feed.induct) (auto simp: Let_def rbind_eq_Inr_iff split: option.splits)

text \<open>The machine that a chunk is fed to.\<close>

definition fed :: "'tok script \<Rightarrow> 'tok wcsh script_fsm" where
  "fed sc = (let fsm = (case sc_machine sc of
       None \<Rightarrow> fsm_new (wcsh_parse_script wcsh_program_append) STATE_BLANK (no_parse (sc_program sc)) | Some fsm \<Rightarrow> fsm)
     in fsm\<lparr>fsm_user := (fsm_user fsm)\<lparr>world := sc_program sc\<rparr>\<rparr>)"

lemma fed_at:
  assumes "machine_at (sc_machine sc) text cs"
  shows "machine_at (Some (fed sc)) text cs" "world (fsm_user (fed sc)) = sc_program sc"
  using assms by (auto simp: machine_at_def fed_def fsm_new_def no_parse_def as_record_def Let_def split: option.splits)

lemma feed_at:
  assumes "fsm_feed f buf = Inr (ps, f')" "machine_at (Some f) text cs" "runner_inv awaited (world (fsm_user f))"
    and "lex record_cmd STATE_BLANK (no_parse []) (text @ buf) = Inr (True, st2, u2)"
  shows "\<exists>new. ps = PARSE_PARSING \<and> machine_at (Some f') (text @ buf) (cs @ new) \<and>
    grows awaited new (world (fsm_user f)) (world (fsm_user f')) \<and> fsm_state f' = st2 \<and> cs @ new = world u2"
proof -
  have m: "fsm_table f = wcsh_parse_script wcsh_program_append" "fsm_ps f = PARSE_PARSING"
    "lex record_cmd STATE_BLANK (no_parse []) text = Inr (True, fsm_state f, as_record cs (fsm_user f))"
    using assms(2) by (simp_all add: machine_at_def)
  obtain ok st' u' where l: "lex wcsh_program_append (fsm_state f) (fsm_user f) buf = Inr (ok, st', u')"
    "ps = (if ok then PARSE_PARSING else PARSE_UNEXPECTED_INPUT)" "fsm_table f' = wcsh_parse_script wcsh_program_append"
    "fsm_state f' = st'" "fsm_user f' = u'"
    using feed_lex [OF m(1), of buf] assms(1) m(2) by (cases "lex wcsh_program_append (fsm_state f) (fsm_user f) buf") auto
  obtain new where new: "grows awaited new (world (fsm_user f)) (world u')"
    "lex record_cmd (fsm_state f) (as_record cs (fsm_user f)) buf = Inr (ok, st', as_record (cs @ new) u')"
    using lex_program [OF l(1) assms(3)] by blast
  have "lex record_cmd STATE_BLANK (no_parse []) (text @ buf) = Inr (ok, st', as_record (cs @ new) u')"
    using new(2) m(3) by (simp add: lex_append)
  with assms(4) have "ok" "st2 = st'" "u2 = as_record (cs @ new) u'" by auto
  then show ?thesis using l new(1) fsm_feed_ps [OF assms(1)] assms(4) by (intro exI [of _ new]) (simp add: machine_at_def)
qed

lemma print_went: "shell_inv p \<Longrightarrow> shell_inv (print out p) \<and> executed (print out p) @ statements (print out p) = executed p @ statements p"
  using told_quiet [of p "(user p)\<lparr>sh_out := sh_out (user p) @ [out]\<rparr>"] by (simp add: print_def same_waits_def went_def)

lemma grows_inv: "grows awaited new p p' \<Longrightarrow> shell_inv p \<Longrightarrow> shell_inv p' \<and> executed p' @ statements p' = (executed p @ statements p) @ new"
  by (simp add: grows_def shell_inv_def)

lemma chunk_eval_fed:
  "wcsh_chunk_eval wcsh_program_append (sc_machine sc) (sc_program sc) buf =
    rbind (fsm_feed (fed sc) (if buf = [] then [CHR 0x0A] else buf)) (\<lambda>(ps, fsm).
      if buf \<noteq> [] then Inr (ps = PARSE_PARSING, fsm)
      else if ps \<noteq> PARSE_PARSING then Inr (False, fsm) else Inr (fst (fsm_end fsm) = PARSE_OK, snd (fsm_end fsm)))"
  unfolding wcsh_chunk_eval_def fed_def Let_def by (cases "buf = []") (simp_all add: case_prod_beta del: fsm_feed.simps cong: if_cong)

text \<open>A chunk, and the line end that is read at the end of the file.\<close>

lemma chunk_at:
  assumes "chunk buf sc = Inr sc'" "machine_at (sc_machine sc) text cs" "shell_inv (sc_program sc)"
    and "lex record_cmd STATE_BLANK (no_parse []) (text @ (if buf = [] then [CHR 0x0A] else buf)) = Inr (True, st2, u2)"
  shows "\<exists>new. (buf \<noteq> [] \<longrightarrow> machine_at (sc_machine sc') (text @ buf) (cs @ new)) \<and> cs @ new = world u2 \<and> shell_inv (sc_program sc') \<and>
    executed (sc_program sc') @ statements (sc_program sc') = (executed (sc_program sc) @ statements (sc_program sc)) @ new \<and>
    sc_watching sc' = sc_watching sc"
proof -
  let ?buf = "if buf = [] then [CHR 0x0A] else buf"
  note f = fed_at [OF assms(2)]
  obtain ps f' where f': "fsm_feed (fed sc) ?buf = Inr (ps, f')"
    using assms(1) unfolding chunk_def chunk_eval_fed by (auto simp: rbind_eq_Inr_iff)
  have "runner_inv awaited (world (fsm_user (fed sc)))" using assms(3) f(2) by (simp add: shell_inv_def)
  from feed_at [OF f' f(1) this assms(4)] obtain new where new: "ps = PARSE_PARSING" "machine_at (Some f') (text @ ?buf) (cs @ new)"
    "grows awaited new (sc_program sc) (world (fsm_user f'))" "cs @ new = world u2"
    unfolding f(2) by blast
  let ?p = "world (fsm_user f')"
  have user: "fsm_user (snd (fsm_end f')) = fsm_user f'" by (simp add: fsm_end_def Let_def)
  have "sc_program sc' = ?p \<or> sc_program sc' = print Parse_error ?p" "sc_watching sc' = sc_watching sc"
    "buf \<noteq> [] \<longrightarrow> sc_machine sc' = Some f'"
    using assms(1) unfolding chunk_def chunk_eval_fed f' rbind_Inr by (auto simp: new(1) user Let_def split: if_splits)
  then show ?thesis
    using new(2,4) grows_inv [OF new(3) assms(3)] print_went [of ?p Parse_error]
    by (intro exI [of _ new]) auto
qed

section \<open>Scripts are executed\<close>

fun reads :: "'tok shell_input list \<Rightarrow> string option list" where
  "reads [] = []"
| "reads (Script_read r # ins) = r # reads ins"
| "reads (_ # ins) = reads ins"

abbreviation all_statements :: "'tok script \<Rightarrow> string list list" where
  "all_statements sc \<equiv> executed (sc_program sc) @ statements (sc_program sc)"

lemma run_keeps_inv:
  "shell_run K ins sc = Inr sc' \<Longrightarrow> shell_inv (sc_program sc) \<Longrightarrow> \<not> sc_watching sc \<Longrightarrow>
   shell_inv (sc_program sc') \<and> all_statements sc' = all_statements sc"
proof (induction ins arbitrary: sc)
  case (Cons i ins)
  then obtain sc1 where 1: "shell_step K i sc = Inr sc1" "shell_run K ins sc1 = Inr sc'" by (auto simp: rbind_eq_Inr_iff)
  then show ?case using other_step [OF 1(1) Cons.prems(2)] Cons.prems(3) Cons.IH [OF 1(2)] by (simp add: went_def)
qed simp

lemma script_run:
  "shell_run K ins sc = Inr sc' \<Longrightarrow> machine_at (sc_machine sc) text cs \<Longrightarrow> shell_inv (sc_program sc) \<Longrightarrow> sc_watching sc \<Longrightarrow>
   all_statements sc = cs \<Longrightarrow> reads ins = map Some bufs @ [Some []] \<Longrightarrow> [] \<notin> set bufs \<Longrightarrow>
   lex record_cmd STATE_BLANK (no_parse []) (text @ concat bufs @ [CHR 0x0A]) = Inr (True, st, u) \<Longrightarrow>
   all_statements sc' = world u @ [[''exit'']]"
proof (induction ins arbitrary: sc "text" cs bufs)
  case (Cons i ins)
  obtain sc1 where 1: "shell_step K i sc = Inr sc1" "shell_run K ins sc1 = Inr sc'"
    using Cons.prems(1) by (auto simp: rbind_eq_Inr_iff)
  show ?case
  proof (cases "\<exists>r. i = Script_read r")
    case False
    then have r: "reads ins = map Some bufs @ [Some []]" using Cons.prems(6) by (cases i) auto
    have w: "went (sc_program sc) (sc_program sc1) \<and> sc_machine sc1 = sc_machine sc \<and> sc_watching sc1 = sc_watching sc"
      using other_step [OF 1(1) Cons.prems(3)] False by blast
    show ?thesis
      by (rule Cons.IH [OF 1(2) _ _ _ _ r Cons.prems(7,8)]) (use w Cons.prems in \<open>auto simp: went_def\<close>)
  next
    case True
    then obtain r where i: "i = Script_read r" by blast
    show ?thesis
    proof (cases bufs)
      case Nil
      then have "r = Some []" using Cons.prems(6) i by simp
      then obtain sc2 p where sc2: "chunk [] sc = Inr sc2" "wcsh_program_append [''exit''] (sc_program sc2) = Inr p"
        "sc1 = sc2\<lparr>sc_program := p, sc_watching := False\<rparr>"
        using 1(1) Cons.prems(4) i by (auto simp: script_data_event_def rbind_eq_Inr_iff)
      have "lex record_cmd STATE_BLANK (no_parse []) (text @ (if [] = ([] :: string) then [CHR 0x0A] else [])) = Inr (True, st, u)"
        using Cons.prems(8) Nil by simp
      from chunk_at [OF sc2(1) Cons.prems(2,3) this] obtain new where new: "cs @ new = world u" "shell_inv (sc_program sc2)"
        "all_statements sc2 = all_statements sc @ new" by blast
      have "shell_inv p" "executed p @ statements p = all_statements sc2 @ [[''exit'']]"
        using append_ok [of awaited "sc_program sc2" "[''exit'']"] sc2(2) new(2) by (auto simp: shell_inv_def)
      then show ?thesis using run_keeps_inv [OF 1(2)] sc2(3) new Cons.prems(5) by simp
    next
      case (Cons b bs)
      have b: "r = Some b" "reads ins = map Some bs @ [Some []]" "b \<noteq> []" "[] \<notin> set bs"
        using Cons.prems(6,7) i Cons by auto
      have ck: "chunk b sc = Inr sc1" using 1(1) Cons.prems(4) i b by (simp add: script_data_event_def)
      have all: "lex record_cmd STATE_BLANK (no_parse []) ((text @ b) @ concat bs @ [CHR 0x0A]) = Inr (True, st, u)"
        using Cons.prems(8) Cons by simp
      obtain st1 u1 where "lex record_cmd STATE_BLANK (no_parse []) (text @ b) = Inr (True, st1, u1)"
        using lex_prefix [OF all] by blast
      then have "lex record_cmd STATE_BLANK (no_parse []) (text @ (if b = [] then [CHR 0x0A] else b)) = Inr (True, st1, u1)"
        using b(3) by simp
      from chunk_at [OF ck Cons.prems(2,3) this] obtain new where new: "machine_at (sc_machine sc1) (text @ b) (cs @ new)"
        "shell_inv (sc_program sc1)" "all_statements sc1 = all_statements sc @ new" "sc_watching sc1 = sc_watching sc"
        using b(3) by blast
      show ?thesis
        by (rule Cons.IH [OF 1(2) new(1,2) _ _ b(2,4) all]) (use new Cons.prems(4,5) in simp_all)
    qed
  qed
qed simp

lemma start_ok: "shell_inv (sc_program (shell_start ctx log))" "machine_at (sc_machine (shell_start ctx log)) [] []"
  "sc_watching (shell_start ctx log)" "all_statements (shell_start ctx log) = []"
  by (simp_all add: shell_start_def shell_inv_def runner_start awaited_def cbs_ok_def program_start_def machine_at_def
      runner_inv_def)


section \<open>Nothing is waited for in vain\<close>

definition machine_ok :: "'tok script \<Rightarrow> bool" where
  "machine_ok sc \<longleftrightarrow> (case sc_machine sc of None \<Rightarrow> True | Some f \<Rightarrow> fsm_table f = wcsh_parse_script wcsh_program_append)"

lemma fsm_feed_table: "fsm_feed fsm cs = Inr (ps, f) \<Longrightarrow> fsm_table f = fsm_table fsm"
  by (induction fsm cs rule: fsm_feed.induct) (auto simp: Let_def rbind_eq_Inr_iff split: option.splits)

lemma feed_keeps_inv:
  assumes "fsm_feed f buf = Inr (ps, f')" "fsm_table f = wcsh_parse_script wcsh_program_append" "shell_inv (world (fsm_user f))"
  shows "shell_inv (world (fsm_user f'))"
proof -
  obtain ok st' u' where l: "lex wcsh_program_append (fsm_state f) (fsm_user f) buf = Inr (ok, st', u')" "fsm_user f' = u'"
    using feed_lex [OF assms(2), of buf] assms(1) by (cases "lex wcsh_program_append (fsm_state f) (fsm_user f) buf") auto
  then obtain new where "grows awaited new (world (fsm_user f)) (world u')"
    using lex_program [OF l(1)] assms(3) unfolding shell_inv_def by blast
  then show ?thesis using grows_inv assms(3) l(2) by blast
qed

lemma chunk_keeps_inv:
  assumes "chunk buf sc = Inr sc'" "machine_ok sc" "shell_inv (sc_program sc)"
  shows "machine_ok sc' \<and> shell_inv (sc_program sc')"
proof -
  let ?buf = "if buf = [] then [CHR 0x0A] else buf"
  have f: "fsm_table (fed sc) = wcsh_parse_script wcsh_program_append" "world (fsm_user (fed sc)) = sc_program sc"
    using assms(2) by (auto simp: machine_ok_def fed_def fsm_new_def no_parse_def Let_def split: option.splits)
  obtain ps f' where f': "fsm_feed (fed sc) ?buf = Inr (ps, f')"
    using assms(1) unfolding chunk_def chunk_eval_fed by (auto simp: rbind_eq_Inr_iff)
  have inv: "shell_inv (world (fsm_user f'))" using feed_keeps_inv [OF f' f(1)] assms(3) f(2) by simp
  have tab: "fsm_table f' = wcsh_parse_script wcsh_program_append" using fsm_feed_table [OF f'] f(1) by simp
  have fin: "fsm_user (snd (fsm_end f')) = fsm_user f'" "fsm_table (snd (fsm_end f')) = fsm_table f'" by (simp_all add: fsm_end_def Let_def)
  show ?thesis
    using assms(1) inv tab print_went [OF inv, of Parse_error] unfolding chunk_def chunk_eval_fed f' rbind_Inr
    by (auto simp: fin Let_def machine_ok_def split: if_splits)
qed

lemma step_keeps_inv:
  assumes "shell_step K i sc = Inr sc'" "machine_ok sc" "shell_inv (sc_program sc)"
  shows "machine_ok sc' \<and> shell_inv (sc_program sc')"
proof (cases "sc_watching sc \<and> (\<exists>r. i = Script_read r)")
  case True
  then obtain buf where buf: "script_data_event (Some buf) sc = Inr sc'" using assms(1) by (auto simp: script_data_event_def split: option.splits)
  show ?thesis
  proof (cases "buf = []")
    case False
    then show ?thesis using buf chunk_keeps_inv [OF _ assms(2,3)] by (simp add: script_data_event_def)
  next
    case True
    then obtain sc1 p where sc1: "chunk [] sc = Inr sc1" "wcsh_program_append [''exit''] (sc_program sc1) = Inr p"
      "sc' = sc1\<lparr>sc_program := p, sc_watching := False\<rparr>"
      using buf by (auto simp: script_data_event_def rbind_eq_Inr_iff)
    have "machine_ok sc1" "shell_inv (sc_program sc1)" using chunk_keeps_inv [OF sc1(1) assms(2,3)] by auto
    then show ?thesis
      using append_ok [of awaited "sc_program sc1" "[''exit'']"] sc1(2,3) by (auto simp: shell_inv_def machine_ok_def)
  qed
next
  case False
  then show ?thesis using other_step [OF assms(1,3)] assms(2) by (auto simp: went_def machine_ok_def)
qed

lemma run_reaches: "shell_run K ins sc = Inr sc' \<Longrightarrow> machine_ok sc \<Longrightarrow> shell_inv (sc_program sc) \<Longrightarrow> shell_inv (sc_program sc')"
proof (induction ins arbitrary: sc)
  case (Cons i ins)
  then obtain sc1 where 1: "shell_step K i sc = Inr sc1" "shell_run K ins sc1 = Inr sc'" by (auto simp: rbind_eq_Inr_iff)
  then show ?case using step_keeps_inv [OF 1(1) Cons.prems(2,3)] Cons.IH by blast
qed simp

text \<open>The runner is started as soon as nothing is awaited any more.\<close>

lemma not_stalled:
  assumes "shell_inv p"
  shows "statements p \<noteq> [] \<longrightarrow> idle_active p \<or> awaited (user p) = 1" "idle_active p \<longrightarrow> awaited (user p) = 0"
  using assms by (auto simp: shell_inv_def runner_inv_def split: if_splits)


section \<open>An example\<close>

text \<open>A script of two commands, the first of which waits for the connection, read in two pieces.\<close>

definition sample_shell_env :: "json shell_env" where
  "sample_shell_env = \<lparr>sh_env = sample_webcom_env, sh_get_int = (\<lambda>i. i), sh_time = (\<lambda>_. (0, 0)), json_object_from_file = (\<lambda>_. None),
     can_write = (\<lambda>_. False)\<rparr>"

definition sample_shell :: "json script" where
  "sample_shell = shell_start (wc_context_create sample_options) (log_start Be_stderr)"

definition sample_script :: "string list list" where
  "sample_script = [[''wait'', ''connected''], [''cd'', ''/a'']]"

definition sample_inputs :: "json shell_input list" where
  "sample_inputs = [Script_read (Some ''wait con''), Idle_turn, Script_read (Some ''nected ;cd /a ;''), Idle_turn, Script_read (Some []), Idle_turn,
     Connected_told, Idle_turn]"

lemma sample_runs:
  "case shell_run sample_shell_env sample_inputs sample_shell of Inl e \<Rightarrow> False
   | Inr sc \<Rightarrow> executed (sc_program sc) = sample_script \<and> statements (sc_program sc) = [[''exit'']]"
  by code_simp



text \<open>\<^verbatim>\<open>exit\<close> does not end a script: the statements after it are executed.\<close>

lemma exit_does_not_end:
  "case shell_run sample_shell_env [Script_read (Some ''exit ;cd /a ;''), Idle_turn, Idle_turn] sample_shell of Inl e \<Rightarrow> False
   | Inr sc \<Rightarrow> sh_done (user (sc_program sc)) \<and> executed (sc_program sc) = [[''exit''], [''cd'', ''/a'']]"
  by code_simp

text \<open>The commands of a line that is typed are executed before the shell goes on, in order.\<close>

lemma typed_line_runs:
  assumes "list_all cmd_ok cmds"
  shows "rlhandler K (Some (concat (map show_cmd cmds))) p = run_all (wcsh_exec K) cmds p"
proof (cases "concat (map show_cmd cmds) = []")
  case True
  then have "cmds = []" by (cases cmds) (auto simp: show_cmd_def)
  then show ?thesis by (simp add: rlhandler_def)
next
  case False
  then show ?thesis using eval_show [OF assms, of "wcsh_exec K" p] by (cases "run_all (wcsh_exec K) cmds p") (simp_all add: rlhandler_def)
qed

text \<open>A second \<^verbatim>\<open>sleep\<close> that is typed before the first one is over starts an active timer.\<close>

lemma sleep_typed_twice:
  "rbind (wcsh_exec sample_shell_env [''sleep'', ''9''] (sc_program sample_shell)) (wcsh_exec sample_shell_env [''sleep'', ''1'']) = Inl ApiMisuse"
proof -
  have "case rbind (wcsh_exec sample_shell_env [''sleep'', ''9''] (sc_program sample_shell)) (wcsh_exec sample_shell_env [''sleep'', ''1'']) of
    Inl e \<Rightarrow> e = ApiMisuse | Inr p \<Rightarrow> False" by code_simp
  then show ?thesis by (auto split: sum.splits)
qed

end
