(* ===== verification/Wcsh_Completion.thy ===== *)
theory Wcsh_Completion
  imports Wcsh
begin

text \<open>
  The completion of the shell (\<^verbatim>\<open>tools/wcsh.c\<close>): the generators that the line editor calls
  until they return nothing, with their static variables, and the choice between them.
\<close>

section \<open>Words\<close>

fun count_heading_blanks :: "string \<Rightarrow> nat" where
  "count_heading_blanks [] = 0"
| "count_heading_blanks (c # s) = (if c_isspace c then 1 + count_heading_blanks s else 0)"

fun count_non_blanks :: "string \<Rightarrow> nat" where
  "count_non_blanks [] = 0"
| "count_non_blanks (c # s) = (if \<not> c_isspace c then 1 + count_non_blanks s else 0)"

definition strncmp :: "string \<Rightarrow> string \<Rightarrow> nat \<Rightarrow> int" where
  "strncmp s t n = strcmp (take n s) (take n t)"

section \<open>Generators\<close>

text \<open>
  \<open>gen_cur\<close> is the position in the array; that of \<^verbatim>\<open>command_generator\<close> is \<^verbatim>\<open>NULL\<close>
  at first.
\<close>

record gen_state =
  gen_choices :: "string list"
  gen_cur :: "nat option"
  gen_len :: nat

fun first_match :: "string \<Rightarrow> nat \<Rightarrow> string list \<Rightarrow> nat \<Rightarrow> nat option" where
  "first_match txt n [] i = None"
| "first_match txt n (c # cs) i = (if strncmp txt c n = 0 then Some i else first_match txt n cs (Suc i))"

definition gen_emit :: "string \<Rightarrow> gen_state \<Rightarrow> string option \<times> gen_state" where
  "gen_emit txt g = (case gen_cur g of
      Some i \<Rightarrow>
        (if i < length (gen_choices g) \<and> strncmp txt (gen_choices g ! i) (gen_len g) = 0
         then (Some (gen_choices g ! i), g\<lparr>gen_cur := Some (Suc i)\<rparr>) else (None, g))
    | None \<Rightarrow> (None, g))"

text \<open>When no command matches, the position stays where it was.\<close>

definition command_generator :: "string \<Rightarrow> int \<Rightarrow> gen_state \<Rightarrow> string option \<times> gen_state" where
  "command_generator txt state g =
     (let g = (if state = 0
        then let g = g\<lparr>gen_len := length txt\<rparr>
             in (case first_match txt (gen_len g) (gen_choices g) 0 of Some i \<Rightarrow> g\<lparr>gen_cur := Some i\<rparr> | None \<Rightarrow> g)
        else g)
      in gen_emit txt g)"

text \<open>When no argument matches, the position is the end of the array.\<close>

definition arg_generator :: "string list \<Rightarrow> string \<Rightarrow> int \<Rightarrow> gen_state \<Rightarrow> string option \<times> gen_state" where
  "arg_generator arg_choices_list txt state g =
     (let g = (if state = 0
        then let g = g\<lparr>gen_len := length txt, gen_choices := arg_choices_list\<rparr>
             in (case first_match txt (gen_len g) (gen_choices g) 0 of
                   Some i \<Rightarrow> g\<lparr>gen_cur := Some i\<rparr> | None \<Rightarrow> g\<lparr>gen_cur := Some (length arg_choices_list)\<rparr>)
        else g)
      in gen_emit txt g)"

text \<open>
  \<^verbatim>\<open>rl_completion_matches\<close> calls a generator with 0, then with other numbers, until it
  returns nothing. A generator returns at most every element once.
\<close>

primrec completion_matches :: "nat \<Rightarrow> (int \<Rightarrow> gen_state \<Rightarrow> string option \<times> gen_state) \<Rightarrow> int \<Rightarrow> gen_state \<Rightarrow> string list option" where
  "completion_matches 0 f state g = None"
| "completion_matches (Suc n) f state g = (case f state g of
     (None, g) \<Rightarrow> Some []
   | (Some s, g) \<Rightarrow> map_option (\<lambda>ss. s # ss) (completion_matches n f (state + 1) g))"

section \<open>The arguments of commands\<close>

definition on_off_args :: "string list" where
  "on_off_args = [''child_added'', ''child_changed'', ''child_removed'', ''value'']"

definition info_args :: "string list" where "info_args = [''listen'', ''on'']"

definition help_args :: "string list" where
  "help_args = ['''', ''cache'', ''cd'', ''connect'', ''disconnect'', ''exit'', ''help'', ''info'', ''ls'', ''merge'', ''off'', ''on'', ''push'', ''put'']"

definition log_args :: "string list" where "log_args = [''off'', ''on'', ''verbose'']"

definition cache_args :: "string list" where "cache_args = [''print'', ''load'', ''save'']"

definition wait_args :: "string list" where "wait_args = [''connected'', ''data'', ''disconnected'']"

fun complete_args :: "command_name \<Rightarrow> string list option" where
  "complete_args Cmd_cache = Some cache_args"
| "complete_args Cmd_help = Some help_args"
| "complete_args Cmd_info = Some info_args"
| "complete_args Cmd_log = Some log_args"
| "complete_args Cmd_off = Some on_off_args"
| "complete_args Cmd_on = Some on_off_args"
| "complete_args Cmd_wait = Some wait_args"
| "complete_args _ = None"

text \<open>Which generator completes the word that starts at \<open>start\<close>, if any.\<close>

datatype completion = By_command | By_args "string list" | No_completion

definition wcsh_completion :: "string \<Rightarrow> nat \<Rightarrow> completion" where
  "wcsh_completion rl_line_buffer start =
     (let command_start = count_heading_blanks rl_line_buffer
      in if start = command_start then By_command
         else case find_command (drop command_start rl_line_buffer) of
                Some cmd \<Rightarrow> (case complete_args (execute cmd) of Some choices \<Rightarrow> By_args choices | None \<Rightarrow> No_completion)
              | None \<Rightarrow> No_completion)"

section \<open>What is completed\<close>

lemma strncmp_prefix: "no_nul txt \<Longrightarrow> no_nul c \<Longrightarrow> strncmp txt c (length txt) = 0 \<longleftrightarrow> prefix txt c"
  unfolding strncmp_def by (subst strcmp_eq_0) (auto simp: no_nul_def dest: in_set_takeD simp: prefix_def take_is_prefix, metis append_eq_conv_conj)

lemma prefix_convex: "strcmp a b < 0 \<Longrightarrow> strcmp b c < 0 \<Longrightarrow> prefix p a \<Longrightarrow> prefix p c \<Longrightarrow> prefix p b"
proof (induction p arbitrary: a b c)
  case (Cons x p)
  obtain a' c' where ac: "a = x # a'" "c = x # c'" using Cons.prems(3,4) by (auto simp: prefix_def)
  show ?case
  proof (cases b)
    case Nil
    then show ?thesis using Cons.prems(1) ac ord_char_nonneg [of x] by simp
  next
    case (Cons y b')
    then show ?thesis using Cons.prems Cons.IH [of a' b' c'] ac by (auto split: if_splits)
  qed
qed simp

text \<open>In a sorted array the elements with a prefix stand together.\<close>

lemma matches_together:
  assumes "sorted_wrt (\<lambda>a b. strcmp a b < 0) cs"
  shows "takeWhile (prefix p) (dropWhile (\<lambda>c. \<not> prefix p c) cs) = filter (prefix p) cs"
proof -
  have after: "takeWhile (prefix p) rest = filter (prefix p) rest" if "sorted_wrt (\<lambda>a b. strcmp a b < 0) (c # rest)" "prefix p c" for c rest
    using that
  proof (induction rest)
    case (Cons d rest)
    show ?case
    proof (cases "prefix p d")
      case False
      then have "\<not> prefix p e" if "e \<in> set rest" for e using prefix_convex [of c d e p] that Cons.prems by auto
      then show ?thesis using False by (simp add: filter_empty_conv)
    qed (use Cons in auto)
  qed simp
  show ?thesis using assms by (induction cs) (auto simp: after)
qed

lemma first_match_eq:
  "first_match txt n cs i = (if \<exists>c\<in>set cs. strncmp txt c n = 0 then Some (i + length (takeWhile (\<lambda>c. strncmp txt c n \<noteq> 0) cs)) else None)"
  by (induction cs arbitrary: i) auto

lemma generator_goes_on: "state > 0 \<Longrightarrow> command_generator txt state g = gen_emit txt g"
  by (simp add: command_generator_def)

lemma emitted:
  "state > 0 \<Longrightarrow> gen_cur g = Some i \<Longrightarrow> length (gen_choices g) - i < n \<Longrightarrow>
   completion_matches n (command_generator txt) state g =
     Some (takeWhile (\<lambda>c. strncmp txt c (gen_len g) = 0) (drop i (gen_choices g)))"
proof (induction n arbitrary: state g i)
  case (Suc n)
  show ?case
  proof (cases "i < length (gen_choices g) \<and> strncmp txt (gen_choices g ! i) (gen_len g) = 0")
    case True
    let ?g = "g\<lparr>gen_cur := Some (Suc i)\<rparr>"
    have rest: "length (gen_choices g) - Suc i < n" using Suc.prems(3) True by linarith
    have "completion_matches n (command_generator txt) (state + 1) ?g =
        Some (takeWhile (\<lambda>c. strncmp txt c (gen_len g) = 0) (drop (Suc i) (gen_choices g)))"
      using Suc.IH [of "state + 1" ?g "Suc i"] Suc.prems(1) rest by simp
    then show ?thesis using True Suc.prems by (simp add: generator_goes_on gen_emit_def Cons_nth_drop_Suc [symmetric])
  next
    case False
    then have "takeWhile (\<lambda>c. strncmp txt c (gen_len g) = 0) (drop i (gen_choices g)) = []"
      by (cases "i < length (gen_choices g)") (auto simp: Cons_nth_drop_Suc [symmetric])
    then show ?thesis using False Suc.prems by (auto simp: generator_goes_on gen_emit_def)
  qed
qed simp

text \<open>
  The first word of a line is completed to exactly the commands that start with it, in order,
  whatever was completed before.
\<close>

lemma commands_completed:
  assumes "no_nul txt" "gen_choices g = map c_name commands"
  shows "completion_matches (Suc (Suc (length commands))) (command_generator txt) 0 g =
    Some (filter (prefix txt) (map c_name commands))"
proof -
  let ?cs = "map c_name commands" and ?n = "length txt"
  have P: "strncmp txt c ?n = 0 \<longleftrightarrow> prefix txt c" if "c \<in> set ?cs" for c
    using strncmp_prefix [OF assms(1)] commands_sorted(2) that by (auto simp: list_all_iff)
  define i where "i = length (takeWhile (\<lambda>c. strncmp txt c ?n \<noteq> 0) ?cs)"
  have drop: "drop i ?cs = dropWhile (\<lambda>c. \<not> prefix txt c) ?cs"
  proof -
    have "takeWhile (\<lambda>c. strncmp txt c ?n \<noteq> 0) ?cs = takeWhile (\<lambda>c. \<not> prefix txt c) ?cs" by (rule takeWhile_cong) (use P in auto)
    then show ?thesis unfolding i_def by (simp add: dropWhile_eq_drop)
  qed
  have run: "takeWhile (\<lambda>c. strncmp txt c ?n = 0) (drop i ?cs) = filter (prefix txt) ?cs"
  proof -
    have "takeWhile (\<lambda>c. strncmp txt c ?n = 0) (drop i ?cs) = takeWhile (prefix txt) (drop i ?cs)"
      by (rule takeWhile_cong) (use P in \<open>auto dest: in_set_dropD\<close>)
    then show ?thesis unfolding drop using matches_together [OF commands_sorted(1)] by simp
  qed
  show ?thesis
  proof (cases "\<exists>c\<in>set ?cs. strncmp txt c ?n = 0")
    case True
    let ?g = "g\<lparr>gen_len := ?n, gen_cur := Some i\<rparr>"
    have fm: "first_match txt ?n ?cs 0 = Some i" using True by (simp add: first_match_eq i_def)
    have gen: "command_generator txt 0 g = gen_emit txt ?g" unfolding command_generator_def Let_def by (simp add: assms(2) fm)
    have "drop i ?cs \<noteq> []" using True unfolding drop by (metis P dropWhile_eq_Nil_conv)
    then have i: "i < length ?cs" by simp
    have "strncmp txt (?cs ! i) ?n = 0" using nth_length_takeWhile [of "\<lambda>c. strncmp txt c ?n \<noteq> 0" ?cs] i unfolding i_def by blast
    then have emit: "gen_emit txt ?g = (Some (?cs ! i), ?g\<lparr>gen_cur := Some (Suc i)\<rparr>)" using i assms(2) by (simp add: gen_emit_def)
    have "completion_matches (Suc (length commands)) (command_generator txt) 1 (?g\<lparr>gen_cur := Some (Suc i)\<rparr>) =
        Some (takeWhile (\<lambda>c. strncmp txt c ?n = 0) (drop (Suc i) ?cs))"
      using emitted [of 1 "?g\<lparr>gen_cur := Some (Suc i)\<rparr>" "Suc i" "Suc (length commands)" "txt"] assms(2) by simp
    then have "completion_matches (Suc (Suc (length commands))) (command_generator txt) 0 g =
        Some (?cs ! i # takeWhile (\<lambda>c. strncmp txt c ?n = 0) (drop (Suc i) ?cs))"
      by (subst completion_matches.simps) (simp add: gen emit)
    also have "\<dots> = Some (takeWhile (\<lambda>c. strncmp txt c ?n = 0) (drop i ?cs))"
      using i \<open>strncmp txt (?cs ! i) ?n = 0\<close> by (metis (mono_tags, lifting) Cons_nth_drop_Suc takeWhile.simps(2))
    finally show ?thesis unfolding run .
  next
    case False
    have fm: "first_match txt ?n ?cs 0 = None" using False by (simp add: first_match_eq)
    have "fst (command_generator txt 0 g) = None"
      unfolding command_generator_def Let_def gen_emit_def using False by (auto simp: assms(2) fm split: option.splits)
    moreover have "filter (prefix txt) ?cs = []" using False P unfolding filter_empty_conv by blast
    ultimately show ?thesis by (cases "command_generator txt 0 g") auto
  qed
qed

text \<open>
  An argument is never completed: what is looked up as the name of the command is the whole
  rest of the line, with the blank before the argument.
\<close>

lemma arguments_not_completed:
  assumes "no_nul line" "count_heading_blanks line < start" "start \<le> length line" "c_isspace (line ! (start - 1))"
  shows "wcsh_completion line start = No_completion"
proof -
  let ?rest = "drop (count_heading_blanks line) line"
  have "line ! (start - 1) \<in> set ?rest" using assms(2,3) by (auto simp: in_set_conv_nth intro!: exI [of _ "start - 1 - count_heading_blanks line"])
  moreover have "list_all (\<lambda>cmd. list_all (\<lambda>c. \<not> c_isspace c) (c_name cmd)) commands" by code_simp
  ultimately have "c_name cmd \<noteq> ?rest" if "cmd \<in> set commands" for cmd using assms(4) that by (auto simp: list_all_iff)
  moreover have "no_nul ?rest" using assms(1) by (auto simp: no_nul_def dest: in_set_dropD)
  ultimately have "find_command ?rest = None" using find_command_correct [of ?rest] by (cases "find_command ?rest") auto
  then show ?thesis using assms(2) by (simp add: wcsh_completion_def)
qed

end
