(* ===== verification/Spec2Isabelle.thy ===== *)
theory Spec2Isabelle
  imports Avl Hash Path Cache Push_Id Message Other_Loops Ht Wcsh_Script Wcsh_Completion
begin

text \<open>
  A verification development of the Webcom C SDK: a client library for a database of JSON
  documents on a server, and the shell \<^verbatim>\<open>wcsh\<close> built on it.

  The program. An application creates a context (\<^verbatim>\<open>lib/webcom_base.c\<close>) and tells it what its
  event loop sees: descriptors that are ready and timers that fire. The context asks the loop for
  them through events, which \<^verbatim>\<open>lib/libev.c\<close>, \<^verbatim>\<open>lib/libevent.c\<close> and
  \<^verbatim>\<open>lib/libuv.c\<close> answer for three event libraries. The datasync service
  (\<^verbatim>\<open>lib/datasync\<close>) speaks with the server over a websocket: requests wait in a table for
  their responses, updates from the server change a local copy of the data, and subscriptions are
  told what has changed. A subscription watches its path; of the watched paths only those with no
  watched ancestor are asked of the server. The authentication service (\<^verbatim>\<open>lib/auth\<close>) signs
  in with a separate HTTP request.

  Faithfulness. Every definition follows the source function whose name it has. State is a record
  with the fields of the C structure, 64-, 32- and 16-bit integers are words where their width matters, C
  strings are lists of bytes without a zero, and undefined behaviour (a null pointer, a use after
  free, a write after an array, a failed assertion, a call that a library forbids) is an error
  value of the result type of \<open>Prelude\<close>. A pointer into a structure is the path or the number
  that identifies what it points to. Releasing memory is modelled where the code may use it
  afterwards or release it twice. The libraries below the SDK (json-c, libwebsockets, cURL,
  libev) are parameters, or the documented rules on what may be called when; so are the clock, the
  random numbers and what the callbacks of an application answer.

  Theories, by part of the program:

    \<open>Prelude\<close>: results, C strings and integers, and the interfaces \<open>key_order\<close> (what a
    comparison callback has to satisfy) and \<open>keyed_store\<close> (the laws of a map).

    \<open>Avl\<close> (\<^verbatim>\<open>lib/collection/avl.c\<close>): the search tree with its stored heights and its
    iterators. Its locales \<open>avl_client\<close> and \<open>avl_store\<close> give every user of the tree the
    laws of \<open>keyed_store\<close>. Insertion keeps the balance; removal does not
    (\<open>avl_remove_breaks_balance\<close>).

    \<open>Ht\<close> (\<^verbatim>\<open>lib/collection/ht.c\<close>): the hash table, its rehashing and its iterator.

    \<open>Hash\<close>, \<open>Base64\<close>, \<open>Sha1\<close>, \<open>Json_Escape\<close>, \<open>Double\<close>: the hashes of
    strings, the encoders, SHA-1 against the standard, JSON string literals, and what is used of
    floating point numbers (their bits and \<^verbatim>\<open>%.16g\<close>).

    \<open>Path\<close> (\<^verbatim>\<open>lib/datasync/path.c\<close>): parsing, comparison, hash and prefixes of paths;
    \<open>key_order\<close> is interpreted for the three comparisons that the trees use.
    \<open>Path_Registry\<close>: loops over the trees of paths, which the two registries share.

    \<open>Treenode\<close>, \<open>Cache\<close> (\<^verbatim>\<open>lib/datasync/cache\<close>): the tree of nodes with cached
    hashes, and the local copy. The abstract specification is the map from the paths of leaves to
    their values: setting, merging and reading refine operations on that map.

    \<open>Push_Id\<close> (\<^verbatim>\<open>datasync_utils.c\<close>), \<open>Message\<close> (\<^verbatim>\<open>message.c\<close>,
    \<^verbatim>\<open>parser.c\<close>), \<open>Request\<close> (\<^verbatim>\<open>request.c\<close>): identifiers that increase, messages
    with their parser, and the table of pending requests as a map (locale \<open>pending_store\<close>).

    \<open>Listen\<close> (\<^verbatim>\<open>listen/listen_registry.c\<close>), \<open>On_Registry\<close>, \<open>On_Events\<close>
    (\<^verbatim>\<open>on/on_registry.c\<close>, \<^verbatim>\<open>on/on_api.c\<close>): counted watches and their requests, subscriptions
    and what a dispatch tells them.

    \<open>Auth\<close> (\<^verbatim>\<open>lib/auth/auth.c\<close>), \<open>Datasync\<close> (\<^verbatim>\<open>datasync.c\<close>,
    \<^verbatim>\<open>webcom_base.c\<close>), \<open>Connection\<close>: signing in, the callbacks of the connection, and the
    invariants over all sequences of application calls, timers and network events.

    \<open>Libev\<close>, \<open>Other_Loops\<close>: the integrations with event loops.

    \<open>Log\<close> (\<^verbatim>\<open>lib/log.c\<close>): which messages are written.

    \<open>Fsm\<close>, \<open>Wcsh_Parse\<close>, \<open>Wcsh_Program\<close>, \<open>Wcsh\<close>, \<open>Wcsh_Script\<close>,
    \<open>Wcsh_Completion\<close> (\<^verbatim>\<open>tools\<close>): the machine and the language of the shell, the queue of
    statements, the commands and the callbacks, scripts as a whole, and completion. The locale
    \<open>command_runner\<close> is what the queue needs of a shell; \<open>Wcsh\<close> interprets it.

  What is shown. The groups of lemmas are: that each data structure is a map, keeps its invariant
  and its bounds (the tree, the tables, the registries); that optimised or packed code agrees with
  a reference (SHA-1, hashes, encoders, the integer comparison of keys); round trips (paths,
  Base64, JSON strings, actions); what the cache, the subscriptions and the requests promise to an
  application; what holds of the connection in every reachable state, among them that the listen
  requests follow the connection, that timers are asked for consistently, and how long reconnections
  are delayed; and that a script executes its statements in order and never stalls. Where the code does
  not do what it should, the theorem states what it does, or a lemma shows an input that fails.

  Bounds and fuel. Loops are structural or have measures, with these exceptions: the walks
  over registries of \<open>Path_Registry\<close> take the number of elements as fuel, which is one step
  for each; the iteration of \<open>Ht\<close> takes any fuel greater than the number of items
  (\<open>ht_iteration_ends\<close> proves that it is enough); the calls of a completion generator take two
  more than the number of choices (\<open>commands_completed\<close>). The stack of the iterators has 32 entries,
  enough for balanced trees of fewer than 9227464 elements; the array of the parser of commands
  32 words of 1024 bytes; a path is shorter than 65536 bytes where offsets are concerned.

  Not modelled. The examples and the tests; running out of memory; callbacks of the
  application that call the library again from within a dispatch; the text that is printed, the
  prompt, the line editing and the options of the shell; the callbacks of \<^verbatim>\<open>libevent.c\<close> and
  \<^verbatim>\<open>libuv.c\<close> that call functions of the library with parameters that they no longer have;
  \<^verbatim>\<open>on/on_subscription.c\<close>, which is disabled.
\<close>

end
